(* ===== verification/Omq_Prelude.thy ===== *)
theory Omq_Prelude
  imports Main "HOL-Library.Word"
begin

text \<open>
  The prelude of the development: the named fact collections the component theories use, the
  error type that stands for the C++ exceptions, and the pieces of the C++ standard library the
  sources rely on (positions in a \<^verbatim>\<open>std::string_view\<close>, ASCII case mapping, decimal
  conversion, byte-wise storage of an unsigned integer), each with the lemmas the components
  share.
\<close>

named_theorems str_simps "positions and prefixes of strings"
named_theorems case_simps "ASCII case mapping"


section \<open>Errors\<close>

text \<open>
  Every \<^verbatim>\<open>throw\<close> of the sources is a value of \<open>exn\<close>, by the class of the exception
  object, with its message.
\<close>

datatype exn =
    invalid_argument string
  | out_of_range string
  | runtime_error string
  | logic_error string
  | zmq_error int

type_synonym 'a res = "exn + 'a"

definition bindE :: "'a res \<Rightarrow> ('a \<Rightarrow> 'b res) \<Rightarrow> 'b res" where
  "bindE r f = (case r of Inl e \<Rightarrow> Inl e | Inr x \<Rightarrow> f x)"

lemma bindE_simps [simp]:
  "bindE (Inl e) f = Inl e"
  "bindE (Inr x) f = f x"
  by (simp_all add: bindE_def)

lemma bindE_Inr_iff: "bindE r f = Inr y \<longleftrightarrow> (\<exists>x. r = Inr x \<and> f x = Inr y)"
  by (cases r) auto

lemma bindE_split_asm: "bindE r f = Inl e \<longleftrightarrow> r = Inl e \<or> (\<exists>x. r = Inr x \<and> f x = Inl e)"
  by (cases r) auto


section \<open>Strings\<close>

text \<open>
  \<^verbatim>\<open>find\<close>, \<^verbatim>\<open>find_first_not_of\<close> and \<^verbatim>\<open>find_last_not_of\<close> of the standard library:
  \<open>None\<close> is \<^verbatim>\<open>npos\<close>.
\<close>

fun find_char :: "char \<Rightarrow> string \<Rightarrow> nat option" where
  "find_char c [] = None"
| "find_char c (x # xs) = (if x = c then Some 0 else map_option Suc (find_char c xs))"

fun find_str :: "string \<Rightarrow> string \<Rightarrow> nat option" where
  "find_str pat [] = (if pat = [] then Some 0 else None)"
| "find_str pat (x # xs) =
     (if take (length pat) (x # xs) = pat then Some 0 else map_option Suc (find_str pat xs))"

fun find_not_of :: "string \<Rightarrow> string \<Rightarrow> nat option" where
  "find_not_of cs [] = None"
| "find_not_of cs (x # xs) = (if x \<in> set cs then map_option Suc (find_not_of cs xs) else Some 0)"

text \<open>\<^verbatim>\<open>s.find_first_not_of(cs, pos)\<close>.\<close>

definition find_first_not_of :: "string \<Rightarrow> nat \<Rightarrow> string \<Rightarrow> nat option" where
  "find_first_not_of cs pos s = map_option ((+) pos) (find_not_of cs (drop pos s))"

definition find_last_not_of :: "string \<Rightarrow> string \<Rightarrow> nat option" where
  "find_last_not_of cs s = map_option (\<lambda>i. length s - 1 - i) (find_not_of cs (rev s))"

lemma find_char_None [str_simps]: "find_char c s = None \<longleftrightarrow> c \<notin> set s"
  by (induction s) auto

lemma find_char_append [str_simps]:
  "c \<notin> set s \<Longrightarrow> find_char c (s @ c # t) = Some (length s)"
  by (induction s) auto

lemma find_char_Some:
  "find_char c s = Some i \<Longrightarrow> i < length s \<and> s ! i = c \<and> c \<notin> set (take i s)"
proof (induction s arbitrary: i)
  case (Cons x xs)
  then show ?case by (auto split: if_splits simp: less_Suc_eq_0_disj)
qed simp

lemma find_not_of_append [str_simps]:
  "set s \<subseteq> set cs \<Longrightarrow> find_not_of cs (s @ t) = map_option ((+) (length s)) (find_not_of cs t)"
proof (induction s)
  case Nil
  then show ?case by (cases "find_not_of cs t") auto
next
  case (Cons x s)
  then show ?case by (cases "find_not_of cs t") auto
qed

lemma find_not_of_hit [simp]: "c \<notin> set cs \<Longrightarrow> find_not_of cs (c # t) = Some 0"
  by simp

lemma find_not_of_None [str_simps]: "find_not_of cs s = None \<longleftrightarrow> set s \<subseteq> set cs"
  by (induction s) auto

lemma find_not_of_Some:
  "find_not_of cs s = Some i \<Longrightarrow> i < length s \<and> s ! i \<notin> set cs \<and> set (take i s) \<subseteq> set cs"
proof (induction s arbitrary: i)
  case (Cons x xs)
  then show ?case by (auto split: if_splits)
qed simp


section \<open>ASCII case\<close>

definition is_upper :: "char \<Rightarrow> bool" where
  "is_upper c \<longleftrightarrow> (65::nat) \<le> of_char c \<and> of_char c \<le> (90::nat)"

definition is_lower :: "char \<Rightarrow> bool" where
  "is_lower c \<longleftrightarrow> (97::nat) \<le> of_char c \<and> of_char c \<le> (122::nat)"

definition is_digit :: "char \<Rightarrow> bool" where
  "is_digit c \<longleftrightarrow> (48::nat) \<le> of_char c \<and> of_char c \<le> (57::nat)"

text \<open>\<^verbatim>\<open>c - 'A' + 'a'\<close> on an upper-case letter and \<^verbatim>\<open>c - 'a' + 'A'\<close> on a lower-case one.\<close>

definition lower_char :: "char \<Rightarrow> char" where
  "lower_char c = (if is_upper c then char_of (of_char c + (32::nat)) else c)"

definition upper_char :: "char \<Rightarrow> char" where
  "upper_char c = (if is_lower c then char_of (of_char c - (32::nat)) else c)"

lemma of_lower_char [case_simps]:
  "is_upper c \<Longrightarrow> (of_char (lower_char c) :: nat) = of_char c + 32"
  by (simp add: lower_char_def is_upper_def)

lemma of_upper_char [case_simps]:
  "is_lower c \<Longrightarrow> (of_char (upper_char c) :: nat) = of_char c - 32"
proof -
  assume low: "is_lower c"
  then have "(of_char c :: nat) - 32 < 256" unfolding is_lower_def by linarith
  with low show ?thesis by (simp add: upper_char_def)
qed

lemma lower_char_id [simp]: "\<not> is_upper c \<Longrightarrow> lower_char c = c"
  by (simp add: lower_char_def)

lemma upper_char_id [simp]: "\<not> is_lower c \<Longrightarrow> upper_char c = c"
  by (simp add: upper_char_def)

lemma lower_upper_char [case_simps]: "\<not> is_upper c \<Longrightarrow> lower_char (upper_char c) = c"
proof (cases "is_lower c")
  case True
  then have "(of_char (upper_char c) :: nat) = of_char c - 32" by (rule of_upper_char)
  with True have up: "is_upper (upper_char c)" by (auto simp: is_lower_def is_upper_def)
  have "(of_char (lower_char (upper_char c)) :: nat) = of_char c"
    using True by (simp add: of_lower_char [OF up] of_upper_char is_lower_def)
  then show ?thesis by simp
qed simp

lemma upper_char_not_lower [case_simps]: "\<not> is_lower (upper_char c)"
proof (cases "is_lower c")
  case True
  then show ?thesis using of_upper_char [OF True] by (auto simp: is_lower_def)
qed simp

lemma lower_char_not_upper [case_simps]: "\<not> is_upper (lower_char c)"
proof (cases "is_upper c")
  case True
  then show ?thesis using of_lower_char [OF True] by (auto simp: is_upper_def)
qed simp


section \<open>Decimal numbers\<close>

text \<open>\<^verbatim>\<open>std::to_string\<close> on an unsigned value and \<^verbatim>\<open>std::stoi\<close> on a string of digits.\<close>

definition digit_char :: "nat \<Rightarrow> char" where
  "digit_char d = char_of (48 + d)"

definition digit_val :: "char \<Rightarrow> nat" where
  "digit_val c = of_char c - 48"

fun to_dec :: "nat \<Rightarrow> string" where
  "to_dec n = (if n < 10 then [digit_char n] else to_dec (n div 10) @ [digit_char (n mod 10)])"

declare to_dec.simps [simp del]

definition from_dec :: "string \<Rightarrow> nat" where
  "from_dec s = foldl (\<lambda>a c. 10 * a + digit_val c) 0 s"

definition digits :: string where
  "digits = ''1234567890''"

lemma digit_char_digit [simp]: "d < 10 \<Longrightarrow> is_digit (digit_char d)"
  by (simp add: digit_char_def is_digit_def)

lemma digit_val_char [simp]: "d < 10 \<Longrightarrow> digit_val (digit_char d) = d"
  by (simp add: digit_char_def digit_val_def)

lemma in_digits [simp]: "c \<in> set digits \<longleftrightarrow> is_digit c"
proof
  assume "is_digit c"
  then have "(of_char c :: nat) \<in> of_char ` set digits"
    unfolding is_digit_def digits_def by simp arith
  then obtain d where "d \<in> set digits" and "(of_char c :: nat) = of_char d"
    by (rule imageE)
  then show "c \<in> set digits" by (simp only: of_char_eq_iff)
qed (auto simp: is_digit_def digits_def)

lemma to_dec_digits: "c \<in> set (to_dec n) \<Longrightarrow> is_digit c"
proof (induction n rule: to_dec.induct)
  case (1 n)
  then show ?case by (cases "n < 10") (auto simp: to_dec.simps [of n])
qed

lemma to_dec_not_Nil [simp]: "to_dec n \<noteq> []"
  by (subst to_dec.simps) simp

lemma from_dec_to_dec [simp]: "from_dec (to_dec n) = n"
proof (induction n rule: to_dec.induct)
  case (1 n)
  show ?case
  proof (cases "n < 10")
    case True
    then show ?thesis by (simp add: to_dec.simps [of n] from_dec_def)
  next
    case False
    with 1 have "from_dec (to_dec (n div 10)) = n div 10" by simp
    with False show ?thesis by (simp add: to_dec.simps [of n] from_dec_def)
  qed
qed

end
