(* ===== verification/Oxenc.thy ===== *)
theory Oxenc
  imports Omq_Prelude
begin

text \<open>
  The text encodings of the oxenc library (a git submodule, not part of the sources) that
  \<^verbatim>\<open>address.cpp\<close>, \<^verbatim>\<open>auth.cpp\<close> and \<^verbatim>\<open>oxenmq.cpp\<close> call. The library is a parameter: a record
  of its functions, passed to every definition that uses it. What the sources rely on are the
  laws of the locale \<open>oxenc_laws\<close>. The second half builds the encodings themselves (hex,
  base32z, base64 as radix conversions of the bit string) and shows that they satisfy the laws,
  so that no property proved under the laws is empty.
\<close>

section \<open>The interface\<close>

record oxenc =
  is_hex :: "string \<Rightarrow> bool"
  from_hex :: "string \<Rightarrow> string"
  to_hex :: "string \<Rightarrow> string"
  is_base32z :: "string \<Rightarrow> bool"
  from_base32z :: "string \<Rightarrow> string"
  to_base32z :: "string \<Rightarrow> string"
  is_base64 :: "string \<Rightarrow> bool"
  from_base64 :: "string \<Rightarrow> string"
  to_base64 :: "string \<Rightarrow> string"

abbreviation alnum_char :: "char \<Rightarrow> bool" where
  "alnum_char c \<equiv> is_upper c \<or> is_lower c \<or> is_digit c"

locale oxenc_laws =
  fixes oc :: oxenc
  assumes hex_valid: "is_hex oc (to_hex oc s)"
    and hex_length: "length (to_hex oc s) = 2 * length s"
    and hex_inverse: "from_hex oc (to_hex oc s) = s"
    and hex_decoded: "is_hex oc t \<Longrightarrow> length t = 64 \<Longrightarrow> length (from_hex oc t) = 32"
    and hex_alnum: "is_hex oc t \<Longrightarrow> c \<in> set t \<Longrightarrow> alnum_char c"
    and b32z_valid: "is_base32z oc (to_base32z oc s)"
    and b32z_length: "length s = 32 \<Longrightarrow> length (to_base32z oc s) = 52"
    and b32z_inverse: "from_base32z oc (to_base32z oc s) = s"
    and b32z_decoded: "is_base32z oc t \<Longrightarrow> length t = 52 \<Longrightarrow> length (from_base32z oc t) = 32"
    and b32z_alnum: "is_base32z oc t \<Longrightarrow> c \<in> set t \<Longrightarrow> alnum_char c"
    and b32z_upper_valid: "is_base32z oc t \<Longrightarrow> is_base32z oc (map upper_char t)"
    and b32z_upper_inverse: "is_base32z oc t \<Longrightarrow> from_base32z oc (map upper_char t) = from_base32z oc t"
    and b64_valid: "is_base64 oc (to_base64 oc s)"
    and b64_inverse: "from_base64 oc (to_base64 oc s) = s"
    and b64_padded: "\<exists>t. to_base64 oc s = t @ replicate ((3 - length s mod 3) mod 3) CHR ''=''
        \<and> length t = (8 * length s + 5) div 6 \<and> CHR ''='' \<notin> set t
        \<and> is_base64 oc t \<and> from_base64 oc t = s"
    and b64_decoded: "is_base64 oc t \<Longrightarrow> length t = 43 \<Longrightarrow> length (from_base64 oc t) = 32"
    and b64_decoded_padded: "is_base64 oc t \<Longrightarrow> length t = 44 \<Longrightarrow> last t = CHR ''=''
      \<Longrightarrow> length (from_base64 oc t) = 31 \<or> length (from_base64 oc t) = 32"


section \<open>Radix conversion of byte strings\<close>

primrec bits_of :: "nat \<Rightarrow> nat \<Rightarrow> bool list" where
  "bits_of 0 n = []"
| "bits_of (Suc k) n = bits_of k (n div 2) @ [odd n]"

definition val_of :: "bool list \<Rightarrow> nat" where
  "val_of bs = foldl (\<lambda>a b. 2 * a + of_bool b) 0 bs"

function chunks :: "nat \<Rightarrow> 'a list \<Rightarrow> 'a list list" where
  "chunks k xs = (if k = 0 \<or> xs = [] then [] else take k xs # chunks k (drop k xs))"
  by pat_completeness auto
termination
  by (relation "measure (\<lambda>(k, xs). length xs)") auto

declare chunks.simps [simp del]

definition bytes_bits :: "string \<Rightarrow> bool list" where
  "bytes_bits s = concat (map (\<lambda>c. bits_of 8 (of_char c)) s)"

definition pad_bits :: "nat \<Rightarrow> bool list \<Rightarrow> bool list" where
  "pad_bits k bs = bs @ replicate ((k - length bs mod k) mod k) False"

definition encode_radix :: "nat \<Rightarrow> string \<Rightarrow> string \<Rightarrow> string" where
  "encode_radix k al s = map (\<lambda>b. al ! val_of b) (chunks k (pad_bits k (bytes_bits s)))"

definition char_index :: "string \<Rightarrow> char \<Rightarrow> nat" where
  "char_index al c = (case find_char c al of None \<Rightarrow> 0 | Some i \<Rightarrow> i)"

definition decode_radix :: "nat \<Rightarrow> string \<Rightarrow> string \<Rightarrow> string" where
  "decode_radix k al t =
     (let bs = concat (map (\<lambda>c. bits_of k (char_index al c)) t)
      in map (\<lambda>b. char_of (val_of b)) (chunks 8 (take (8 * (length bs div 8)) bs)))"

lemma length_bits_of [simp]: "length (bits_of k n) = k"
  by (induction k arbitrary: n) auto

lemma val_of_append: "val_of (xs @ [b]) = 2 * val_of xs + of_bool b"
  by (simp add: val_of_def)

lemma val_of_bits_of [simp]: "n < 2 ^ k \<Longrightarrow> val_of (bits_of k n) = n"
proof (induction k arbitrary: n)
  case 0
  then show ?case by (simp add: val_of_def)
next
  case (Suc k)
  then have "val_of (bits_of k (n div 2)) = n div 2" by simp
  then show ?case by (simp add: val_of_append)
qed

lemma bits_of_val_of [simp]: "bits_of (length bs) (val_of bs) = bs"
  by (induction bs rule: rev_induct) (auto simp: val_of_append)

lemma val_of_less: "val_of bs < 2 ^ length bs"
proof (induction bs rule: rev_induct)
  case Nil
  then show ?case by (simp add: val_of_def)
next
  case (snoc b bs)
  then show ?case by (cases b) (simp_all add: val_of_append)
qed

lemma chunks_Nil [simp]: "chunks k [] = []"
  by (simp add: chunks.simps)

lemma concat_chunks: "0 < k \<Longrightarrow> concat (chunks k xs) = xs"
proof (induction k xs rule: chunks.induct)
  case (1 k xs)
  then show ?case by (cases "xs = []") (simp_all add: chunks.simps [of k xs])
qed

lemma chunks_length_dvd:
  "0 < k \<Longrightarrow> k dvd length xs \<Longrightarrow> b \<in> set (chunks k xs) \<Longrightarrow> length b = k"
proof (induction k xs rule: chunks.induct)
  case (1 k xs)
  show ?case
  proof (cases "xs = []")
    case False
    with 1 have "k \<le> length xs" by (simp add: dvd_imp_le)
    then have "k dvd length (drop k xs)" using 1 by (simp add: dvd_diff_nat)
    with 1 False \<open>k \<le> length xs\<close> show ?thesis
      by (auto simp: chunks.simps [of k xs])
  qed (use 1 in \<open>simp add: chunks.simps [of k xs]\<close>)
qed

lemma length_chunks: "0 < k \<Longrightarrow> k dvd length xs \<Longrightarrow> length (chunks k xs) = length xs div k"
proof (induction k xs rule: chunks.induct)
  case (1 k xs)
  show ?case
  proof (cases "xs = []")
    case False
    with 1 have le: "k \<le> length xs" by (simp add: dvd_imp_le)
    then have "k dvd length (drop k xs)" using 1 by (simp add: dvd_diff_nat)
    with 1 False have "length (chunks k (drop k xs)) = length (drop k xs) div k" by simp
    with False 1 le show ?thesis by (simp add: chunks.simps [of k xs] le_div_geq)
  qed (simp add: chunks.simps [of k xs])
qed

lemma chunks_concat:
  "0 < k \<Longrightarrow> (\<And>b. b \<in> set bss \<Longrightarrow> length b = k) \<Longrightarrow> chunks k (concat bss) = bss"
proof (induction bss)
  case Nil
  then show ?case by (simp add: chunks.simps)
next
  case (Cons b bss)
  then have "length b = k" "b \<noteq> []" by auto
  with Cons show ?case by (simp add: chunks.simps [of k "b @ concat bss"])
qed

lemma length_bytes_bits [simp]: "length (bytes_bits s) = 8 * length s"
  by (induction s) (auto simp: bytes_bits_def)

lemma length_pad_bits: "0 < k \<Longrightarrow> k dvd length (pad_bits k bs)"
proof -
  assume k: "0 < k"
  define r where "r = length bs mod k"
  have "(length bs + (k - r) mod k) mod k = (length bs + (k - r)) mod k"
    by (rule mod_add_right_eq)
  also have "\<dots> = (r + (k - r)) mod k"
    unfolding r_def by (rule mod_add_left_eq [symmetric])
  also have "r + (k - r) = k" using k by (simp add: r_def less_imp_le)
  finally show ?thesis
    by (simp only: pad_bits_def r_def dvd_eq_mod_eq_0 length_append length_replicate mod_self)
qed

lemma pad_amount_less: "0 < k \<Longrightarrow> length (pad_bits k bs) < length bs + k"
  by (simp add: pad_bits_def)

lemma char_index_nth [simp]: "distinct al \<Longrightarrow> i < length al \<Longrightarrow> char_index al (al ! i) = i"
proof -
  assume d: "distinct al" and i: "i < length al"
  then have "al ! i \<in> set al" by simp
  then obtain j where j: "find_char (al ! i) al = Some j"
    using find_char_None by (metis option.exhaust)
  then have "j < length al" "al ! j = al ! i" by (auto dest: find_char_Some)
  with d i have "j = i" by (simp add: nth_eq_iff_index_eq)
  with j show ?thesis by (simp add: char_index_def)
qed

text \<open>Decoding the encoded bytes gives them back, whatever the digit size of at most 8 bits.\<close>

lemma decode_encode_radix:
  assumes k: "0 < k" "k \<le> 8" and al: "distinct al" "length al = 2 ^ k"
  shows "decode_radix k al (encode_radix k al s) = s"
proof -
  let ?cs = "chunks k (pad_bits k (bytes_bits s))"
  have len: "length b = k" if "b \<in> set ?cs" for b
    using that k chunks_length_dvd length_pad_bits by blast
  have inv: "bits_of k (char_index al (al ! val_of b)) = b" if "b \<in> set ?cs" for b
    using len [OF that] val_of_less [of b] bits_of_val_of [of b] al by simp
  then have "map (\<lambda>b. bits_of k (char_index al (al ! val_of b))) ?cs = ?cs"
    by (rule map_idI)
  then have bits: "concat (map (\<lambda>c. bits_of k (char_index al c)) (encode_radix k al s))
      = pad_bits k (bytes_bits s)"
    using k by (simp add: encode_radix_def comp_def concat_chunks)
  have "(k - 8 * length s mod k) mod k < 8"
    using mod_less_divisor [OF k(1)] k(2) by (rule less_le_trans)
  then have "length (pad_bits k (bytes_bits s)) div 8 = length s"
    by (simp add: pad_bits_def)
  then have "take (8 * (length (pad_bits k (bytes_bits s)) div 8)) (pad_bits k (bytes_bits s))
      = bytes_bits s"
    by (simp add: pad_bits_def)
  moreover have "chunks 8 (bytes_bits s) = map (\<lambda>c. bits_of 8 (of_char c)) s"
    unfolding bytes_bits_def by (rule chunks_concat) auto
  moreover have "val_of (bits_of 8 (of_char c)) = of_char c" for c :: char
    by (rule val_of_bits_of) simp
  ultimately show ?thesis
    by (simp add: decode_radix_def bits Let_def comp_def)
qed

lemma length_encode_radix:
  "0 < k \<Longrightarrow> length (encode_radix k al s) = length (pad_bits k (bytes_bits s)) div k"
  by (simp add: encode_radix_def length_chunks length_pad_bits)

lemma encode_radix_alphabet:
  assumes "0 < k" "length al = 2 ^ k"
  shows "set (encode_radix k al s) \<subseteq> set al"
proof
  fix c assume "c \<in> set (encode_radix k al s)"
  then obtain b where b: "b \<in> set (chunks k (pad_bits k (bytes_bits s)))" "c = al ! val_of b"
    by (auto simp: encode_radix_def)
  then have "length b = k" using assms chunks_length_dvd length_pad_bits by blast
  then have "val_of b < length al" using val_of_less [of b] assms by simp
  with b show "c \<in> set al" by simp
qed


section \<open>An implementation that satisfies the laws\<close>

definition hex_alphabet :: string where
  "hex_alphabet = ''0123456789abcdef''"

definition b32z_alphabet :: string where
  "b32z_alphabet = ''ybndrfg8ejkmcpqxot1uwisza345h769''"

definition b64_alphabet :: string where
  "b64_alphabet = ''ABCDEFGHIJKLMNOPQRSTUVWXYZabcdefghijklmnopqrstuvwxyz0123456789+/''"

definition strip_pad :: "string \<Rightarrow> string" where
  "strip_pad t = rev (dropWhile (\<lambda>c. c = CHR ''='') (rev t))"

definition oxenc_ref :: oxenc where
  "oxenc_ref = \<lparr>
     is_hex = (\<lambda>t. even (length t) \<and> list_all (\<lambda>c. lower_char c \<in> set hex_alphabet) t),
     from_hex = (\<lambda>t. decode_radix 4 hex_alphabet (map lower_char t)),
     to_hex = encode_radix 4 hex_alphabet,
     is_base32z = list_all (\<lambda>c. lower_char c \<in> set b32z_alphabet),
     from_base32z = (\<lambda>t. decode_radix 5 b32z_alphabet (map lower_char t)),
     to_base32z = encode_radix 5 b32z_alphabet,
     is_base64 = (\<lambda>t. list_all (\<lambda>c. c \<in> set b64_alphabet) (strip_pad t)
       \<and> length (strip_pad t) mod 4 \<noteq> 1 \<and> (strip_pad t = t
           \<or> length t mod 4 = 0 \<and> length t \<le> length (strip_pad t) + 2)),
     from_base64 = (\<lambda>t. decode_radix 6 b64_alphabet (strip_pad t)),
     to_base64 = (\<lambda>s. encode_radix 6 b64_alphabet s @ replicate ((3 - length s mod 3) mod 3) CHR ''='')
   \<rparr>"

lemma length_decode_radix: "length (decode_radix k al t) = k * length t div 8"
proof -
  have "length (concat (map (\<lambda>c. bits_of k (char_index al c)) t)) = k * length t"
    by (induction t) auto
  then show ?thesis by (simp add: decode_radix_def Let_def length_chunks)
qed

lemma alphabet_facts:
  "distinct hex_alphabet" "length hex_alphabet = 2 ^ 4"
  "distinct b32z_alphabet" "length b32z_alphabet = 2 ^ 5"
  "distinct b64_alphabet" "length b64_alphabet = 2 ^ 6"
  by (simp_all add: hex_alphabet_def b32z_alphabet_def b64_alphabet_def)

lemma hex_alphabet_lower: "c \<in> set hex_alphabet \<Longrightarrow> \<not> is_upper c \<and> alnum_char c"
  by (auto simp: hex_alphabet_def is_upper_def is_lower_def is_digit_def)

lemma b32z_alphabet_lower: "c \<in> set b32z_alphabet \<Longrightarrow> \<not> is_upper c \<and> alnum_char c"
  by (auto simp: b32z_alphabet_def is_upper_def is_lower_def is_digit_def)

lemma map_lower_id: "(\<And>c. c \<in> set t \<Longrightarrow> \<not> is_upper c) \<Longrightarrow> map lower_char t = t"
  by (rule map_idI) simp

lemma lower_in_alphabet:
  "(\<And>c. c \<in> set al \<Longrightarrow> \<not> is_upper c \<and> alnum_char c) \<Longrightarrow> set t \<subseteq> set al
    \<Longrightarrow> \<forall>c\<in>set t. lower_char c \<in> set al"
  by (auto simp: subset_iff)

lemma alnum_lower_char: "alnum_char (lower_char c) \<Longrightarrow> alnum_char c"
  by (cases "is_upper c") auto

lemma strip_pad_id: "CHR ''='' \<notin> set t \<Longrightarrow> strip_pad t = t"
proof -
  assume "CHR ''='' \<notin> set t"
  then have "dropWhile (\<lambda>c. c = CHR ''='') (rev t) = rev t"
    by (cases t rule: rev_cases) auto
  then show ?thesis by (simp add: strip_pad_def)
qed

lemma strip_pad_append: "strip_pad (t @ replicate n CHR ''='') = strip_pad t"
proof -
  have "dropWhile (\<lambda>c. c = CHR ''='') (replicate n CHR ''='' @ rev t)
      = dropWhile (\<lambda>c. c = CHR ''='') (rev t)"
    by (induction n) simp_all
  then show ?thesis by (simp add: strip_pad_def)
qed

lemma b64_groups:
  obtains q where "n = 3 * q" "(8 * n + 5) div 6 = 4 * q" "(6 - 8 * n mod 6) mod 6 = 0"
    | q where "n = 3 * q + 1" "(8 * n + 5) div 6 = 4 * q + 2" "(6 - 8 * n mod 6) mod 6 = 4"
    | q where "n = 3 * q + 2" "(8 * n + 5) div 6 = 4 * q + 3" "(6 - 8 * n mod 6) mod 6 = (2::nat)"
proof -
  define q where "q = n div 3"
  have "n = 3 * q \<or> n = 3 * q + 1 \<or> n = 3 * q + 2" unfolding q_def by presburger
  moreover have "8 * (3 * q) mod 6 = 0" "8 * (3 * q + 1) mod 6 = 2" "8 * (3 * q + 2) mod 6 = 4"
    by presburger+
  moreover have "(8 * (3 * q) + 5) div 6 = 4 * q" "(8 * (3 * q + 1) + 5) div 6 = 4 * q + 2"
    "(8 * (3 * q + 2) + 5) div 6 = 4 * q + 3"
    by presburger+
  ultimately show thesis using that by auto
qed

lemma length_encode_b64: "length (encode_radix 6 b64_alphabet s) = (8 * length s + 5) div 6"
proof -
  have "length (pad_bits 6 (bytes_bits s)) = 6 * ((8 * length s + 5) div 6)"
    by (rule b64_groups [of "length s"]) (simp_all add: pad_bits_def)
  then show ?thesis by (simp add: length_encode_radix)
qed

lemma b64_group_length:
  "((8 * n + 5) div 6) mod 4 \<noteq> (1::nat)" "((8 * n + 5) div 6 + (3 - n mod 3) mod 3) mod 4 = (0::nat)"
proof -
  have m: "(4 * q + 2) mod 4 = 2" "(4 * q + 3) mod 4 = 3" "(3 * q + 1) mod 3 = 1"
    "(3 * q + 2) mod 3 = 2" for q :: nat
    by presburger+
  have "(8 * n + 5) div 6 mod 4 = (0::nat) \<or> (8 * n + 5) div 6 mod 4 = (2::nat)
      \<or> (8 * n + 5) div 6 mod 4 = (3::nat)"
    by (rule b64_groups [of n]) (simp_all only: m mod_mult_self1_is_0, simp_all)
  then show "((8 * n + 5) div 6) mod 4 \<noteq> (1::nat)" by arith
  show "((8 * n + 5) div 6 + (3 - n mod 3) mod 3) mod 4 = (0::nat)"
    by (rule b64_groups [of n]) (simp_all only: m mod_mult_self1_is_0, simp_all)
qed

lemma lower_upper_valid: "lower_char (upper_char c) = lower_char c"
proof (cases "is_upper c")
  case True
  then have "\<not> is_lower c" by (auto simp: is_upper_def is_lower_def)
  then show ?thesis by simp
next
  case False
  then show ?thesis by (simp add: lower_upper_char)
qed

interpretation oref: oxenc_laws oxenc_ref
proof
  fix s t :: string and c :: char
  have al: "set (encode_radix 4 hex_alphabet s) \<subseteq> set hex_alphabet"
    by (rule encode_radix_alphabet) (simp_all add: alphabet_facts)
  then have low: "map lower_char (encode_radix 4 hex_alphabet s) = encode_radix 4 hex_alphabet s"
    by (intro map_lower_id) (auto dest: hex_alphabet_lower)
  have pad: "length (pad_bits 4 (bytes_bits s)) = 8 * length s"
    by (simp add: pad_bits_def mod_mult_left_eq)
  show "length (to_hex oxenc_ref s) = 2 * length s"
    by (simp add: oxenc_ref_def length_encode_radix pad)
  then have len: "length (encode_radix 4 hex_alphabet s) = 2 * length s"
    by (simp add: oxenc_ref_def)
  show "is_hex oxenc_ref (to_hex oxenc_ref s)"
    using al by (simp add: oxenc_ref_def list_all_iff len lower_in_alphabet [OF hex_alphabet_lower])
  show "from_hex oxenc_ref (to_hex oxenc_ref s) = s"
    by (simp add: oxenc_ref_def low decode_encode_radix alphabet_facts)
  show "alnum_char c" if "is_hex oxenc_ref t" "c \<in> set t"
  proof -
    from that have "lower_char c \<in> set hex_alphabet" by (simp add: oxenc_ref_def list_all_iff)
    then show ?thesis using hex_alphabet_lower alnum_lower_char by blast
  qed
  have al5: "set (encode_radix 5 b32z_alphabet s) \<subseteq> set b32z_alphabet"
    by (rule encode_radix_alphabet) (simp_all add: alphabet_facts)
  then have low5: "map lower_char (encode_radix 5 b32z_alphabet s) = encode_radix 5 b32z_alphabet s"
    by (intro map_lower_id) (auto dest: b32z_alphabet_lower)
  show "is_base32z oxenc_ref (to_base32z oxenc_ref s)"
    using al5 by (simp add: oxenc_ref_def list_all_iff lower_in_alphabet [OF b32z_alphabet_lower])
  show "length (to_base32z oxenc_ref s) = 52" if "length s = 32"
    using that by (simp add: oxenc_ref_def length_encode_radix pad_bits_def)
  show "from_base32z oxenc_ref (to_base32z oxenc_ref s) = s"
    by (simp add: oxenc_ref_def low5 decode_encode_radix alphabet_facts)
  show "alnum_char c" if "is_base32z oxenc_ref t" "c \<in> set t"
  proof -
    from that have "lower_char c \<in> set b32z_alphabet" by (simp add: oxenc_ref_def list_all_iff)
    then show ?thesis using b32z_alphabet_lower alnum_lower_char by blast
  qed
  show "is_base32z oxenc_ref (map upper_char t)" if "is_base32z oxenc_ref t"
    using that by (simp add: oxenc_ref_def list_all_iff lower_upper_valid)
  show "from_base32z oxenc_ref (map upper_char t) = from_base32z oxenc_ref t"
    by (simp add: oxenc_ref_def comp_def lower_upper_valid)
  show "length (from_hex oxenc_ref t) = 32" if "length t = 64"
    using that by (simp add: oxenc_ref_def length_decode_radix)
  show "length (from_base32z oxenc_ref t) = 32" if "length t = 52"
    using that by (simp add: oxenc_ref_def length_decode_radix)
  show "length (from_base64 oxenc_ref t) = 32" if "is_base64 oxenc_ref t" "length t = 43"
    using that by (simp add: oxenc_ref_def length_decode_radix)
  show "length (from_base64 oxenc_ref t) = 31 \<or> length (from_base64 oxenc_ref t) = 32"
    if "is_base64 oxenc_ref t" "length t = 44" "last t = CHR ''=''"
  proof -
    have "length (strip_pad t) < 44"
      using that by (cases t rule: rev_cases)
        (auto simp: strip_pad_def intro: le_less_trans [OF length_dropWhile_le])
    with that have "length (strip_pad t) = 42 \<or> length (strip_pad t) = 43"
      by (auto simp: oxenc_ref_def)
    then show ?thesis by (auto simp: oxenc_ref_def length_decode_radix)
  qed
  let ?e = "encode_radix 6 b64_alphabet s" and ?p = "replicate ((3 - length s mod 3) mod 3) CHR ''=''"
  have al6: "set ?e \<subseteq> set b64_alphabet"
    by (rule encode_radix_alphabet) (simp_all add: alphabet_facts)
  moreover have "CHR ''='' \<notin> set b64_alphabet" by (simp add: b64_alphabet_def)
  ultimately have noeq: "CHR ''='' \<notin> set ?e" by blast
  have strip: "strip_pad (?e @ replicate n CHR ''='') = ?e" for n
    by (simp add: strip_pad_append strip_pad_id [OF noeq])
  have len6: "length ?e = (8 * length s + 5) div 6" by (simp add: length_encode_b64)
  have dec: "decode_radix 6 b64_alphabet ?e = s" by (simp add: decode_encode_radix alphabet_facts)
  have mods: "length ?e mod 4 \<noteq> 1" "length (?e @ ?p) mod 4 = 0"
    using b64_group_length [of "length s"] by (simp_all add: len6)
  show "is_base64 oxenc_ref (to_base64 oxenc_ref s)"
    using al6 mods by (auto simp: oxenc_ref_def strip list_all_iff)
  show "from_base64 oxenc_ref (to_base64 oxenc_ref s) = s"
    by (simp add: oxenc_ref_def strip dec)
  show "\<exists>t. to_base64 oxenc_ref s = t @ ?p \<and> length t = (8 * length s + 5) div 6
        \<and> CHR ''='' \<notin> set t \<and> is_base64 oxenc_ref t \<and> from_base64 oxenc_ref t = s"
    using al6 mods noeq len6 dec strip_pad_id [OF noeq]
    by (intro exI [of _ ?e]) (auto simp: oxenc_ref_def list_all_iff)
qed

lemma oxenc_ref_laws: "oxenc_laws oxenc_ref"
  by (rule oref.oxenc_laws_axioms)

end
