(* ===== verification/Address.thy ===== *)
theory Address
  imports Oxenc
begin

text \<open>
  Addresses: \<^verbatim>\<open>oxenmq/address.h\<close> and \<^verbatim>\<open>oxenmq/address.cpp\<close>. The class \<^verbatim>\<open>address\<close> is the record
  \<open>address\<close>, its two enums are datatypes, the constructor that parses a string is
  \<open>parse_address\<close>, and every member function is a definition of its name. A
  \<^verbatim>\<open>string_view\<close> that a function consumes from the front is an argument and, in the result, the
  unconsumed rest. The oxenc library is the argument \<open>oc\<close>.
\<close>

section \<open>Data\<close>

datatype proto = proto_tcp | proto_tcp_curve | proto_ipc | proto_ipc_curve

datatype encoding = enc_hex | enc_base32z | enc_base64 | enc_BASE32Z

record address =
  protocol :: proto
  host :: string
  port :: "16 word"
  socket :: string
  pubkey :: string

definition default_address :: address where
  "default_address = \<lparr>protocol = proto_tcp, host = [], port = 0, socket = [], pubkey = []\<rparr>"

definition addr_curve :: "address \<Rightarrow> bool" where
  "addr_curve a \<longleftrightarrow> protocol a = proto_tcp_curve \<or> protocol a = proto_ipc_curve"

definition addr_tcp :: "address \<Rightarrow> bool" where
  "addr_tcp a \<longleftrightarrow> protocol a = proto_tcp \<or> protocol a = proto_tcp_curve"

definition addr_ipc :: "address \<Rightarrow> bool" where
  "addr_ipc a \<longleftrightarrow> \<not> addr_tcp a"


section \<open>Parsing\<close>

definition enc_length :: "encoding \<Rightarrow> nat" where
  "enc_length enc = (if enc = enc_hex then 64 else if enc = enc_base64 then 43 else 52)"

definition decode_pubkey :: "oxenc \<Rightarrow> string \<Rightarrow> bool \<Rightarrow> (string \<times> string) res" where
  "decode_pubkey oc s qr =
     (if 64 \<le> length s \<and> is_hex oc (take 64 s) then
        Inr (from_hex oc (take 64 s), drop 64 s)
      else if 52 \<le> length s \<and> is_base32z oc (take 52 s) then
        Inr (from_base32z oc (take 52 s), drop 52 s)
      else if \<not> qr \<and> 43 \<le> length s \<and> is_base64 oc (take 43 s) then
        (let rest = drop 43 s
         in Inr (from_base64 oc (take 43 s),
                 if rest \<noteq> [] \<and> hd rest = CHR ''='' then tl rest else rest))
      else Inl (invalid_argument ''No pubkey found''))"

text \<open>
  \<^verbatim>\<open>std::stoi\<close> on a string of digits: an \<^verbatim>\<open>int\<close>, or \<^verbatim>\<open>std::out_of_range\<close> when the value does not
  fit 32 bits. The second component is the number of characters processed.
\<close>

definition stoi :: "string \<Rightarrow> (int \<times> nat) res" where
  "stoi s =
     (let ds = takeWhile is_digit s
      in if ds = [] then Inl (invalid_argument ''stoi'')
         else if from_dec ds < 2 ^ 31 then Inr (int (from_dec ds), length ds)
         else Inl (out_of_range ''stoi''))"

definition ipv6_chars :: string where
  "ipv6_chars = '':.1234567890abcdefABCDEF''"

text \<open>The host part of \<^verbatim>\<open>parse_tcp\<close>: the host and what follows it.\<close>

definition parse_host :: "string \<Rightarrow> bool \<Rightarrow> (string \<times> string) res" where
  "parse_host addr qr =
     (if addr \<noteq> [] \<and> (hd addr = CHR ''['' \<or> (qr \<and> hd addr = CHR ''$'')) then
        (case find_first_not_of ipv6_chars 1 addr of
           None \<Rightarrow> Inl (invalid_argument ''Could not find terminating ] while parsing an IPv6 address'')
         | Some pos \<Rightarrow>
             if \<not> (addr ! pos = CHR '']'' \<or> (qr \<and> addr ! pos = CHR ''$'')) then
               Inl (invalid_argument (''Expected '' @ (if qr then ''$'' else '']'')
                    @ '' to close IPv6 address but found '' @ [addr ! pos]))
             else
               (let h = take (pos + 1) addr;
                    h = (if qr \<and> hd h = CHR ''$'' then h[0 := CHR ''[''] else h);
                    h = (if qr \<and> last h = CHR ''$'' then h[length h - 1 := CHR '']''] else h)
                in Inr (h, drop (pos + 1) addr)))
      else
        (case find_char CHR '':'' addr of
           None \<Rightarrow> Inl (invalid_argument ''Could not determine host (no following ':port' found)'')
         | Some port_pos \<Rightarrow>
             if port_pos = 0 then Inl (invalid_argument ''Host cannot be empty'')
             else Inr (take port_pos addr, drop port_pos addr)))"

text \<open>The port part of \<^verbatim>\<open>parse_tcp\<close>, from the colon on: the port and what follows it.\<close>

definition parse_port :: "string \<Rightarrow> (16 word \<times> string) res" where
  "parse_port addr =
     (if length addr < 2 \<or> addr ! 0 \<noteq> CHR '':'' then
        Inl (invalid_argument ''Could not find :port in address string'')
      else
        (let addr = drop 1 addr; p = find_first_not_of digits 0 addr in
         if p = Some 0 then Inl (invalid_argument ''Could not find numeric port in address string'')
         else
           (let pos = (case p of None \<Rightarrow> length addr | Some i \<Rightarrow> i) in
            bindE (stoi (take pos addr)) (\<lambda>(port_int, processed).
              if port_int = 0 \<or> processed \<noteq> pos then
                Inl (invalid_argument ''Could not parse numeric port in address string'')
              else if port_int < 0 \<or> 65535 < port_int then
                Inl (invalid_argument ''Invalid port: port must be in range 1-65535'')
              else Inr (word_of_int port_int, drop pos addr)))))"

definition parse_tcp ::
    "oxenc \<Rightarrow> string \<Rightarrow> bool \<Rightarrow> bool \<Rightarrow> ((string \<times> 16 word \<times> string) \<times> string) res" where
  "parse_tcp oc addr qr expect_pubkey =
     bindE (parse_host addr qr) (\<lambda>(h, addr).
     let h = (if qr then map lower_char h else h) in
     bindE (parse_port addr) (\<lambda>(p, addr).
     if expect_pubkey then
       (if length addr < 1 + enc_length (if qr then enc_base32z else enc_base64)
            \<or> hd addr \<noteq> CHR ''/'' then
          Inl (invalid_argument ''Invalid address: expected /PUBKEY after port'')
        else
          bindE (decode_pubkey oc (drop 1 addr) qr) (\<lambda>(pk, addr).
          if addr \<noteq> [] then
            Inl (invalid_argument ''Invalid address: found unexpected trailing data after pubkey'')
          else Inr ((h, p, pk), addr)))
     else if addr \<noteq> [] then
       Inl (invalid_argument ''Invalid address: found unexpected trailing data after port'')
     else Inr ((h, p, []), addr)))"

definition parse_unix :: "oxenc \<Rightarrow> string \<Rightarrow> bool \<Rightarrow> ((string \<times> string) \<times> string) res" where
  "parse_unix oc addr expect_pubkey =
     (let n = length addr in
      if expect_pubkey then
        (let b64_len = (if n > 0 \<and> last addr = CHR ''='' then 44 else 43) in
         if n > 64 \<and> addr ! (n - 65) = CHR ''/'' \<and> is_hex oc (drop (n - 64) addr) then
           Inr ((take (n - 65) addr, from_hex oc (drop (n - 64) addr)), [])
         else if n > 52 \<and> addr ! (n - 53) = CHR ''/'' \<and> is_base32z oc (drop (n - 52) addr) then
           Inr ((take (n - 53) addr, from_base32z oc (drop (n - 52) addr)), [])
         else if n > b64_len \<and> addr ! (n - b64_len - 1) = CHR ''/''
             \<and> is_base64 oc (drop (n - b64_len) addr) then
           Inr ((take (n - b64_len - 1) addr, from_base64 oc (drop (n - b64_len) addr)), [])
         else
           Inl (invalid_argument (''icp+curve:// requires a trailing /PUBKEY value, got: '' @ addr)))
      else Inr ((addr, []), []))"

text \<open>The characters the QR-friendly forms allow.\<close>

definition qr_char :: "char \<Rightarrow> bool" where
  "qr_char c \<longleftrightarrow> is_upper c \<or> is_digit c \<or> c = CHR ''$'' \<or> c = CHR '':'' \<or> c = CHR ''/''
     \<or> c = CHR ''.'' \<or> c = CHR ''-''"

definition parse_proto :: "string \<Rightarrow> (proto \<times> bool) res" where
  "parse_proto pro =
     (if pro = ''tcp'' then Inr (proto_tcp, False)
      else if pro = ''tcp+curve'' \<or> pro = ''curve'' then Inr (proto_tcp_curve, False)
      else if pro = ''ipc'' then Inr (proto_ipc, False)
      else if pro = ''ipc+curve'' then Inr (proto_ipc_curve, False)
      else if pro = ''TCP'' then Inr (proto_tcp, True)
      else if pro = ''CURVE'' then Inr (proto_tcp_curve, True)
      else Inl (invalid_argument (''Invalid protocol '' @ [CHR 0x27] @ pro @ [CHR 0x27])))"

definition parse_address :: "oxenc \<Rightarrow> string \<Rightarrow> address res" where
  "parse_address oc addr =
     (case find_str ''://'' addr of
        None \<Rightarrow> Inl (invalid_argument ''Invalid address: no protocol found'')
      | Some protoend \<Rightarrow>
          if protoend = 0 then Inl (invalid_argument ''Invalid address: no protocol found'')
          else
            (let pro = take protoend addr; addr = drop (protoend + 3) addr in
             if addr = [] then Inl (invalid_argument ''Invalid address: no value specified after protocol'')
             else
               bindE (parse_proto pro) (\<lambda>(p, qr).
               if qr \<and> \<not> list_all qr_char addr then
                 Inl (invalid_argument ''Found non-QR-alphanumeric value in QR TCP:// or CURVE:// address'')
               else
                 (let a = default_address\<lparr>protocol := p\<rparr> in
                  bindE
                    (if addr_tcp a
                     then bindE (parse_tcp oc addr qr (addr_curve a)) (\<lambda>((h, pt, pk), addr).
                            Inr (a\<lparr>host := h, port := pt, pubkey := pk\<rparr>, addr))
                     else bindE (parse_unix oc addr (addr_curve a)) (\<lambda>((sk, pk), addr).
                            Inr (a\<lparr>socket := sk, pubkey := pk\<rparr>, addr)))
                    (\<lambda>(a, addr).
                       if addr \<noteq> [] then
                         Inl (invalid_argument (''Invalid trailing garbage '' @ [CHR 0x27] @ addr
                              @ [CHR 0x27] @ '' in address''))
                       else Inr a)))))"


section \<open>Operations\<close>

definition set_pubkey :: "address \<Rightarrow> string \<Rightarrow> address res" where
  "set_pubkey a pk =
     (if length pk = 0 then
        Inr ((if protocol a = proto_tcp_curve then a\<lparr>protocol := proto_tcp\<rparr>
              else if protocol a = proto_ipc_curve then a\<lparr>protocol := proto_ipc\<rparr>
              else a)\<lparr>pubkey := pk\<rparr>)
      else if length pk = 32 then
        Inr ((if protocol a = proto_tcp then a\<lparr>protocol := proto_tcp_curve\<rparr>
              else if protocol a = proto_ipc then a\<lparr>protocol := proto_ipc_curve\<rparr>
              else a)\<lparr>pubkey := pk\<rparr>)
      else Inl (invalid_argument
             ''Invalid pubkey passed to set_pubkey(): require 0- or 32-byte pubkey''))"

text \<open>The two-argument constructor \<^verbatim>\<open>address(addr, pubkey)\<close>.\<close>

definition parse_address_pk :: "oxenc \<Rightarrow> string \<Rightarrow> string \<Rightarrow> address res" where
  "parse_address_pk oc addr pk = bindE (parse_address oc addr) (\<lambda>a. set_pubkey a pk)"

definition encode_pubkey :: "oxenc \<Rightarrow> address \<Rightarrow> encoding \<Rightarrow> string" where
  "encode_pubkey oc a enc =
     (case enc of
        enc_hex \<Rightarrow> to_hex oc (pubkey a)
      | enc_base32z \<Rightarrow> to_base32z oc (pubkey a)
      | enc_BASE32Z \<Rightarrow> map upper_char (to_base32z oc (pubkey a))
      | enc_base64 \<Rightarrow>
          (let pk = to_base64 oc (pubkey a)
           in if length pk = 44 \<and> last pk = CHR ''='' then take 43 pk else pk))"

definition full_address :: "oxenc \<Rightarrow> address \<Rightarrow> encoding \<Rightarrow> string" where
  "full_address oc a enc =
     (let pk = (if addr_curve a then encode_pubkey oc a enc else []) in
      case protocol a of
        proto_tcp \<Rightarrow> ''tcp://'' @ host a @ '':'' @ to_dec (unat (port a))
      | proto_tcp_curve \<Rightarrow> ''curve://'' @ host a @ '':'' @ to_dec (unat (port a)) @ ''/'' @ pk
      | proto_ipc \<Rightarrow> ''ipc://'' @ socket a
      | proto_ipc_curve \<Rightarrow> ''ipc+curve://'' @ socket a @ ''/'' @ pk)"

definition zmq_address :: "address \<Rightarrow> string" where
  "zmq_address a =
     (if addr_tcp a then ''tcp://'' @ host a @ '':'' @ to_dec (unat (port a))
      else ''ipc://'' @ socket a)"

definition qr_address :: "oxenc \<Rightarrow> address \<Rightarrow> string res" where
  "qr_address oc a =
     (if protocol a \<noteq> proto_tcp \<and> protocol a \<noteq> proto_tcp_curve then
        Inl (logic_error ''Cannot construct a QR-friendly address for a non-TCP address'')
      else if host a = [] then
        Inl (logic_error ''Cannot construct a QR-friendly address with an empty TCP host'')
      else
        (let uc_host = map upper_char (host a);
             uc_host = (if hd uc_host = CHR ''['' \<and> last uc_host = CHR '']''
                        then (uc_host[0 := CHR ''$''])[length uc_host - 1 := CHR ''$''] else uc_host)
         in Inr ((if addr_curve a then ''CURVE://'' else ''TCP://'') @ uc_host @ '':''
                 @ to_dec (unat (port a))
                 @ (if addr_curve a then ''/'' @ encode_pubkey oc a enc_BASE32Z else []))))"

definition address_eq :: "address \<Rightarrow> address \<Rightarrow> bool" where
  "address_eq a b \<longleftrightarrow>
     protocol a = protocol b
     \<and> (addr_tcp a \<longrightarrow> host a = host b \<and> port a = port b)
     \<and> (addr_ipc a \<longrightarrow> socket a = socket b)
     \<and> (addr_curve a \<longrightarrow> pubkey a = pubkey b)"

definition mk_tcp :: "string \<Rightarrow> 16 word \<Rightarrow> address" where
  "mk_tcp h p = default_address\<lparr>protocol := proto_tcp, host := h, port := p\<rparr>"

definition mk_tcp_curve :: "string \<Rightarrow> 16 word \<Rightarrow> string \<Rightarrow> address" where
  "mk_tcp_curve h p pk =
     default_address\<lparr>protocol := proto_tcp_curve, host := h, port := p, pubkey := pk\<rparr>"

definition mk_ipc :: "string \<Rightarrow> address" where
  "mk_ipc path = default_address\<lparr>protocol := proto_ipc, socket := path\<rparr>"

definition mk_ipc_curve :: "string \<Rightarrow> string \<Rightarrow> address" where
  "mk_ipc_curve path pk =
     default_address\<lparr>protocol := proto_ipc_curve, socket := path, pubkey := pk\<rparr>"

text \<open>\<^verbatim>\<open>std::hash<address>\<close>, over the standard library's string hash.\<close>

definition address_hash :: "(string \<Rightarrow> 'h) \<Rightarrow> oxenc \<Rightarrow> address \<Rightarrow> 'h" where
  "address_hash string_hash oc a = string_hash (full_address oc a enc_hex)"


section \<open>Well-formed addresses\<close>

definition plain_host :: "string \<Rightarrow> bool" where
  "plain_host h \<longleftrightarrow> h \<noteq> [] \<and> CHR '':'' \<notin> set h \<and> hd h \<noteq> CHR ''[''"

definition ipv6_host :: "string \<Rightarrow> bool" where
  "ipv6_host h \<longleftrightarrow> 2 \<le> length h \<and> hd h = CHR ''['' \<and> last h = CHR '']''
     \<and> set (butlast (tl h)) \<subseteq> set ipv6_chars"

definition wf_address :: "address \<Rightarrow> bool" where
  "wf_address a \<longleftrightarrow>
     (if addr_tcp a then (plain_host (host a) \<or> ipv6_host (host a)) \<and> port a \<noteq> 0 \<and> socket a = []
      else host a = [] \<and> port a = 0 \<and> (socket a \<noteq> [] \<or> addr_curve a))
     \<and> (if addr_curve a then length (pubkey a) = 32 else pubkey a = [])"

lemma ipv6_hostE:
  assumes "ipv6_host h"
  obtains m where "h = CHR ''['' # m @ [CHR '']'']" "set m \<subseteq> set ipv6_chars"
proof -
  from assms obtain x t where "h = x # t" "t \<noteq> []"
    by (cases h; cases "tl h") (auto simp: ipv6_host_def)
  then have "h = CHR ''['' # butlast t @ [CHR '']'']"
    using assms by (simp add: ipv6_host_def) (metis append_butlast_last_id)
  with assms \<open>h = x # t\<close> show thesis
    by (intro that [of "butlast t"]) (auto simp: ipv6_host_def)
qed

lemma ipv6_chars_out [simp]:
  "CHR '']'' \<notin> set ipv6_chars" "CHR ''$'' \<notin> set ipv6_chars" "CHR ''['' \<notin> set ipv6_chars"
  by (simp_all add: ipv6_chars_def)

lemma ipv6_hostI: "set m \<subseteq> set ipv6_chars \<Longrightarrow> ipv6_host (CHR ''['' # m @ [CHR '']''])"
  by (simp add: ipv6_host_def butlast_append)

section \<open>Parsing what was printed\<close>

lemma find_proto:
  "CHR '':'' \<notin> set pro \<Longrightarrow> find_str ''://'' (pro @ ''://'' @ rest) = Some (length pro)"
  by (induction pro) auto

lemma find_proto_cons [str_simps]:
  "find_str ''://'' (''tcp://'' @ r) = Some 3" "find_str ''://'' (''curve://'' @ r) = Some 5"
  "find_str ''://'' (''ipc://'' @ r) = Some 3" "find_str ''://'' (''ipc+curve://'' @ r) = Some 9"
  "find_str ''://'' (''TCP://'' @ r) = Some 3" "find_str ''://'' (''CURVE://'' @ r) = Some 5"
  by simp_all

lemma parse_host_plain:
  assumes "plain_host h" "\<not> (qr \<and> hd h = CHR ''$'')"
  shows "parse_host (h @ CHR '':'' # r) qr = Inr (h, CHR '':'' # r)"
  using assms by (cases h) (auto simp: parse_host_def plain_host_def find_char_append)

lemma parse_host_ipv6:
  assumes "o1 = CHR ''['' \<or> (qr \<and> o1 = CHR ''$'')" "c1 = CHR '']'' \<or> (qr \<and> c1 = CHR ''$'')"
    and "set m \<subseteq> set ipv6_chars"
  shows "parse_host (o1 # m @ c1 # r) qr = Inr (CHR ''['' # m @ [CHR '']''], r)"
proof -
  have "c1 \<notin> set ipv6_chars" using assms(2) by auto
  then have "find_first_not_of ipv6_chars 1 (o1 # m @ c1 # r) = Some (Suc (length m))"
    using assms(3) by (simp add: find_first_not_of_def find_not_of_append)
  with assms(1,2) show ?thesis
    by (auto simp: parse_host_def nth_append Let_def)
qed

lemma stoi_to_dec:
  assumes "n < 2 ^ 31" shows "stoi (to_dec n) = Inr (int n, length (to_dec n))"
proof -
  have tw: "takeWhile is_digit (to_dec n) = to_dec n"
    using to_dec_digits by (simp add: takeWhile_eq_all_conv)
  show ?thesis unfolding stoi_def Let_def tw using assms by simp
qed

lemma parse_port_to_dec:
  assumes "0 < n" "n < 65536" "r = [] \<or> \<not> is_digit (hd r)"
  shows "parse_port (CHR '':'' # to_dec n @ r) = Inr (of_nat n, r)"
proof -
  have nz: "find_not_of digits (to_dec n @ r) = (if r = [] then None else Some (length (to_dec n)))"
    using assms(3) to_dec_digits [of _ n]
    by (cases r) (simp_all add: find_not_of_append find_not_of_None subset_iff)
  have "length (to_dec n) \<noteq> 0" by simp
  with nz show ?thesis
    using assms stoi_to_dec [of n]
    by (auto simp: parse_port_def find_first_not_of_def Let_def option.map_id0 of_nat_of_int_iff)
qed


lemma slash_not_alnum: "\<not> alnum_char (CHR ''/'')"
  by (simp add: is_upper_def is_lower_def is_digit_def)

context oxenc_laws
begin

lemma encode_pubkey_cases:
  assumes "length (pubkey a) = 32"
  obtains (hex) "enc = enc_hex" "length (encode_pubkey oc a enc) = 64"
      "is_hex oc (encode_pubkey oc a enc)" "from_hex oc (encode_pubkey oc a enc) = pubkey a"
    | (b32z) "enc = enc_base32z \<or> enc = enc_BASE32Z" "length (encode_pubkey oc a enc) = 52"
      "is_base32z oc (encode_pubkey oc a enc)" "from_base32z oc (encode_pubkey oc a enc) = pubkey a"
    | (b64) "enc = enc_base64" "length (encode_pubkey oc a enc) = 43"
      "is_base64 oc (encode_pubkey oc a enc)" "from_base64 oc (encode_pubkey oc a enc) = pubkey a"
      "CHR ''='' \<notin> set (encode_pubkey oc a enc)"
proof (cases enc)
  case enc_hex
  then show thesis
    by (intro hex) (simp_all add: encode_pubkey_def hex_length hex_valid hex_inverse assms)
next
  case enc_base32z
  then show thesis
    by (intro b32z) (simp_all add: encode_pubkey_def b32z_length b32z_valid b32z_inverse assms)
next
  case enc_BASE32Z
  then show thesis
    by (intro b32z) (simp_all add: encode_pubkey_def b32z_length b32z_valid b32z_inverse
        b32z_upper_valid b32z_upper_inverse assms)
next
  case enc_base64
  from b64_padded [of "pubkey a"] obtain t where
    "to_base64 oc (pubkey a) = t @ ''=''" "length t = 43" "CHR ''='' \<notin> set t"
    "is_base64 oc t" "from_base64 oc t = pubkey a"
    using assms by auto
  with enc_base64 show thesis by (intro b64) (simp_all add: encode_pubkey_def Let_def)
qed

lemma decode_encoded_pubkey:
  assumes "length (pubkey a) = 32" "qr \<Longrightarrow> enc = enc_BASE32Z"
  shows "decode_pubkey oc (encode_pubkey oc a enc) qr = Inr (pubkey a, [])"
  using assms(1)
  by (cases rule: encode_pubkey_cases [where enc = enc]) (use assms(2) in \<open>auto simp: decode_pubkey_def\<close>)

lemma parse_tcp_printed:
  assumes h: "parse_host (h @ CHR '':'' # to_dec n @ r) qr = Inr (h', CHR '':'' # to_dec n @ r)"
    and n: "0 < n" "n < 65536"
    and r: "if c then r = CHR ''/'' # encode_pubkey oc a enc \<and> length (pubkey a) = 32
        \<and> (qr \<longrightarrow> enc = enc_BASE32Z) else r = []"
  shows "parse_tcp oc (h @ CHR '':'' # to_dec n @ r) qr c
    = Inr ((if qr then map lower_char h' else h', of_nat n, if c then pubkey a else []), [])"
proof -
  have "parse_port (CHR '':'' # to_dec n @ r) = Inr (of_nat n, r)"
    using n r slash_not_alnum by (intro parse_port_to_dec) (auto split: if_splits)
  moreover have "43 \<le> length (encode_pubkey oc a enc)
      \<and> (qr \<longrightarrow> 52 \<le> length (encode_pubkey oc a enc))" if c
  proof -
    have "length (pubkey a) = 32" using r that by simp
    then show ?thesis
      by (cases rule: encode_pubkey_cases [where enc = enc]) (use r that in auto)
  qed
  ultimately show ?thesis
    using h r decode_encoded_pubkey [of a qr enc]
    by (auto simp: parse_tcp_def enc_length_def Let_def)
qed

lemma parse_unix_printed:
  assumes "length (pubkey a) = 32"
  shows "parse_unix oc (s @ CHR ''/'' # encode_pubkey oc a enc) True = Inr ((s, pubkey a), [])"
proof -
  define pk where "pk = encode_pubkey oc a enc"
  define addr where "addr = s @ CHR ''/'' # pk"
  have slash: "CHR ''/'' \<in> set (drop (length addr - k) addr)" if "length pk < k" for k
  proof -
    have "length addr - k \<le> length s" using that by (simp add: addr_def)
    then show ?thesis by (simp add: addr_def)
  qed
  have nohex: "\<not> is_hex oc (drop (length addr - 64) addr)" if "length pk < 64"
    using slash [OF that] hex_alnum slash_not_alnum by blast
  have nob32: "\<not> is_base32z oc (drop (length addr - 52) addr)" if "length pk < 52"
    using slash [OF that] b32z_alnum slash_not_alnum by blast
  have n: "length addr = length s + Suc (length pk)" by (simp add: addr_def)
  have dr: "drop (Suc (length s)) addr = pk" "take (length s) addr = s" "addr ! length s = CHR ''/''"
    by (simp_all add: addr_def)
  have "parse_unix oc addr True = Inr ((s, pubkey a), [])"
    using assms
  proof (cases rule: encode_pubkey_cases [where enc = enc])
    case hex
    note pk = hex [folded pk_def]
    show ?thesis by (simp add: parse_unix_def Let_def n dr pk)
  next
    case b32z
    note pk = b32z [folded pk_def]
    show ?thesis using nohex by (simp add: parse_unix_def Let_def n dr pk)
  next
    case b64
    note pk = b64 [folded pk_def]
    have "last addr \<noteq> CHR ''=''" using pk by (cases pk rule: rev_cases) (auto simp: addr_def)
    then show ?thesis using nohex nob32 by (simp add: parse_unix_def Let_def n dr pk)
  qed
  then show ?thesis by (simp add: addr_def pk_def)
qed

end

lemma upper_char_upper: "is_lower c \<Longrightarrow> is_upper (upper_char c)"
  using of_upper_char [of c] by (auto simp: is_lower_def is_upper_def)

lemma lower_char_lower: "is_upper c \<Longrightarrow> is_lower (lower_char c)"
  using of_lower_char [of c] by (auto simp: is_lower_def is_upper_def)

lemma upper_char_other:
  "\<not> is_upper d \<Longrightarrow> \<not> is_lower d \<Longrightarrow> upper_char c = d \<longleftrightarrow> c = d"
  by (cases "is_lower c") (auto dest: upper_char_upper)

lemma lower_char_other:
  "\<not> is_upper d \<Longrightarrow> \<not> is_lower d \<Longrightarrow> lower_char c = d \<longleftrightarrow> c = d"
  by (cases "is_upper c") (auto dest: lower_char_lower)

lemma not_letter [simp]:
  "\<not> is_upper CHR '':''" "\<not> is_lower CHR '':''" "\<not> is_upper CHR ''[''" "\<not> is_lower CHR ''[''"
  "\<not> is_upper CHR '']''" "\<not> is_lower CHR '']''" "\<not> is_upper CHR ''$''" "\<not> is_lower CHR ''$''"
  by (simp_all add: is_upper_def is_lower_def)

lemmas case_other = upper_char_other lower_char_other

lemma case_in_set:
  assumes "\<not> is_upper d" "\<not> is_lower d"
  shows "d \<in> set (map upper_char s) \<longleftrightarrow> d \<in> set s" "d \<in> set (map lower_char s) \<longleftrightarrow> d \<in> set s"
  by (induction s) (auto simp: eq_commute [of d] upper_char_other [OF assms] lower_char_other [OF assms])

lemma ipv6_char_case:
  "c \<in> set ipv6_chars \<Longrightarrow> upper_char c \<in> set ipv6_chars \<and> lower_char c \<in> set ipv6_chars
     \<and> qr_char (upper_char c)"
proof -
  have "list_all (\<lambda>c. upper_char c \<in> set ipv6_chars \<and> lower_char c \<in> set ipv6_chars
     \<and> qr_char (upper_char c)) ipv6_chars"
    by code_simp
  then show "c \<in> set ipv6_chars \<Longrightarrow> ?thesis" by (simp add: list_all_iff)
qed

lemma unat16: "unat (p :: 16 word) < 65536"
  using unsigned_less [of p, where 'a = nat] by simp

definition qr_host :: "string \<Rightarrow> bool" where
  "qr_host h \<longleftrightarrow> (plain_host h \<and> hd h \<noteq> CHR ''$'' \<and> list_all (\<lambda>c. qr_char (upper_char c)) h) \<or> ipv6_host h"

lemma qr_char_digit: "is_digit c \<Longrightarrow> qr_char c"
  by (simp add: qr_char_def)

lemma qr_char_alnum: "alnum_char c \<Longrightarrow> qr_char (upper_char c)"
  using upper_char_upper [of c] by (cases "is_lower c") (auto simp: qr_char_def)

text \<open>The host as \<open>qr_address\<close> prints it.\<close>

definition qr_host_string :: "string \<Rightarrow> string" where
  "qr_host_string h =
     (let uc = map upper_char h
      in if hd uc = CHR ''['' \<and> last uc = CHR '']''
         then (uc[0 := CHR ''$''])[length uc - 1 := CHR ''$''] else uc)"

lemma qr_host_string_ipv6:
  "qr_host_string (CHR ''['' # m @ [CHR '']'']) = CHR ''$'' # map upper_char m @ [CHR ''$'']"
  by (simp add: qr_host_string_def Let_def list_update_append)

lemma qr_host_string_plain: "plain_host h \<Longrightarrow> qr_host_string h = map upper_char h"
  by (cases h) (auto simp: qr_host_string_def plain_host_def Let_def upper_char_other)

lemma qr_host_string_chars: "qr_host h \<Longrightarrow> list_all qr_char (qr_host_string h)"
proof (cases "ipv6_host h")
  case True
  then show ?thesis
    by (auto elim!: ipv6_hostE simp: qr_host_string_ipv6 list_all_iff ipv6_char_case subset_iff)
      (simp_all add: qr_char_def)
next
  case False
  then show "qr_host h \<Longrightarrow> ?thesis"
    by (auto simp: qr_host_def qr_host_string_plain list_all_iff)
qed

lemma parse_host_qr:
  assumes "qr_host h"
  obtains h' where "parse_host (qr_host_string h @ CHR '':'' # r) True = Inr (h', CHR '':'' # r)"
    "map lower_char h' = map lower_char h"
proof (cases "ipv6_host h")
  case True
  then obtain m where m: "h = CHR ''['' # m @ [CHR '']'']" "set m \<subseteq> set ipv6_chars"
    by (rule ipv6_hostE)
  then have "parse_host (CHR ''$'' # map upper_char m @ CHR ''$'' # CHR '':'' # r) True
      = Inr (CHR ''['' # map upper_char m @ [CHR '']''], CHR '':'' # r)"
    by (intro parse_host_ipv6) (auto simp: ipv6_char_case subset_iff)
  with m show thesis
    by (intro that) (auto simp: qr_host_string_ipv6 comp_def lower_upper_valid)
next
  case False
  with assms have h: "plain_host h" "hd h \<noteq> CHR ''$''" by (simp_all add: qr_host_def)
  then have "plain_host (map upper_char h)" "hd (map upper_char h) \<noteq> CHR ''$''"
    unfolding plain_host_def using case_in_set(1) [of "CHR '':''" h]
    by (auto simp: hd_map upper_char_other)
  then show thesis
    by (intro that [of "map upper_char h"])
      (simp_all add: qr_host_string_plain h parse_host_plain comp_def lower_upper_valid)
qed

context oxenc_laws
begin

lemma parse_host_printed:
  assumes "plain_host h \<or> ipv6_host h"
  shows "parse_host (h @ CHR '':'' # r) False = Inr (h, CHR '':'' # r)"
  using assms
proof
  assume "ipv6_host h"
  then show ?thesis by (auto elim!: ipv6_hostE simp: parse_host_ipv6 [of _ False])
qed (simp add: parse_host_plain)

lemma parse_full_address:
  assumes "wf_address a"
  shows "parse_address oc (full_address oc a enc) = Inr a"
proof -
  have port: "0 < unat (port a) \<and> unat (port a) < 65536" if "port a \<noteq> 0"
    using that unat16 by (simp add: unat_gt_0)
  note defs = parse_address_def full_address_def find_proto_cons parse_proto_def Let_def
    default_address_def addr_curve_def addr_tcp_def
  show ?thesis
  proof (cases "protocol a")
    case proto_tcp
    then show ?thesis
      using assms port parse_host_printed [of "host a"] parse_tcp_printed [where h = "host a" and h' = "host a"
          and n = "unat (port a)" and r = "[]" and qr = False and c = False]
      by (simp add: wf_address_def defs)
  next
    case proto_tcp_curve
    then show ?thesis
      using assms port parse_host_printed [of "host a"] parse_tcp_printed [where h = "host a" and h' = "host a"
          and n = "unat (port a)" and r = "CHR ''/'' # encode_pubkey oc a enc" and qr = False
          and c = True and a = a and enc = enc]
      by (simp add: wf_address_def defs)
  next
    case proto_ipc
    then show ?thesis using assms by (simp add: wf_address_def defs parse_unix_def)
  next
    case proto_ipc_curve
    then show ?thesis using assms parse_unix_printed [of a "socket a" enc]
      by (simp add: wf_address_def defs)
  qed
qed


lemma qr_pubkey_chars: "list_all qr_char (encode_pubkey oc a enc_BASE32Z)"
proof -
  have "alnum_char c" if "c \<in> set (to_base32z oc (pubkey a))" for c
    using b32z_valid b32z_alnum that by blast
  then show ?thesis by (auto simp: encode_pubkey_def list_all_iff intro!: qr_char_alnum)
qed

lemma parse_qr_address:
  assumes "wf_address a" "addr_tcp a" "qr_host (host a)"
  shows "\<exists>s. qr_address oc a = Inr s \<and> list_all qr_char s
    \<and> parse_address oc s = Inr (a\<lparr>host := map lower_char (host a)\<rparr>)"
proof -
  define n where "n = unat (port a)"
  define r where "r = (if addr_curve a then CHR ''/'' # encode_pubkey oc a enc_BASE32Z else [])"
  define s where "s = qr_host_string (host a) @ CHR '':'' # to_dec n @ r"
  obtain h' where h': "parse_host s True = Inr (h', CHR '':'' # to_dec n @ r)"
    "map lower_char h' = map lower_char (host a)"
    using parse_host_qr [OF assms(3), of "to_dec n @ r"] unfolding s_def by blast
  have n: "0 < n" "n < 65536" "of_nat n = port a"
    using assms unat16 by (simp_all add: n_def wf_address_def unat_gt_0)
  have tcp: "parse_tcp oc s True (addr_curve a) = Inr ((map lower_char (host a), port a, pubkey a), [])"
    using parse_tcp_printed [OF h'(1) [unfolded s_def] n(1,2), of "addr_curve a" a enc_BASE32Z] assms(1)
    by (simp add: r_def n(3) h'(2) wf_address_def s_def split: if_splits)
  have qr: "list_all qr_char s"
    using qr_host_string_chars [OF assms(3)] qr_pubkey_chars
    by (auto simp: s_def r_def list_all_iff to_dec_digits qr_char_digit) (simp_all add: qr_char_def)
  have ne: "host a \<noteq> []"
    using assms(3) by (auto simp: qr_host_def plain_host_def ipv6_host_def)
  have "qr_address oc a = Inr ((if addr_curve a then ''CURVE://'' else ''TCP://'') @ s)"
    using assms(2) ne by (simp add: qr_address_def addr_tcp_def s_def r_def n_def qr_host_string_def Let_def)
  moreover have "parse_address oc ((if addr_curve a then ''CURVE://'' else ''TCP://'') @ s)
      = Inr (a\<lparr>host := map lower_char (host a)\<rparr>)"
    using tcp qr assms(1,2)
    by (cases "protocol a") (simp_all add: parse_address_def find_proto_cons parse_proto_def
        default_address_def addr_curve_def addr_tcp_def Let_def wf_address_def s_def)
  moreover have "list_all qr_char ((if addr_curve a then ''CURVE://'' else ''TCP://'') @ s)"
    using qr by (simp add: qr_char_def is_upper_def)
  ultimately show ?thesis by blast
qed

end

section \<open>What the parser accepts\<close>

lemma parse_host_wf:
  assumes "parse_host addr qr = Inr (h, r)"
  shows "plain_host h \<or> ipv6_host h"
proof (cases "addr \<noteq> [] \<and> (hd addr = CHR ''['' \<or> (qr \<and> hd addr = CHR ''$''))")
  case True
  then obtain c t where addr: "addr = c # t" and c: "c = CHR ''['' \<or> (qr \<and> c = CHR ''$'')"
    by (cases addr) auto
  from assms True obtain i where i: "find_not_of ipv6_chars t = Some i"
    and e: "t ! i = CHR '']'' \<or> (qr \<and> t ! i = CHR ''$'')"
    by (auto simp: parse_host_def find_first_not_of_def addr split: option.splits if_splits)
  have "t = take i t @ t ! i # drop (Suc i) t" "set (take i t) \<subseteq> set ipv6_chars"
    using find_not_of_Some [OF i] by (simp_all add: id_take_nth_drop)
  then have "parse_host addr qr = Inr (CHR ''['' # take i t @ [CHR '']''], drop (Suc i) t)"
    using parse_host_ipv6 [OF c e, of "take i t" "drop (Suc i) t"] addr by simp
  with assms show ?thesis
    using ipv6_hostI [OF \<open>set (take i t) \<subseteq> set ipv6_chars\<close>] by auto
next
  case False
  with assms obtain i where i: "find_char CHR '':'' addr = Some i" "i \<noteq> 0" "h = take i addr"
    by (auto simp: parse_host_def split: option.splits if_splits)
  with find_char_Some [OF i(1)] False show ?thesis
    by (cases addr; cases i) (auto simp: plain_host_def)
qed

lemma plain_host_lower: "plain_host h \<Longrightarrow> plain_host (map lower_char h)"
  unfolding plain_host_def using case_in_set(2) [of "CHR '':''" h]
  by (auto simp: hd_map lower_char_other)

lemma ipv6_host_lower: "ipv6_host h \<Longrightarrow> ipv6_host (map lower_char h)"
  by (erule ipv6_hostE) (auto intro!: ipv6_hostI simp: ipv6_char_case subset_iff)

lemma parse_port_nonzero:
  assumes "parse_port addr = Inr (p, r)"
  shows "p \<noteq> 0"
proof -
  from assms obtain i :: int where "p = word_of_int i" "0 < i" "i \<le> 65535"
    by (auto simp: parse_port_def Let_def bindE_Inr_iff split: if_splits option.splits)
  then show ?thesis by (simp add: word_of_int_eq_0_iff) (simp add: zdvd_not_zless)
qed

lemma parse_addressE:
  assumes "parse_address oc s = Inr a"
  obtains (tcp) p qr addr h pt pk where "addr_tcp (default_address\<lparr>protocol := p\<rparr>)"
      "parse_tcp oc addr qr (addr_curve (default_address\<lparr>protocol := p\<rparr>)) = Inr ((h, pt, pk), [])"
      "a = default_address\<lparr>protocol := p, host := h, port := pt, pubkey := pk\<rparr>"
    | (ipc) p addr sk pk where "addr_ipc (default_address\<lparr>protocol := p\<rparr>)" "addr \<noteq> []"
      "parse_unix oc addr (addr_curve (default_address\<lparr>protocol := p\<rparr>)) = Inr ((sk, pk), [])"
      "a = default_address\<lparr>protocol := p, socket := sk, pubkey := pk\<rparr>"
proof -
  obtain i where i: "find_str ''://'' s = Some i" "i \<noteq> 0" "drop (i + 3) s \<noteq> []"
    using assms by (auto simp: parse_address_def Let_def split: option.splits if_splits)
  obtain p qr where p: "parse_proto (take i s) = Inr (p, qr)"
    using assms i by (cases "parse_proto (take i s)") (auto simp: parse_address_def Let_def)
  let ?a = "default_address\<lparr>protocol := p\<rparr>" and ?addr = "drop (i + 3) s"
  show thesis
  proof (cases "addr_tcp ?a")
    case True
    then obtain h pt pk where "parse_tcp oc ?addr qr (addr_curve ?a) = Inr ((h, pt, pk), [])"
      "a = ?a\<lparr>host := h, port := pt, pubkey := pk\<rparr>"
      using assms i p by (cases "parse_tcp oc ?addr qr (addr_curve ?a)")
        (auto simp: parse_address_def Let_def split: if_splits)
    with True show thesis by (rule tcp)
  next
    case False
    then obtain sk pk where "parse_unix oc ?addr (addr_curve ?a) = Inr ((sk, pk), [])"
      "a = ?a\<lparr>socket := sk, pubkey := pk\<rparr>"
      using assms i p by (cases "parse_unix oc ?addr (addr_curve ?a)")
        (auto simp: parse_address_def Let_def split: if_splits)
    with False i(3) show thesis by (intro ipc) (simp_all add: addr_ipc_def)
  qed
qed

context oxenc_laws
begin

lemma decode_pubkey_length: "decode_pubkey oc s qr = Inr (pk, r) \<Longrightarrow> length pk = 32"
  by (auto simp: decode_pubkey_def Let_def hex_decoded b32z_decoded b64_decoded split: if_splits)

lemma parse_unix_length:
  assumes "parse_unix oc s True = Inr ((sk, pk), r)" "length pk \<noteq> 31"
  shows "length pk = 32"
  using assms
  by (cases "s = []") (auto simp: parse_unix_def Let_def hex_decoded b32z_decoded b64_decoded
      dest: b64_decoded_padded split: if_splits)

lemma parse_address_wf:
  assumes "parse_address oc s = Inr a" "length (pubkey a) \<noteq> 31"
  shows "wf_address a"
  using assms(1)
proof (rule parse_addressE)
  fix p qr addr h pt pk
  let ?a = "default_address\<lparr>protocol := p\<rparr>"
  assume tcp: "addr_tcp ?a" "parse_tcp oc addr qr (addr_curve ?a) = Inr ((h, pt, pk), [])"
    "a = ?a\<lparr>host := h, port := pt, pubkey := pk\<rparr>"
  from tcp(2) obtain h' r1 r2 where "parse_host addr qr = Inr (h', r1)" "parse_port r1 = Inr (pt, r2)"
    "h = (if qr then map lower_char h' else h')"
    "if addr_curve ?a then \<exists>r3. decode_pubkey oc (drop 1 r2) qr = Inr (pk, r3) else pk = []"
    by (auto simp: parse_tcp_def Let_def bindE_Inr_iff split: if_splits)
  then show ?thesis
    using tcp(1) parse_host_wf [of addr qr h' r1] parse_port_nonzero [of r1 pt r2] decode_pubkey_length
      plain_host_lower ipv6_host_lower
    by (auto simp: tcp(3) wf_address_def addr_tcp_def addr_curve_def default_address_def split: if_splits)
next
  fix p addr sk pk
  let ?a = "default_address\<lparr>protocol := p\<rparr>"
  assume "addr_ipc ?a" "addr \<noteq> []" "parse_unix oc addr (addr_curve ?a) = Inr ((sk, pk), [])"
    "a = ?a\<lparr>socket := sk, pubkey := pk\<rparr>"
  with assms(2) show ?thesis
    using parse_unix_length [of addr sk pk "[]"]
    by (cases "addr_curve ?a") (auto simp: wf_address_def addr_ipc_def addr_tcp_def addr_curve_def
        default_address_def parse_unix_def)
qed

end

section \<open>Equality and hashing\<close>

lemma address_eq_full:
  "address_eq a b \<Longrightarrow> full_address oc a enc = full_address oc b enc"
  by (cases "protocol a"; cases enc)
    (auto simp: address_eq_def full_address_def encode_pubkey_def addr_curve_def addr_tcp_def addr_ipc_def)

section \<open>Properties\<close>

lemmas parse_eval = parse_address_def parse_proto_def parse_tcp_def parse_host_def parse_port_def
  parse_unix_def find_first_not_of_def ipv6_chars_def stoi_def from_dec_def digit_val_def
  is_digit_def is_upper_def is_lower_def qr_char_def lower_char_def default_address_def
  addr_tcp_def addr_curve_def Let_def

lemma parse_unix_padded:
  assumes "oxenc_laws oc" "length k = 31"
  shows "parse_unix oc (sk @ CHR ''/'' # to_base64 oc k) True = Inr ((sk, k), [])"
proof -
  obtain t where "to_base64 oc k = t @ replicate 2 CHR ''=''" and t2: "length t = 42"
    using oxenc_laws.b64_padded [OF assms(1), of k] assms(2) by auto
  then have t: "to_base64 oc k = t @ ''==''" by (simp add: numeral_2_eq_2)
  define addr where "addr = sk @ CHR ''/'' # t @ ''==''"
  have n: "length addr = length sk + 45" "addr ! length sk = CHR ''/''" "last addr = CHR ''=''"
    "take (length sk) addr = sk" "drop (Suc (length sk)) addr = t @ ''==''"
    using t t2 by (simp_all add: addr_def)
  have eq: "CHR ''='' \<in> set (drop (length addr - i) addr)" if "0 < i" for i
  proof -
    have lt: "length addr - i < length addr" using that n(1) by simp
    then have "drop (length addr - i) addr \<noteq> []" by simp
    then have "last (drop (length addr - i) addr) \<in> set (drop (length addr - i) addr)"
      by (rule last_in_set)
    then show ?thesis unfolding last_drop [OF lt] n(3) .
  qed
  have na: "\<not> alnum_char CHR ''=''" by (simp add: is_upper_def is_lower_def is_digit_def)
  have no1: "\<not> is_hex oc (drop (length addr - 64) addr)"
    by (rule notI, rule notE [OF na], erule oxenc_laws.hex_alnum [OF assms(1)], rule eq, simp)
  have no2: "\<not> is_base32z oc (drop (length addr - 52) addr)"
    by (rule notI, rule notE [OF na], erule oxenc_laws.b32z_alnum [OF assms(1)], rule eq, simp)
  have "parse_unix oc addr True = Inr ((sk, k), [])"
    using no1 no2 n oxenc_laws.b64_valid [OF assms(1), of k] oxenc_laws.b64_inverse [OF assms(1), of k]
    by (simp add: parse_unix_def Let_def t)
  then show ?thesis by (simp add: addr_def t)
qed

lemma parse_port_beyond:
  assumes "65535 < n"
  shows "parse_port (CHR '':'' # to_dec n) = (if n < 2 ^ 31
    then Inl (invalid_argument ''Invalid port: port must be in range 1-65535'') else Inl (out_of_range ''stoi''))"
proof -
  have tw: "takeWhile is_digit (to_dec n) = to_dec n" "find_not_of digits (to_dec n) = None"
    using to_dec_digits by (auto simp: takeWhile_eq_all_conv find_not_of_None)
  have "stoi (to_dec n) = (if n < 2 ^ 31 then Inr (int n, length (to_dec n)) else Inl (out_of_range ''stoi''))"
    unfolding stoi_def Let_def tw by simp
  moreover have "length (to_dec n) \<noteq> 0" by simp
  ultimately show ?thesis using assms tw(2) by (auto simp: parse_port_def find_first_not_of_def Let_def)
qed

text \<open>C27: printing then parsing is the identity. For every well-formed address and every pubkey
  encoding the constructor \<^verbatim>\<open>address(std::string_view)\<close> applied to \<^verbatim>\<open>full_address(enc)\<close> returns the
  address itself, whatever implementation of the oxenc codecs meets the codec laws.\<close>

theorem address_roundtrip:
  assumes "oxenc_laws oc" "wf_address a"
  shows "parse_address oc (full_address oc a enc) = Inr a"
  by (rule oxenc_laws.parse_full_address [OF assms])

theorem address_roundtrip_witness:
  "let a = mk_tcp_curve ''[::1]'' 22020 (replicate 32 CHR ''x'')
   in wf_address a \<and> parse_address oxenc_ref (full_address oxenc_ref a enc_base64) = Inr a"
proof -
  have "wf_address (mk_tcp_curve ''[::1]'' 22020 (replicate 32 CHR ''x''))"
    by (simp add: wf_address_def mk_tcp_curve_def default_address_def addr_tcp_def addr_curve_def
        ipv6_host_def ipv6_chars_def)
  from this address_roundtrip [OF oxenc_ref_laws this] show ?thesis
    unfolding Let_def by (rule conjI)
qed



text \<open>C29: whatever string the constructor accepts, the resulting address is well formed: a
  bracketed IPv6 host or a host without a colon, a non-zero port, a pubkey of 32 bytes exactly when
  the protocol is a curve one. The one exception is a 31-byte pubkey.\<close>

theorem parse_address_type:
  assumes "oxenc_laws oc" "parse_address oc s = Inr a" "length (pubkey a) \<noteq> 31"
  shows "wf_address a"
  by (rule oxenc_laws.parse_address_wf [OF assms])

theorem parse_address_type_witness:
  "\<exists>a. parse_address oxenc_ref ''TCP://$FE80::1$:65535'' = Inr a \<and> length (pubkey a) \<noteq> 31
     \<and> wf_address a \<and> host a = ''[fe80::1]''"
proof -
  let ?a = "mk_tcp ''[fe80::1]'' 65535"
  have p: "parse_address oxenc_ref ''TCP://$FE80::1$:65535'' = Inr ?a"
    by (simp add: parse_eval mk_tcp_def) code_simp
  have l: "length (pubkey ?a) \<noteq> 31" and h: "host ?a = ''[fe80::1]''"
    by (simp_all add: mk_tcp_def default_address_def)
  show ?thesis
    by (rule exI [of _ ?a], rule conjI [OF p conjI [OF l conjI [OF parse_address_type [OF oxenc_ref_laws p l] h]]])
qed

text \<open>C40: the exception of the previous property is real. An \<^verbatim>\<open>ipc+curve\<close> address whose pubkey is
  the padded base64 form of any 31 bytes is accepted, and the address holds the 31-byte pubkey,
  which \<^verbatim>\<open>set_pubkey\<close> would refuse.\<close>

theorem parse_unix_short_pubkey:
  assumes "oxenc_laws oc" "length k = 31"
  shows "parse_address oc (''ipc+curve://'' @ sk @ ''/'' @ to_base64 oc k)
      = Inr (mk_ipc_curve sk k)
    \<and> set_pubkey (mk_ipc_curve sk k) k = Inl (invalid_argument
         ''Invalid pubkey passed to set_pubkey(): require 0- or 32-byte pubkey'')"
  using parse_unix_padded [OF assms] assms(2)
  by (simp add: parse_address_def find_proto_cons parse_proto_def Let_def default_address_def
      addr_tcp_def addr_curve_def mk_ipc_curve_def set_pubkey_def)

theorem parse_unix_short_pubkey_witness:
  "parse_address oxenc_ref (''ipc+curve://'' @ ''s'' @ ''/'' @ to_base64 oxenc_ref (replicate 31 CHR ''x''))
     = Inr (mk_ipc_curve ''s'' (replicate 31 CHR ''x''))"
  by (rule conjunct1 [OF parse_unix_short_pubkey [OF oxenc_ref_laws length_replicate]])

text \<open>The port of a TCP address. Followed by nothing, a decimal number after the colon is the
  port when it is in 1 to 65535, is refused with \<^verbatim>\<open>std::invalid_argument\<close> when it is 0 or larger, and
  ends in the \<^verbatim>\<open>std::out_of_range\<close> of \<^verbatim>\<open>std::stoi\<close> from 2147483648 on.\<close>

theorem parse_port_range:
  "parse_port (CHR '':'' # to_dec n) =
     (if n = 0 then Inl (invalid_argument ''Could not parse numeric port in address string'')
      else if n \<le> 65535 then Inr (of_nat n, [])
      else if n < 2147483648 then Inl (invalid_argument ''Invalid port: port must be in range 1-65535'')
      else Inl (out_of_range ''stoi''))"
proof -
  have "to_dec 0 = ''0''" by (subst to_dec.simps) (simp add: digit_char_def, code_simp)
  then have z: "parse_port (CHR '':'' # to_dec 0)
      = Inl (invalid_argument ''Could not parse numeric port in address string'')"
    by (simp add: parse_eval)
  consider "n = 0" | "0 < n" "n < 65536" | "65535 < n" by linarith
  then show ?thesis
  proof cases
    case 2
    with parse_port_to_dec [of n "[]"] show ?thesis by simp
  next
    case 3
    then show ?thesis unfolding parse_port_beyond [OF 3] by simp
  qed (simp add: z)
qed

text \<open>Equality and hashing agree. Addresses that \<^verbatim>\<open>operator==\<close> identifies have the same hash,
  and on well-formed addresses \<^verbatim>\<open>operator==\<close> is equality of the printed forms in every encoding.\<close>

theorem address_eq_hash:
  assumes "oxenc_laws oc"
  shows "(address_eq a b \<longrightarrow> address_hash string_hash oc a = address_hash string_hash oc b)
    \<and> (wf_address a \<and> wf_address b \<longrightarrow>
        (address_eq a b \<longleftrightarrow> full_address oc a enc = full_address oc b enc))"
proof -
  have "address_eq a b" if "wf_address a" "wf_address b" "full_address oc a enc = full_address oc b enc"
  proof -
    have "Inr a = parse_address oc (full_address oc a enc)"
      by (rule oxenc_laws.parse_full_address [OF assms that(1), symmetric])
    also have "\<dots> = Inr b"
      unfolding that(3) by (rule oxenc_laws.parse_full_address [OF assms that(2)])
    finally show ?thesis by (simp add: address_eq_def)
  qed
  then show ?thesis using address_eq_full by (auto simp: address_hash_def)
qed

text \<open>\<^verbatim>\<open>set_pubkey\<close> accepts exactly the empty and the 32-byte strings; it switches between the
  curve and the plain protocol so that the address is a curve one exactly when it has a pubkey, and it
  changes neither where the address points to nor (for a non-empty socket path) its well-formedness.\<close>

theorem set_pubkey_consistent:
  "(case set_pubkey a pk of
      Inl e \<Rightarrow> length pk \<noteq> 0 \<and> length pk \<noteq> 32
    | Inr b \<Rightarrow> (length pk = 0 \<or> length pk = 32) \<and> pubkey b = pk
        \<and> (addr_curve b \<longleftrightarrow> pk \<noteq> []) \<and> (addr_tcp b \<longleftrightarrow> addr_tcp a) \<and> zmq_address b = zmq_address a
        \<and> (wf_address a \<and> (addr_tcp a \<or> socket a \<noteq> []) \<longrightarrow> wf_address b))"
  by (cases "protocol a"; cases pk)
    (simp_all add: set_pubkey_def addr_curve_def addr_tcp_def zmq_address_def wf_address_def)

end
