(* ===== verification/Auth.thy ===== *)
theory Auth
  imports Oxenc
begin

text \<open>
  Authentication levels and the ZAP handler: \<^verbatim>\<open>oxenmq/auth.h\<close>, the free functions of
  \<^verbatim>\<open>oxenmq/auth.cpp\<close>, \<^verbatim>\<open>extract_metadata\<close> of \<^verbatim>\<open>oxenmq/oxenmq.cpp\<close> and \<^verbatim>\<open>process_zap_requests\<close>.
  The enum \<^verbatim>\<open>AuthLevel\<close> has the underlying type \<^verbatim>\<open>int\<close>, so a level is an integer under a
  constructor, with the four enumerators as definitions. The callback \<^verbatim>\<open>AllowFunc\<close> of a listener is a
  HOL function in the record of the listener, and the number that the oxenc library decodes from the
  ZAP domain is the argument \<open>bt_size\<close>.
\<close>

section \<open>Levels\<close>

datatype auth_level = AuthLevel (auth_val: int)

instantiation auth_level :: linorder
begin

definition less_eq_auth_level :: "auth_level \<Rightarrow> auth_level \<Rightarrow> bool" where
  "less_eq_auth_level a b \<longleftrightarrow> auth_val a \<le> auth_val b"

definition less_auth_level :: "auth_level \<Rightarrow> auth_level \<Rightarrow> bool" where
  "less_auth_level a b \<longleftrightarrow> auth_val a < auth_val b"

instance
  by standard (auto simp: less_eq_auth_level_def less_auth_level_def auth_level.expand)

end

definition auth_denied :: auth_level where "auth_denied = AuthLevel 0"
definition auth_none :: auth_level where "auth_none = AuthLevel 1"
definition auth_basic :: auth_level where "auth_basic = AuthLevel 2"
definition auth_admin :: auth_level where "auth_admin = AuthLevel 3"

lemmas auth_levels = auth_denied_def auth_none_def auth_basic_def auth_admin_def

text \<open>The default arguments of the constructor of \<^verbatim>\<open>Access\<close> are \<open>default_access\<close>.\<close>

record access =
  auth :: auth_level
  remote_sn :: bool
  local_sn :: bool

definition default_access :: access where
  "default_access = \<lparr>auth = auth_none, remote_sn = False, local_sn = False\<rparr>"

definition auth_to_string :: "auth_level \<Rightarrow> string" where
  "auth_to_string a =
     (if a = auth_denied then ''denied'' else if a = auth_none then ''none''
      else if a = auth_basic then ''basic'' else if a = auth_admin then ''admin''
      else ''(unknown)'')"

definition auth_from_string :: "string \<Rightarrow> auth_level" where
  "auth_from_string a =
     (if a = ''none'' then auth_none else if a = ''basic'' then auth_basic
      else if a = ''admin'' then auth_admin else auth_denied)"

text \<open>
  \<^verbatim>\<open>already_hashed\<close>: the first eight bytes of the string, read as a little-endian \<^verbatim>\<open>size_t\<close>, or the
  standard library's hash of a shorter string.
\<close>

definition le_bytes :: "string \<Rightarrow> nat" where
  "le_bytes s = foldr (\<lambda>c a. of_char c + 256 * a) s 0"

definition already_hashed :: "(string \<Rightarrow> nat) \<Rightarrow> string \<Rightarrow> nat" where
  "already_hashed string_hash s = (if length s < 8 then string_hash s else le_bytes (take 8 s))"


section \<open>Metadata\<close>

text \<open>
  A size octet, the key, the length of the value as four bytes in network order, the value. The shift
  of the length and the cast to \<^verbatim>\<open>char\<close> keep the low byte.
\<close>

definition network_u32 :: "nat \<Rightarrow> string" where
  "network_u32 n = map (\<lambda>i. char_of (n div 2 ^ i mod 256)) [24, 16, 8, 0]"

definition zmtp_metadata :: "string \<Rightarrow> string \<Rightarrow> string" where
  "zmtp_metadata key value =
     [char_of (length key mod 256)] @ key @ network_u32 (length value) @ value"

text \<open>
  The properties of a received message, by name: \<^verbatim>\<open>zmq::message_t::gets\<close> throws for a name that is
  not there.
\<close>

type_synonym msg_props = "string \<Rightarrow> string option"

definition extract_metadata :: "oxenc \<Rightarrow> msg_props \<Rightarrow> string \<times> auth_level" where
  "extract_metadata oc props =
     ((case props ''User-Id'' of
         None \<Rightarrow> []
       | Some pubkey_hex \<Rightarrow> if length pubkey_hex \<noteq> 64 then [] else from_hex oc pubkey_hex),
      (case props ''X-AuthLevel'' of None \<Rightarrow> auth_none | Some l \<Rightarrow> auth_from_string l))"


section \<open>ZAP\<close>

text \<open>
  A listener: \<^verbatim>\<open>bind_data\<close>. The callback \<^verbatim>\<open>on_bind\<close> is an opaque number, \<open>None\<close> when it is empty.
\<close>

record bind_data =
  bd_address :: string
  bd_curve :: bool
  bd_conn_id :: int
  bd_allow :: "string \<Rightarrow> string \<Rightarrow> bool \<Rightarrow> auth_level"
  bd_on_bind :: "nat option"

definition strip_mapped_ipv4 :: "string \<Rightarrow> string" where
  "strip_mapped_ipv4 ip =
     (if 14 \<le> length ip \<and> take 7 ip = ''::ffff:'' \<and> find_last_not_of ''0123456789.'' ip = Some 6
      then drop 7 ip else ip)"

text \<open>
  One iteration of the loop of \<^verbatim>\<open>process_zap_requests\<close>: the six frames of the response. The vector of
  response frames is the list \<open>[version, id, status_code, status_text, user_id, metadata]\<close>.
\<close>

definition zap_response :: "oxenc \<Rightarrow> (string \<Rightarrow> nat option) \<Rightarrow> bind_data list \<Rightarrow> string list \<Rightarrow>
    string list \<Rightarrow> string list" where
  "zap_response oc bt_size binds active_sns frames =
     (let rid = (if 2 \<le> length frames then frames ! 1 else [])
      in if length frames < 6 \<or> frames ! 0 \<noteq> ''1.0'' then
           [''1.0'', rid, ''500'', ''Internal error: invalid auth request'', [], []]
         else
           (let auth_domain = frames ! 2;
                bind_id = (case bt_size auth_domain of None \<Rightarrow> 2 ^ 64 - 1 | Some n \<Rightarrow> n)
            in if length binds \<le> bind_id then
                 [''1.0'', rid, ''400'', ''Unknown authentication domain: '' @ auth_domain, [], []]
               else
                 (let b = binds ! bind_id in
                  if (if bd_curve b then \<not> (length frames = 7 \<and> frames ! 5 = ''CURVE'')
                      else \<not> (length frames = 6 \<and> frames ! 5 = ''NULL'')) then
                    [''1.0'', rid, ''500'', ''Invalid authentication request mechanism'', [], []]
                  else if bd_curve b \<and> length (frames ! 6) \<noteq> 32 then
                    [''1.0'', rid, ''500'', ''Invalid public key size for CURVE authentication'', [], []]
                  else
                    (let ip = strip_mapped_ipv4 (frames ! 3);
                         pubkey = (if bd_curve b then frames ! 6 else []);
                         sn = (bd_curve b \<and> pubkey \<in> set active_sns);
                         auth = bd_allow b ip pubkey sn;
                         user_id = (if bd_curve b then to_hex oc pubkey else [])
                     in if auth \<le> auth_denied \<or> auth > auth_admin then
                          [''1.0'', rid, ''400'', ''Access denied'', [], []]
                        else
                          [''1.0'', rid, ''200'', [], user_id,
                           zmtp_metadata ''X-AuthLevel'' (auth_to_string auth)]))))"

text \<open>The loop: every request waiting on the ZAP socket is answered, in order.\<close>

definition process_zap_requests :: "oxenc \<Rightarrow> (string \<Rightarrow> nat option) \<Rightarrow> bind_data list \<Rightarrow> string list \<Rightarrow>
    string list list \<Rightarrow> string list list" where
  "process_zap_requests oc bt_size binds active_sns requests =
     map (zap_response oc bt_size binds active_sns) requests"


section \<open>Lemmas\<close>

lemma auth_string_roundtrip:
  "auth_denied \<le> a \<Longrightarrow> a \<le> auth_admin \<Longrightarrow> auth_from_string (auth_to_string a) = a"
  by (cases a) (auto simp: auth_to_string_def auth_from_string_def auth_levels less_eq_auth_level_def)

text \<open>A reader of ZMTP metadata, as the peer's ZMTP library does it.\<close>

definition read_u32 :: "string \<Rightarrow> nat" where
  "read_u32 s = foldl (\<lambda>a d. 256 * a + of_char d) 0 s"

definition read_metadata :: "string \<Rightarrow> (string \<times> string) option" where
  "read_metadata m =
     (case m of [] \<Rightarrow> None
      | c # rest \<Rightarrow>
          (let k = of_char c; len = read_u32 (take 4 (drop k rest)) in
           if length rest < k + 4 + len then None
           else Some (take k rest, take len (drop (k + 4) rest))))"

lemma length_network_u32 [simp]: "length (network_u32 n) = 4"
  by (simp add: network_u32_def)

lemma read_network_u32 [simp]:
  assumes "n < 2 ^ 32"
  shows "read_u32 (network_u32 n) = n"
proof -
  have "n div 2 ^ 24 < 256" using assms by (simp add: less_mult_imp_div_less)
  then have "n div 16777216 mod 256 = n div 16777216" by simp
  moreover have "256 * (256 * (256 * (n div 16777216) + n div 65536 mod 256) + n div 256 mod 256) + n mod 256 = n"
  proof -
    have "256 * (n div 16777216) + n div 65536 mod 256 = n div 65536"
      using div_mult2_eq [of n 65536 256] by simp
    moreover have "256 * (n div 65536) + n div 256 mod 256 = n div 256"
      using div_mult2_eq [of n 256 256] by simp
    ultimately show ?thesis by simp
  qed
  ultimately show ?thesis by (simp add: read_u32_def network_u32_def)
qed

lemma read_zmtp_metadata:
  assumes "length key \<le> 255" "length value < 2 ^ 32"
  shows "read_metadata (zmtp_metadata key value) = Some (key, value)"
proof -
  have "of_char (char_of (length key mod 256) :: char) = length key" using assms(1) by simp
  then show ?thesis using assms(2) by (simp add: read_metadata_def zmtp_metadata_def Let_def)
qed

lemma find_last_not_of_Some:
  "find_last_not_of cs s = Some i \<longleftrightarrow> i < length s \<and> s ! i \<notin> set cs \<and> set (drop (Suc i) s) \<subseteq> set cs"
proof
  assume "find_last_not_of cs s = Some i"
  then obtain j where j: "find_not_of cs (rev s) = Some j" and i: "i = length s - 1 - j"
    by (auto simp: find_last_not_of_def)
  from find_not_of_Some [OF j] have "j < length s" "rev s ! j \<notin> set cs" "set (take j (rev s)) \<subseteq> set cs" by auto
  moreover from this i have "Suc i = length s - j" "i < length s" by auto
  ultimately show "i < length s \<and> s ! i \<notin> set cs \<and> set (drop (Suc i) s) \<subseteq> set cs"
    using i by (simp add: rev_nth take_rev)
next
  assume *: "i < length s \<and> s ! i \<notin> set cs \<and> set (drop (Suc i) s) \<subseteq> set cs"
  then have "rev s = rev (drop (Suc i) s) @ s ! i # rev (take i s)"
    by (metis Cons_nth_drop_Suc append_take_drop_id rev.simps(2) rev_append append_Cons append_Nil append_assoc)
  with * show "find_last_not_of cs s = Some i"
    by (simp add: find_last_not_of_def find_not_of_append)
qed

lemma zap_response_cases:
  fixes oc bt_size binds active_sns frames
  defines "r \<equiv> zap_response oc bt_size binds active_sns frames"
  obtains (granted) b where "b \<in> set binds" "6 \<le> length frames" "frames ! 0 = ''1.0''"
      "bd_curve b \<Longrightarrow> length frames = 7 \<and> frames ! 5 = ''CURVE'' \<and> length (frames ! 6) = 32"
      "\<not> bd_curve b \<Longrightarrow> length frames = 6 \<and> frames ! 5 = ''NULL''"
      "let pk = (if bd_curve b then frames ! 6 else []);
           l = bd_allow b (strip_mapped_ipv4 (frames ! 3)) pk (bd_curve b \<and> pk \<in> set active_sns)
       in auth_denied < l \<and> l \<le> auth_admin
          \<and> r = [''1.0'', frames ! 1, ''200'', [], if bd_curve b then to_hex oc pk else [],
                  zmtp_metadata ''X-AuthLevel'' (auth_to_string l)]"
    | (refused) code msg where "code = ''400'' \<or> code = ''500''"
      "r = [''1.0'', if 2 \<le> length frames then frames ! 1 else [], code, msg, [], []]"
proof -
  define id where "id = (case bt_size (frames ! 2) of None \<Rightarrow> 2 ^ 64 - 1 | Some n \<Rightarrow> n)"
  define b where "b = binds ! id"
  define pk where "pk = (if bd_curve b then frames ! 6 else [])"
  define l where "l = bd_allow b (strip_mapped_ipv4 (frames ! 3)) pk (bd_curve b \<and> pk \<in> set active_sns)"
  note defs = r_def zap_response_def Let_def id_def [symmetric] b_def [symmetric] pk_def [symmetric] l_def [symmetric]
  consider (bad) "length frames < 6 \<or> frames ! 0 \<noteq> ''1.0''"
    | (unknown) "6 \<le> length frames" "frames ! 0 = ''1.0''" "length binds \<le> id"
    | (known) "6 \<le> length frames" "frames ! 0 = ''1.0''" "id < length binds"
    by linarith
  then show thesis
  proof cases
    case bad
    then show ?thesis by (intro refused [of "''500''"]) (simp_all add: r_def zap_response_def Let_def)
  next
    case unknown
    then show ?thesis by (intro refused [of "''400''"]) (simp_all add: defs)
  next
    case known
    then have r: "r =
       (if (if bd_curve b then \<not> (length frames = 7 \<and> frames ! 5 = ''CURVE'')
            else \<not> (length frames = 6 \<and> frames ! 5 = ''NULL''))
        then [''1.0'', frames ! 1, ''500'', ''Invalid authentication request mechanism'', [], []]
        else if bd_curve b \<and> length (frames ! 6) \<noteq> 32
        then [''1.0'', frames ! 1, ''500'', ''Invalid public key size for CURVE authentication'', [], []]
        else if l \<le> auth_denied \<or> auth_admin < l
        then [''1.0'', frames ! 1, ''400'', ''Access denied'', [], []]
        else [''1.0'', frames ! 1, ''200'', [], if bd_curve b then to_hex oc pk else [],
              zmtp_metadata ''X-AuthLevel'' (auth_to_string l)])"
      unfolding r_def zap_response_def Let_def id_def b_def pk_def l_def by simp
    have two: "2 \<le> length frames" using known by simp
    consider (mech) "if bd_curve b then \<not> (length frames = 7 \<and> frames ! 5 = ''CURVE'')
        else \<not> (length frames = 6 \<and> frames ! 5 = ''NULL'')"
      | (size) "bd_curve b" "length frames = 7" "frames ! 5 = ''CURVE''" "length (frames ! 6) \<noteq> 32"
      | (deny) "bd_curve b \<longrightarrow> length frames = 7 \<and> frames ! 5 = ''CURVE'' \<and> length (frames ! 6) = 32"
        "\<not> bd_curve b \<longrightarrow> length frames = 6 \<and> frames ! 5 = ''NULL''" "l \<le> auth_denied \<or> auth_admin < l"
      | (grant) "bd_curve b \<longrightarrow> length frames = 7 \<and> frames ! 5 = ''CURVE'' \<and> length (frames ! 6) = 32"
        "\<not> bd_curve b \<longrightarrow> length frames = 6 \<and> frames ! 5 = ''NULL''" "auth_denied < l" "l \<le> auth_admin"
      by (metis not_le)
    then show ?thesis
    proof cases
      case mech
      then show ?thesis using two by (intro refused [of "''500''"]) (simp_all add: r)
    next
      case size
      then show ?thesis using two by (intro refused [of "''500''"]) (simp_all add: r)
    next
      case deny
      then show ?thesis using two by (intro refused [of "''400''" "''Access denied''"]) (auto simp: r)
    next
      case grant
      have "b \<in> set binds" using known by (simp add: b_def)
      then show ?thesis
      proof (rule granted)
        have "r = [''1.0'', frames ! 1, ''200'', [], if bd_curve b then to_hex oc pk else [],
              zmtp_metadata ''X-AuthLevel'' (auth_to_string l)]"
          using grant by (auto simp: r)
        with grant(3,4) show "let pk = (if bd_curve b then frames ! 6 else []);
           l = bd_allow b (strip_mapped_ipv4 (frames ! 3)) pk (bd_curve b \<and> pk \<in> set active_sns)
          in auth_denied < l \<and> l \<le> auth_admin
          \<and> r = [''1.0'', frames ! 1, ''200'', [], if bd_curve b then to_hex oc pk else [],
                  zmtp_metadata ''X-AuthLevel'' (auth_to_string l)]"
          unfolding pk_def [symmetric] Let_def l_def [symmetric] by blast
      qed (use grant known in auto)
    qed
  qed
qed


section \<open>Properties\<close>



text \<open>A request that is not accepted yields nothing: every response has six frames, the version,
  the identifier of the request (or an empty one), and for any status but 200 an empty user id and empty
  metadata. A request without a recognised listener, mechanism or 32-byte curve key is never accepted.\<close>

theorem zap_refusal:
  "let r = zap_response oc bt_size binds active_sns frames
   in length r = 6 \<and> r ! 0 = ''1.0'' \<and> r ! 1 = (if 2 \<le> length frames then frames ! 1 else [])
    \<and> r ! 2 \<in> {''200'', ''400'', ''500''}
    \<and> (r ! 2 = ''200'' \<or> (r ! 4 = [] \<and> r ! 5 = []))
    \<and> (r ! 2 = ''200'' \<longrightarrow> binds \<noteq> [] \<and> (length frames = 6 \<or> (length frames = 7 \<and> length (frames ! 6) = 32)))"
  by (rule zap_response_cases [of binds frames active_sns oc bt_size])
    (auto simp: Let_def split: if_splits)

text \<open>An address of the form \<^verbatim>\<open>::ffff:a.b.c.d\<close> (at least seven characters of digits and dots after
  the prefix) is passed to the callback without its prefix, and every other address as it is.\<close>

theorem strip_mapped_ipv4_exact:
  "strip_mapped_ipv4 ip = (if \<exists>v4. ip = ''::ffff:'' @ v4 \<and> 7 \<le> length v4 \<and> set v4 \<subseteq> set ''0123456789.''
     then drop 7 ip else ip)"
proof -
  have "(14 \<le> length ip \<and> take 7 ip = ''::ffff:'' \<and> find_last_not_of ''0123456789.'' ip = Some 6)
    \<longleftrightarrow> (\<exists>v4. ip = ''::ffff:'' @ v4 \<and> 7 \<le> length v4 \<and> set v4 \<subseteq> set ''0123456789.'')"
    (is "?l \<longleftrightarrow> ?r")
  proof
    assume l: ?l
    then have "ip = ''::ffff:'' @ drop 7 ip" by (metis append_take_drop_id)
    moreover from l have "7 \<le> length (drop 7 ip)" by (elim conjE) simp
    moreover from l have "set (drop 7 ip) \<subseteq> set ''0123456789.''"
      by (simp add: find_last_not_of_Some)
    ultimately show ?r by blast
  next
    assume ?r
    then obtain v4 where "ip = ''::ffff:'' @ v4" "7 \<le> length v4" "set v4 \<subseteq> set ''0123456789.''" by blast
    then show ?l by (simp add: find_last_not_of_Some)
  qed
  then show ?thesis by (simp add: strip_mapped_ipv4_def)
qed

end
