(* ===== verification/Conn_Id.thy ===== *)
theory Conn_Id
  imports Auth "HOL-Library.Sublist" "HOL-Library.List_Lexorder" "HOL-Library.Char_ord"
begin

text \<open>
  Connection identifiers, \<^verbatim>\<open>ConnectionID\<close> of \<^verbatim>\<open>oxenmq/connections.h\<close>, with their equality, order and
  hash, and the hash containers keyed by them. The 64-bit identifiers are integers. A
  \<^verbatim>\<open>std::unordered_multimap\<close> is an association list whose order is the iteration order, so a statement
  about every list covers every order; the interface \<open>hashed_key\<close> states what such a container needs of
  the equality and the hash of its keys.
\<close>

section \<open>Identifiers\<close>

definition SN_ID :: int where
  "SN_ID = -1"

record connection_id =
  cid :: int
  cid_pk :: string
  cid_route :: string

text \<open>The two private constructors, from a number and from a number, a pubkey and a route.\<close>

definition conn_of_id :: "int \<Rightarrow> connection_id" where
  "conn_of_id i = \<lparr>cid = i, cid_pk = [], cid_route = []\<rparr>"

definition conn_of :: "int \<Rightarrow> string \<Rightarrow> string \<Rightarrow> connection_id" where
  "conn_of i pk r = \<lparr>cid = i, cid_pk = pk, cid_route = r\<rparr>"

definition default_conn :: connection_id where
  "default_conn = conn_of_id 0"

text \<open>The constructor from a service node pubkey.\<close>

definition conn_of_pubkey :: "string \<Rightarrow> connection_id res" where
  "conn_of_pubkey pk =
     (if length pk \<noteq> 32 then Inl (runtime_error ''Invalid pubkey: expected 32 bytes'')
      else Inr (conn_of SN_ID pk []))"

definition conn_bool :: "connection_id \<Rightarrow> bool" where
  "conn_bool c \<longleftrightarrow> cid c \<noteq> 0"

definition conn_sn :: "connection_id \<Rightarrow> bool" where
  "conn_sn c \<longleftrightarrow> cid c = SN_ID"

definition conn_eq :: "connection_id \<Rightarrow> connection_id \<Rightarrow> bool" where
  "conn_eq a b =
     (if conn_sn a \<and> conn_sn b then cid_pk a = cid_pk b
      else cid a = cid b \<and> cid_route a = cid_route b)"

definition conn_less :: "connection_id \<Rightarrow> connection_id \<Rightarrow> bool" where
  "conn_less a b =
     (if conn_sn a \<and> conn_sn b then cid_pk a < cid_pk b
      else cid a < cid b \<or> (cid a = cid b \<and> cid_route a < cid_route b))"

definition unrouted :: "connection_id \<Rightarrow> connection_id" where
  "unrouted c = conn_of (cid c) (cid_pk c) []"

text \<open>\<^verbatim>\<open>std::hash<ConnectionID>\<close>: \<^verbatim>\<open>size_t\<close> addition wraps at 64 bits.\<close>

definition conn_hash :: "(string \<Rightarrow> nat) \<Rightarrow> (int \<Rightarrow> nat) \<Rightarrow> connection_id \<Rightarrow> nat" where
  "conn_hash string_hash int_hash c =
     (if conn_sn c then already_hashed string_hash (cid_pk c)
      else (int_hash (cid c) + string_hash (cid_route c)) mod 2 ^ 64)"

definition int_to_string :: "int \<Rightarrow> string" where
  "int_to_string i = (if i < 0 then CHR ''-'' # to_dec (nat (- i)) else to_dec (nat i))"

definition conn_to_string :: "oxenc \<Rightarrow> connection_id \<Rightarrow> string" where
  "conn_to_string oc c =
     (if cid_pk c \<noteq> [] then
        (if conn_sn c then ''SN '' @ to_hex oc (cid_pk c)
         else ''non-SN authenticated remote ['' @ int_to_string (cid c) @ ''] '' @ to_hex oc (cid_pk c))
      else ''unauthenticated remote ['' @ int_to_string (cid c) @ '']'')"


section \<open>Hash multimaps\<close>

definition mm_equal_range :: "('k \<Rightarrow> 'k \<Rightarrow> bool) \<Rightarrow> 'k \<Rightarrow> ('k \<times> 'v) list \<Rightarrow> ('k \<times> 'v) list" where
  "mm_equal_range eq k m = filter (\<lambda>e. eq (fst e) k) m"

definition mm_find :: "('k \<Rightarrow> 'k \<Rightarrow> bool) \<Rightarrow> 'k \<Rightarrow> ('k \<times> 'v) list \<Rightarrow> ('k \<times> 'v) option" where
  "mm_find eq k m = List.find (\<lambda>e. eq (fst e) k) m"

text \<open>Elements with equal keys are adjacent: a new one goes behind the others.\<close>

fun mm_emplace :: "('k \<Rightarrow> 'k \<Rightarrow> bool) \<Rightarrow> 'k \<Rightarrow> 'v \<Rightarrow> ('k \<times> 'v) list \<Rightarrow> ('k \<times> 'v) list" where
  "mm_emplace eq k v [] = [(k, v)]"
| "mm_emplace eq k v (e # m) =
     (if eq (fst e) k \<and> \<not> list_ex (\<lambda>x. eq (fst x) k) m then e # (k, v) # m else e # mm_emplace eq k v m)"

definition mm_erase_key :: "('k \<Rightarrow> 'k \<Rightarrow> bool) \<Rightarrow> 'k \<Rightarrow> ('k \<times> 'v) list \<Rightarrow> ('k \<times> 'v) list" where
  "mm_erase_key eq k m = filter (\<lambda>e. \<not> eq (fst e) k) m"

lemma subseq_set: "subseq xs ys \<Longrightarrow> set xs \<subseteq> set ys"
  by (induction rule: list_emb.induct) auto

lemma filter_prefix: "\<not> list_ex P (dropWhile P xs) \<Longrightarrow> filter P xs = takeWhile P xs"
proof -
  assume "\<not> list_ex P (dropWhile P xs)"
  then have "filter P (dropWhile P xs) = []" by (simp add: list_ex_iff filter_empty_conv)
  moreover have "filter P (takeWhile P xs) = takeWhile P xs" by (auto simp: filter_id_conv dest: set_takeWhileD)
  moreover have "filter P xs = filter P (takeWhile P xs @ dropWhile P xs)" by simp
  ultimately show ?thesis by (simp only: filter_append append_Nil2)
qed

text \<open>The keys of a container, with equal ones adjacent.\<close>

fun grouped :: "('k \<Rightarrow> 'k \<Rightarrow> bool) \<Rightarrow> 'k list \<Rightarrow> bool" where
  "grouped eq [] \<longleftrightarrow> True"
| "grouped eq (k # ks) \<longleftrightarrow> grouped eq ks \<and> \<not> list_ex (eq k) (dropWhile (eq k) ks)"

text \<open>
  What a hash container requires of its key type: equality is an equivalence and equal keys have
  equal hashes, so that a lookup by hash bucket finds them.
\<close>

locale hashed_key =
  fixes eq :: "'k \<Rightarrow> 'k \<Rightarrow> bool" and hash :: "'k \<Rightarrow> nat"
  assumes eq_refl: "eq k k"
    and eq_sym: "eq k l \<Longrightarrow> eq l k"
    and eq_trans: "eq k l \<Longrightarrow> eq l m \<Longrightarrow> eq k m"
    and eq_hash: "eq k l \<Longrightarrow> hash k = hash l"
begin

lemma range_cong: "eq k l \<Longrightarrow> mm_equal_range eq k m = mm_equal_range eq l m"
  unfolding mm_equal_range_def by (rule filter_cong) (auto intro: eq_sym eq_trans)

lemma range_emplace:
  "mm_equal_range eq k (mm_emplace eq l v m) = mm_equal_range eq k m @ (if eq l k then [(l, v)] else [])"
proof (induction m)
  case (Cons e m)
  have "mm_equal_range eq k m = []" if "eq l k" "\<not> list_ex (\<lambda>x. eq (fst x) l) m"
  proof -
    have "eq (fst e) l" if "eq (fst e) k" for e :: "'k \<times> 'a" using that \<open>eq l k\<close> by (blast intro: eq_sym eq_trans)
    then show ?thesis using that(2) by (auto simp: mm_equal_range_def filter_empty_conv list_ex_iff)
  qed
  then show ?case using Cons.IH by (auto simp: mm_equal_range_def)
qed (simp add: mm_equal_range_def)

lemma set_emplace: "set (mm_emplace eq k v m) = insert (k, v) (set m)"
  by (induction m) auto

lemma grouped_emplace: "grouped eq (map fst m) \<Longrightarrow> grouped eq (map fst (mm_emplace eq k v m))"
proof (induction m)
  case (Cons e m)
  let ?P = "eq (fst e)"
  have same: "eq (fst x) k \<longleftrightarrow> ?P (fst x)" if "?P k" for x :: "'k \<times> 'a"
    using that by (blast intro: eq_sym eq_trans)
  have other: "\<not> eq (fst x) k" if "\<not> ?P k" "?P (fst x)" for x :: "'k \<times> 'a"
    using that eq_trans by blast
  have in_group: "\<not> list_ex ?P (dropWhile ?P (map fst (mm_emplace eq k v xs)))"
    if "\<not> list_ex ?P (dropWhile ?P (map fst xs))" "?P k" "list_ex (\<lambda>x. eq (fst x) k) xs" for xs :: "('k \<times> 'a) list"
    using that
  proof (induction xs)
    case (Cons x xs)
    show ?case
    proof (cases "list_ex (\<lambda>x. eq (fst x) k) xs")
      case True
      then obtain y where y: "y \<in> set xs" "eq (fst y) k" by (auto simp: list_ex_iff)
      have "?P (fst y)" using y(2) \<open>?P k\<close> by (blast intro: eq_sym eq_trans)
      then have "?P (fst x)" using Cons.prems(1) y(1) by (rule_tac ccontr) (auto simp: list_ex_iff)
      then show ?thesis using Cons True by simp
    next
      case False
      have "\<not> ?P (fst y)" if "y \<in> set xs" for y
        using False that same [OF \<open>?P k\<close>, of y] by (auto simp: list_ex_iff)
      then have "\<not> list_ex ?P (dropWhile ?P (map fst xs))" by (auto simp: list_ex_iff dest!: set_dropWhileD)
      moreover have "eq (fst x) k" using Cons.prems(3) False by simp
      ultimately show ?thesis using False \<open>?P k\<close> same [OF \<open>?P k\<close>, of x] by simp
    qed
  qed simp
  have elsewhere: "\<not> list_ex ?P (dropWhile ?P (map fst (mm_emplace eq k v xs)))"
    if "\<not> list_ex ?P (dropWhile ?P (map fst xs))" "\<not> ?P k" for xs :: "('k \<times> 'a) list"
    using that
  proof (induction xs)
    case (Cons x xs)
    show ?case
    proof (cases "?P (fst x)")
      case True
      then show ?thesis using Cons other [OF \<open>\<not> ?P k\<close>] by simp
    next
      case False
      then show ?thesis using Cons.prems by (auto simp: list_ex_iff set_emplace)
    qed
  qed simp
  have next_to: "\<not> list_ex (eq k) (dropWhile (eq k) (map fst m))" if "\<not> list_ex (\<lambda>x. eq (fst x) k) m"
  proof -
    have "\<not> eq k (fst x)" if "x \<in> set m" for x
      using \<open>\<not> list_ex _ m\<close> that eq_sym [of k "fst x"] by (auto simp: list_ex_iff)
    then show ?thesis by (auto simp: list_ex_iff dest!: set_dropWhileD)
  qed
  show ?case using Cons in_group [of m] elsewhere [of m] next_to by (auto intro: eq_sym)
qed simp

lemma grouped_subseq: "subseq ks ls \<Longrightarrow> grouped eq ls \<Longrightarrow> grouped eq ks"
proof (induction rule: list_emb.induct)
  case (list_emb_Cons2 x y xs ys)
  let ?P = "eq y"
  have "subseq xs (takeWhile ?P ys @ dropWhile ?P ys)" using list_emb_Cons2.hyps by simp
  then obtain us vs where uv: "xs = us @ vs" "subseq us (takeWhile ?P ys)" "subseq vs (dropWhile ?P ys)"
    by (rule subseq_appendE)
  have "\<forall>x \<in> set us. ?P x" using subseq_set [OF uv(2)] by (auto dest: set_takeWhileD)
  moreover have "\<forall>x \<in> set vs. \<not> ?P x"
    using subseq_set [OF uv(3)] list_emb_Cons2.prems by (auto simp: list_ex_iff)
  ultimately have "\<not> list_ex ?P (dropWhile ?P xs)"
    by (simp add: uv(1) list_ex_iff)
  then show ?case using list_emb_Cons2 by simp
qed auto

text \<open>The range of a key is contiguous.\<close>

lemma grouped_range:
  assumes "grouped eq (map fst m)"
  obtains pre post where "m = pre @ mm_equal_range eq k m @ post"
    "\<forall>x \<in> set pre. \<not> eq (fst x) k" "\<forall>x \<in> set post. \<not> eq (fst x) k"
proof -
  have "\<exists>pre post. m = pre @ mm_equal_range eq k m @ post \<and> (\<forall>x \<in> set (pre @ post). \<not> eq (fst x) k)"
    using assms
  proof (induction m)
    case (Cons e m)
    then obtain pre post where ih: "m = pre @ mm_equal_range eq k m @ post"
      "\<forall>x \<in> set (pre @ post). \<not> eq (fst x) k" by auto
    show ?case
    proof (cases "eq (fst e) k")
      case False
      then show ?thesis using ih by (intro exI [of _ "e # pre"] exI [of _ post]) (simp add: mm_equal_range_def)
    next
      case True
      have iff: "eq (fst e) (fst x) \<longleftrightarrow> eq (fst x) k" for x :: "'k \<times> 'a" using True by (blast intro: eq_sym eq_trans)
      have eqs: "eq (fst e) \<circ> fst = (\<lambda>x :: 'k \<times> 'a. eq (fst x) k)"
        "list_ex (eq (fst e)) (map fst ys) = list_ex (\<lambda>x. eq (fst x) k) ys" for ys :: "('k \<times> 'a) list"
        using iff by (auto simp: fun_eq_iff list_ex_iff)
      have none: "\<not> list_ex (\<lambda>x. eq (fst x) k) (dropWhile (\<lambda>x. eq (fst x) k) m)"
        using Cons.prems eqs by (simp add: dropWhile_map)
      then have "mm_equal_range eq k m = takeWhile (\<lambda>x. eq (fst x) k) m"
        unfolding mm_equal_range_def by (rule filter_prefix)
      then have "e # m = [] @ mm_equal_range eq k (e # m) @ dropWhile (\<lambda>x. eq (fst x) k) m"
        using True by (simp add: mm_equal_range_def)
      moreover have "\<forall>x \<in> set ([] @ dropWhile (\<lambda>x. eq (fst x) k) m). \<not> eq (fst x) k"
        using none unfolding list_ex_iff append_Nil by blast
      ultimately show ?thesis by blast
    qed
  qed (simp add: mm_equal_range_def)
  then show ?thesis using that by auto
qed

lemma range_erase_self: "mm_equal_range eq k (mm_erase_key eq k m) = []"
  by (simp add: mm_equal_range_def mm_erase_key_def filter_empty_conv)

lemma range_erase_other:
  assumes "\<not> eq k l"
  shows "mm_equal_range eq k (mm_erase_key eq l m) = mm_equal_range eq k m"
proof -
  have "eq (fst e) k \<Longrightarrow> \<not> eq (fst e) l" for e :: "'k \<times> 'a" using assms by (blast intro: eq_sym eq_trans)
  then show ?thesis by (auto simp: mm_equal_range_def mm_erase_key_def intro!: filter_cong)
qed

lemma range_same_bucket: "(l, v) \<in> set (mm_equal_range eq k m) \<Longrightarrow> hash l = hash k"
  by (auto simp: mm_equal_range_def dest: eq_hash)

lemma find_range: "mm_find eq k m = (case mm_equal_range eq k m of [] \<Rightarrow> None | e # _ \<Rightarrow> Some e)"
  by (induction m) (auto simp: mm_find_def mm_equal_range_def)

lemma find_cong: "eq k l \<Longrightarrow> mm_find eq k m = mm_find eq l m"
  by (simp add: find_range range_cong)

end


section \<open>Laws\<close>

lemma conn_eq_equiv:
  "conn_eq a a" "conn_eq a b \<Longrightarrow> conn_eq b a" "conn_eq a b \<Longrightarrow> conn_eq b c \<Longrightarrow> conn_eq a c"
  by (auto simp: conn_eq_def conn_sn_def split: if_splits)

lemma conn_eq_hash: "conn_eq a b \<Longrightarrow> conn_hash h i a = conn_hash h i b"
  by (auto simp: conn_eq_def conn_hash_def conn_sn_def split: if_splits)

interpretation ck: hashed_key conn_eq "conn_hash string_hash int_hash"
  by standard (blast intro: conn_eq_equiv conn_eq_hash)+

interpretation pkset: hashed_key "(=) :: string \<Rightarrow> string \<Rightarrow> bool" "already_hashed string_hash"
  by standard auto



text \<open>Equality and order are the lexicographic ones on the number and the part that counts.\<close>

definition conn_key :: "connection_id \<Rightarrow> string" where
  "conn_key c = (if conn_sn c then cid_pk c else cid_route c)"

lemma conn_eq_key: "conn_eq a b \<longleftrightarrow> cid a = cid b \<and> conn_key a = conn_key b"
  by (auto simp: conn_eq_def conn_key_def conn_sn_def)

lemma conn_less_key: "conn_less a b \<longleftrightarrow> cid a < cid b \<or> (cid a = cid b \<and> conn_key a < conn_key b)"
  by (auto simp: conn_less_def conn_key_def conn_sn_def)

lemma conn_less_irrefl: "\<not> conn_less a a"
  by (simp add: conn_less_key)

lemma conn_less_trans: "conn_less a b \<Longrightarrow> conn_less b c \<Longrightarrow> conn_less a c"
  unfolding conn_less_key by (metis less_trans)

lemma conn_less_total:
  "conn_eq a b \<longleftrightarrow> \<not> conn_less a b \<and> \<not> conn_less b a" "\<not> (conn_less a b \<and> conn_less b a)"
  unfolding conn_less_key conn_eq_key by (metis less_irrefl less_linear less_trans)+

lemma conn_less_cong:
  assumes "conn_eq a b"
  shows "conn_less a c \<longleftrightarrow> conn_less b c" "conn_less c a \<longleftrightarrow> conn_less c b"
  using assms by (simp_all add: conn_less_key conn_eq_key)


section \<open>Properties\<close>

text \<open>The order of connection identifiers is usable as the key order of a sorted container. It
  is irreflexive and transitive, exactly one of \<^verbatim>\<open>a < b\<close>, \<^verbatim>\<open>b < a\<close>, \<^verbatim>\<open>a == b\<close> holds, and identifiers
  that are equal cannot be told apart by the order or by the hash. (The order compares pubkeys between
  service nodes only, so this is not the lexicographic order of the fields.)\<close>

theorem conn_order:
  "\<not> conn_less a a
   \<and> (conn_less a b \<and> conn_less b c \<longrightarrow> conn_less a c)
   \<and> (conn_eq a b \<longleftrightarrow> \<not> conn_less a b \<and> \<not> conn_less b a)
   \<and> \<not> (conn_less a b \<and> conn_less b a)
   \<and> (conn_eq a b \<longrightarrow> (conn_less a c \<longleftrightarrow> conn_less b c) \<and> (conn_less c a \<longleftrightarrow> conn_less c b)
       \<and> conn_hash string_hash int_hash a = conn_hash string_hash int_hash b)"
  using conn_less_irrefl conn_less_trans [of a b c] conn_less_total [of a b] conn_less_cong [of a b c]
    conn_eq_hash [of a b]
  by blast

end
