(* ===== verification/Commands.thy ===== *)
theory Commands
  imports Conn_Id
begin

text \<open>
  Categories, commands and aliases: the registration functions and \<^verbatim>\<open>get_command\<close> of
  \<^verbatim>\<open>oxenmq/oxenmq.cpp\<close>. An \<^verbatim>\<open>unordered_map\<close> is an association list with distinct keys, whose order is
  the iteration order. A callback is an opaque number, and a command is the pair of its callback and
  the request flag. The record \<open>registry\<close> is the first part of the state of an \<^verbatim>\<open>OxenMQ\<close> object; later
  theories extend it, and the operations here leave the extension alone.
\<close>

section \<open>State\<close>

type_synonym command_entry = "nat \<times> bool"

definition MAX_CATEGORY_LENGTH :: nat where
  "MAX_CATEGORY_LENGTH = 50"

definition MAX_COMMAND_LENGTH :: nat where
  "MAX_COMMAND_LENGTH = 200"

record category =
  cat_access :: access
  commands :: "(string \<times> command_entry) list"
  reserved_threads :: nat
  active_threads :: nat
  max_queue :: int
  queued :: int

definition mk_category :: "access \<Rightarrow> nat \<Rightarrow> int \<Rightarrow> category" where
  "mk_category a r q = \<lparr>cat_access = a, commands = [], reserved_threads = r, active_threads = 0,
     max_queue = q, queued = 0\<rparr>"

text \<open>\<open>started\<close> is \<^verbatim>\<open>proxy_thread.joinable()\<close>.\<close>

record registry =
  started :: bool
  categories :: "(string \<times> category) list"
  command_aliases :: "(string \<times> string) list"

definition upd_category :: "string \<Rightarrow> (category \<Rightarrow> category) \<Rightarrow> (string \<times> category) list \<Rightarrow>
    (string \<times> category) list" where
  "upd_category n f cs = map (\<lambda>(k, c). if k = n then (k, f c) else (k, c)) cs"

definition quoted :: "string \<Rightarrow> string" where
  "quoted s = ''`'' @ s @ [CHR 0x27]"


section \<open>Operations\<close>

definition check_not_started :: "'a registry_scheme \<Rightarrow> string \<Rightarrow> unit res" where
  "check_not_started s verb =
     (if started s then Inl (logic_error (''Cannot '' @ verb @ '' after calling `start()`'')) else Inr ())"

definition add_category :: "string \<Rightarrow> access \<Rightarrow> nat \<Rightarrow> int \<Rightarrow> 'a registry_scheme \<Rightarrow>
    'a registry_scheme res" where
  "add_category name acc reserved maxq s =
     bindE (check_not_started s ''add a category'') (\<lambda>_.
     if MAX_CATEGORY_LENGTH < length name then
       Inl (runtime_error (''Invalid category name '' @ quoted name @ '': name too long (> ''
            @ to_dec MAX_CATEGORY_LENGTH @ '')''))
     else if name = [] \<or> find_char CHR ''.'' name \<noteq> None then
       Inl (runtime_error (''Invalid category name '' @ quoted name))
     else if map_of (categories s) name \<noteq> None then
       Inl (runtime_error (''Unable to add category '' @ quoted name @ '': that category already exists''))
     else Inr (s\<lparr>categories := categories s @ [(name, mk_category acc reserved maxq)]\<rparr>))"

definition add_command :: "string \<Rightarrow> string \<Rightarrow> nat \<Rightarrow> 'a registry_scheme \<Rightarrow> 'a registry_scheme res" where
  "add_command cat name callback s =
     bindE (check_not_started s ''add a command'') (\<lambda>_.
     if MAX_COMMAND_LENGTH < length name then
       Inl (runtime_error (''Invalid command name '' @ quoted name @ '': name too long (> ''
            @ to_dec MAX_COMMAND_LENGTH @ '')''))
     else
       (case map_of (categories s) cat of
          None \<Rightarrow> Inl (runtime_error (''Cannot add a command to unknown category '' @ quoted cat))
        | Some c \<Rightarrow>
            (let fullname = cat @ ''.'' @ name in
             if map_of (command_aliases s) fullname \<noteq> None then
               Inl (runtime_error (''Cannot add command '' @ quoted fullname
                    @ '': a command alias with that name is already defined''))
             else if map_of (commands c) name \<noteq> None then
               Inl (runtime_error (''Cannot add command '' @ quoted fullname
                    @ '': that command already exists''))
             else
               Inr (s\<lparr>categories := upd_category cat
                  (\<lambda>c. c\<lparr>commands := commands c @ [(name, (callback, False))]\<rparr>) (categories s)\<rparr>))))"

definition add_request_command :: "string \<Rightarrow> string \<Rightarrow> nat \<Rightarrow> 'a registry_scheme \<Rightarrow>
    'a registry_scheme res" where
  "add_request_command cat name callback s =
     bindE (add_command cat name callback s) (\<lambda>s.
     Inr (s\<lparr>categories := upd_category cat
        (\<lambda>c. c\<lparr>commands := map (\<lambda>(n, (cb, r)). if n = name then (n, (cb, True)) else (n, (cb, r))) (commands c)\<rparr>)
        (categories s)\<rparr>))"

definition add_command_alias :: "string \<Rightarrow> string \<Rightarrow> 'a registry_scheme \<Rightarrow> 'a registry_scheme res" where
  "add_command_alias src dst s =
     bindE (check_not_started s ''add a command alias'') (\<lambda>_.
     if src = [] then Inl (runtime_error ''Cannot add an alias for empty command'')
     else
       (let fromdot = find_char CHR ''.'' src; todot = find_char CHR ''.'' dst in
        if fromdot = Some 0 then Inl (runtime_error (''Invalid command alias '' @ quoted src))
        else if todot = Some 0 \<or> todot = None then
          Inl (runtime_error (''Invalid command alias target '' @ quoted dst))
        else if (case fromdot of None \<Rightarrow> False
                 | Some d \<Rightarrow>
                     (case map_of (categories s) (take d src) of None \<Rightarrow> False
                      | Some c \<Rightarrow> map_of (commands c) (drop (d + 1) src) \<noteq> None)) then
          Inl (runtime_error (''Invalid command alias: '' @ quoted src @ '' would mask an existing command''))
        else if map_of (command_aliases s) src \<noteq> None then
          Inl (runtime_error (''Cannot add command alias '' @ quoted src @ '': that alias already exists''))
        else Inr (s\<lparr>command_aliases := command_aliases s @ [(src, dst)]\<rparr>)))"

text \<open>
  \<^verbatim>\<open>get_command\<close> updates its argument in place: the first component is the command name afterwards;
  the second the category, by its name, and the command, or \<open>None\<close> for the pair of null pointers.
\<close>

definition get_command :: "'a registry_scheme \<Rightarrow> string \<Rightarrow> string \<times> (string \<times> command_entry) option" where
  "get_command s command =
     (if MAX_CATEGORY_LENGTH + 1 + MAX_COMMAND_LENGTH < length command then (command, None)
      else
        (let command = (case map_of (command_aliases s) command of Some t \<Rightarrow> t | None \<Rightarrow> command) in
         case find_char CHR ''.'' command of
           None \<Rightarrow> (command, None)
         | Some dot \<Rightarrow>
             if dot = 0 then (command, None)
             else
               (let catname = take dot command; cmd = drop (dot + 1) command in
                case map_of (categories s) catname of
                  None \<Rightarrow> (command, None)
                | Some c \<Rightarrow>
                    (case map_of (commands c) cmd of
                       None \<Rightarrow> (command, None)
                     | Some cb \<Rightarrow> (command, Some (catname, cb))))))"


section \<open>Invariant\<close>

definition cmd_lookup :: "'a registry_scheme \<Rightarrow> string \<Rightarrow> string \<Rightarrow> command_entry option" where
  "cmd_lookup s cat name = (case map_of (categories s) cat of None \<Rightarrow> None | Some c \<Rightarrow> map_of (commands c) name)"

definition category_ok :: "string \<Rightarrow> category \<Rightarrow> bool" where
  "category_ok n c \<longleftrightarrow> n \<noteq> [] \<and> CHR ''.'' \<notin> set n \<and> length n \<le> MAX_CATEGORY_LENGTH
     \<and> distinct (map fst (commands c)) \<and> (\<forall>m \<in> fst ` set (commands c). length m \<le> MAX_COMMAND_LENGTH)"

definition registry_ok :: "'a registry_scheme \<Rightarrow> bool" where
  "registry_ok s \<longleftrightarrow>
     distinct (map fst (categories s))
     \<and> (\<forall>n c. (n, c) \<in> set (categories s) \<longrightarrow> category_ok n c)
     \<and> distinct (map fst (command_aliases s))
     \<and> (\<forall>cat name. cmd_lookup s cat name \<noteq> None \<longrightarrow> map_of (command_aliases s) (cat @ ''.'' @ name) = None)"

text \<open>The registration calls that succeed, and \<^verbatim>\<open>start()\<close>, as steps; the states before and after.\<close>

inductive reg_step :: "registry \<Rightarrow> registry \<Rightarrow> bool" where
  category: "add_category n a r q s = Inr s' \<Longrightarrow> reg_step s s'"
| command: "add_command c n cb s = Inr s' \<Longrightarrow> reg_step s s'"
| request: "add_request_command c n cb s = Inr s' \<Longrightarrow> reg_step s s'"
| aliased: "add_command_alias f t s = Inr s' \<Longrightarrow> reg_step s s'"
| start: "reg_step s (s\<lparr>started := True\<rparr>)"

definition registry_init :: registry where
  "registry_init = \<lparr>started = False, categories = [], command_aliases = []\<rparr>"

lemma map_of_upd_category:
  "map_of (upd_category n f cs) k = (if k = n then map_option f (map_of cs n) else map_of cs k)"
  by (induction cs) (auto simp: upd_category_def)

lemma fst_upd_category [simp]: "map fst (upd_category n f cs) = map fst cs"
  by (induction cs) (auto simp: upd_category_def)

lemma set_upd_category:
  "(k, c) \<in> set (upd_category n f cs) \<longleftrightarrow> (\<exists>c'. (k, c') \<in> set cs \<and> c = (if k = n then f c' else c'))"
  unfolding upd_category_def set_map image_iff by (auto split: prod.splits if_splits)

lemma check_not_started_Inr [simp]: "check_not_started s v = Inr u \<longleftrightarrow> \<not> started s"
  by (simp add: check_not_started_def)

lemma add_category_Inr:
  "add_category n a r q s = Inr s' \<longleftrightarrow>
     \<not> started s \<and> length n \<le> MAX_CATEGORY_LENGTH \<and> n \<noteq> [] \<and> CHR ''.'' \<notin> set n
     \<and> map_of (categories s) n = None \<and> s' = s\<lparr>categories := categories s @ [(n, mk_category a r q)]\<rparr>"
  by (auto simp: add_category_def bindE_Inr_iff find_char_None)

lemma add_command_Inr:
  "add_command c n cb s = Inr s' \<longleftrightarrow>
     \<not> started s \<and> length n \<le> MAX_COMMAND_LENGTH \<and> map_of (categories s) c \<noteq> None
     \<and> cmd_lookup s c n = None \<and> map_of (command_aliases s) (c @ ''.'' @ n) = None
     \<and> s' = s\<lparr>categories := upd_category c (\<lambda>c. c\<lparr>commands := commands c @ [(n, (cb, False))]\<rparr>) (categories s)\<rparr>"
  by (cases "map_of (categories s) c")
    (auto simp: add_command_def bindE_Inr_iff cmd_lookup_def Let_def simp del: not_None_eq)

lemma add_command_alias_Inr:
  assumes "add_command_alias f t s = Inr s'"
  shows "\<not> started s" "map_of (command_aliases s) f = None"
    "s' = s\<lparr>command_aliases := command_aliases s @ [(f, t)]\<rparr>"
    "find_char CHR ''.'' f = Some d \<Longrightarrow> cmd_lookup s (take d f) (drop (d + 1) f) = None"
  using assms by (auto simp: add_command_alias_def bindE_Inr_iff cmd_lookup_def Let_def
      simp del: not_None_eq split: if_splits option.splits)

lemma cmd_lookup_add_command:
  assumes "add_command c n cb s = Inr s'"
  shows "cmd_lookup s' k m = (if k = c \<and> m = n then Some (cb, False) else cmd_lookup s k m)"
proof (cases "map_of (categories s) k")
  case None
  with assms show ?thesis by (auto simp: add_command_Inr cmd_lookup_def map_of_upd_category)
next
  case (Some x)
  with assms show ?thesis
    by (auto simp: add_command_Inr cmd_lookup_def map_of_upd_category map_add_def split: option.splits)
qed

lemma cmd_lookup_add_request:
  assumes "add_request_command c n cb s = Inr s'"
  shows "cmd_lookup s' k m = (if k = c \<and> m = n then Some (cb, True) else cmd_lookup s k m)"
proof -
  obtain s1 where s1: "add_command c n cb s = Inr s1" and s': "s' = s1\<lparr>categories := upd_category c
        (\<lambda>c. c\<lparr>commands := map (\<lambda>(n', (cb, r)). if n' = n then (n', (cb, True)) else (n', (cb, r))) (commands c)\<rparr>)
        (categories s1)\<rparr>"
    using assms by (auto simp: add_request_command_def bindE_Inr_iff)
  have m: "map_of (map (\<lambda>(n', (cb, r)). if n' = n then (n', (cb, True)) else (n', (cb, r))) xs) j
      = (if j = n then map_option (\<lambda>(cb, r). (cb, True)) (map_of xs n) else map_of xs j)"
    for xs :: "(string \<times> command_entry) list" and j
    by (induction xs) auto
  have "cmd_lookup s' k m = (if k = c \<and> m = n then map_option (\<lambda>(cb, r). (cb, True)) (cmd_lookup s1 k m)
      else cmd_lookup s1 k m)"
    by (auto simp: s' cmd_lookup_def map_of_upd_category m split: option.splits)
  then show ?thesis by (simp add: cmd_lookup_add_command [OF s1])
qed

lemma cmd_lookup_add_category:
  assumes "add_category c a r q s = Inr s'"
  shows "cmd_lookup s' k m = cmd_lookup s k m"
  using assms by (auto simp: add_category_Inr cmd_lookup_def mk_category_def map_add_def split: option.splits)

lemma cmd_lookup_add_alias:
  "add_command_alias f t s = Inr s' \<Longrightarrow> cmd_lookup s' k m = cmd_lookup s k m"
  using add_command_alias_Inr(3) [of f t s s'] by (simp add: cmd_lookup_def)

lemma registry_ok_category:
  assumes "registry_ok s" "add_category n a r q s = Inr s'"
  shows "registry_ok s'"
proof -
  from assms(2) have "category_ok n (mk_category a r q)" "n \<notin> fst ` set (categories s)"
    "s' = s\<lparr>categories := categories s @ [(n, mk_category a r q)]\<rparr>"
    by (simp_all add: add_category_Inr category_ok_def mk_category_def map_of_eq_None_iff)
  with assms(1) cmd_lookup_add_category [OF assms(2)] show ?thesis by (auto simp: registry_ok_def)
qed

lemma registry_ok_command:
  assumes "registry_ok s" "add_command c n cb s = Inr s'"
  shows "registry_ok s'"
proof -
  from assms(2) have *: "length n \<le> MAX_COMMAND_LENGTH" "cmd_lookup s c n = None"
    "map_of (command_aliases s) (c @ ''.'' @ n) = None"
    "s' = s\<lparr>categories := upd_category c (\<lambda>c. c\<lparr>commands := commands c @ [(n, (cb, False))]\<rparr>) (categories s)\<rparr>"
    by (simp_all add: add_command_Inr)
  have new: "category_ok c (x\<lparr>commands := commands x @ [(n, (cb, False))]\<rparr>)" if "(c, x) \<in> set (categories s)" for x
  proof -
    from that assms(1) have "map_of (categories s) c = Some x" by (simp add: registry_ok_def)
    with *(2) have "n \<notin> fst ` set (commands x)" by (simp add: cmd_lookup_def map_of_eq_None_iff)
    with that assms(1) *(1) show ?thesis by (auto simp: registry_ok_def category_ok_def)
  qed
  have "category_ok k x" if "(k, x) \<in> set (categories s')" for k x
    using that assms(1) new by (auto simp: *(4) set_upd_category registry_ok_def split: if_splits)
  moreover have "map_of (command_aliases s') (k @ ''.'' @ m) = None" if "cmd_lookup s' k m \<noteq> None" for k m
    using that assms(1) *(3) cmd_lookup_add_command [OF assms(2), of k m]
    by (auto simp: *(4) registry_ok_def split: if_splits)
  ultimately show ?thesis using assms(1) by (simp add: registry_ok_def *(4))
qed

lemma registry_ok_request:
  assumes "registry_ok s" "add_request_command c n cb s = Inr s'"
  shows "registry_ok s'"
proof -
  let ?f = "\<lambda>c. c\<lparr>commands := map (\<lambda>(n', (cb, r)). if n' = n then (n', (cb, True)) else (n', (cb, r))) (commands c)\<rparr>"
  obtain s1 where s1: "add_command c n cb s = Inr s1" and s': "s' = s1\<lparr>categories := upd_category c ?f (categories s1)\<rparr>"
    using assms(2) by (auto simp: add_request_command_def bindE_Inr_iff)
  have ok1: "registry_ok s1" by (rule registry_ok_command [OF assms(1) s1])
  have "map fst (commands (?f x)) = map fst (commands x)" for x by (auto simp: comp_def)
  then have f: "category_ok k (?f x) = category_ok k x" for k x
    unfolding category_ok_def by (metis list.set_map)
  have "category_ok k x" if "(k, x) \<in> set (categories s')" for k x
    using that ok1 by (auto simp: s' set_upd_category registry_ok_def f split: if_splits)
  moreover have "map_of (command_aliases s') (k @ ''.'' @ m) = None" if "cmd_lookup s' k m \<noteq> None" for k m
  proof -
    have "cmd_lookup s1 k m \<noteq> None"
      using that cmd_lookup_add_request [OF assms(2), of k m] cmd_lookup_add_command [OF s1, of k m]
      by (auto split: if_splits)
    with ok1 show ?thesis by (simp add: registry_ok_def s')
  qed
  ultimately show ?thesis using ok1 by (simp add: registry_ok_def s')
qed

lemma registry_ok_alias:
  assumes "registry_ok s" "add_command_alias f t s = Inr s'"
  shows "registry_ok s'"
proof -
  note * = add_command_alias_Inr [OF assms(2)]
  have "k @ ''.'' @ m \<noteq> f" if l: "cmd_lookup s k m \<noteq> None" for k m
  proof
    assume f: "k @ ''.'' @ m = f"
    have "CHR ''.'' \<notin> set k"
      using assms(1) l by (auto simp: cmd_lookup_def registry_ok_def category_ok_def dest!: map_of_SomeD split: option.splits)
    then have "find_char CHR ''.'' f = Some (length k)"
      unfolding f [symmetric] by (simp add: find_char_append)
    from *(4) [OF this] l f show False by auto
  qed
  then show ?thesis
    using assms(1) *(2) cmd_lookup_add_alias [OF assms(2)] unfolding registry_ok_def
    by (auto simp: *(3) map_of_eq_None_iff)
qed

lemma reg_step_ok:
  assumes "reg_step s s'" "registry_ok s"
  shows "registry_ok s'"
  using assms
proof (cases rule: reg_step.cases)
  case start
  with assms(2) show ?thesis by (simp add: registry_ok_def cmd_lookup_def)
qed (use assms(2) in \<open>blast intro: registry_ok_category registry_ok_command registry_ok_request registry_ok_alias\<close>)+

lemma reg_step_lookup:
  assumes "reg_step s s'" "cmd_lookup s c n = Some e"
  shows "cmd_lookup s' c n = Some e"
  using assms(1)
proof (cases rule: reg_step.cases)
  case (command c' n' cb)
  then have "cmd_lookup s c' n' = None" by (simp add: add_command_Inr)
  with assms(2) show ?thesis by (auto simp: cmd_lookup_add_command [OF command])
next
  case (request c' n' cb)
  then have "cmd_lookup s c' n' = None" by (auto simp: add_request_command_def bindE_Inr_iff add_command_Inr)
  with assms(2) show ?thesis by (auto simp: cmd_lookup_add_request [OF request])
next
  case start
  with assms(2) show ?thesis by (simp add: cmd_lookup_def)
qed (use assms(2) in \<open>simp_all add: cmd_lookup_add_category cmd_lookup_add_alias\<close>)

lemma reg_steps_ok: "reg_step\<^sup>*\<^sup>* s s' \<Longrightarrow> registry_ok s \<Longrightarrow> registry_ok s'"
  by (induction rule: rtranclp_induct) (auto intro: reg_step_ok)

lemma reg_steps_lookup: "reg_step\<^sup>*\<^sup>* s s' \<Longrightarrow> cmd_lookup s c n = Some e \<Longrightarrow> cmd_lookup s' c n = Some e"
  by (induction rule: rtranclp_induct) (auto intro: reg_step_lookup)

lemma registry_init_ok: "registry_ok registry_init"
  by (simp add: registry_ok_def cmd_lookup_def registry_init_def)

lemma cmd_lookup_split:
  assumes "registry_ok s" "cmd_lookup s c n = Some e"
  shows "find_char CHR ''.'' (c @ ''.'' @ n) = Some (length c)" "c \<noteq> []"
    "length (c @ ''.'' @ n) \<le> MAX_CATEGORY_LENGTH + 1 + MAX_COMMAND_LENGTH"
proof -
  from assms(2) obtain x where x: "map_of (categories s) c = Some x" "map_of (commands x) n = Some e"
    by (auto simp: cmd_lookup_def split: option.splits)
  then have "category_ok c x" using assms(1) by (auto simp: registry_ok_def dest: map_of_SomeD)
  moreover have "n \<in> fst ` set (commands x)" using x(2) by (force dest: map_of_SomeD)
  ultimately show "find_char CHR ''.'' (c @ ''.'' @ n) = Some (length c)" "c \<noteq> []"
    "length (c @ ''.'' @ n) \<le> MAX_CATEGORY_LENGTH + 1 + MAX_COMMAND_LENGTH"
    by (auto simp: category_ok_def find_char_append)
qed

lemma get_command_target:
  assumes "registry_ok s" "cmd_lookup s c n = Some e" "length q \<le> MAX_CATEGORY_LENGTH + 1 + MAX_COMMAND_LENGTH"
    and "(case map_of (command_aliases s) q of Some t \<Rightarrow> t | None \<Rightarrow> q) = c @ ''.'' @ n"
  shows "get_command s q = (c @ ''.'' @ n, Some (c, e))"
proof -
  obtain x where "map_of (categories s) c = Some x" "map_of (commands x) n = Some e"
    using assms(2) by (auto simp: cmd_lookup_def split: option.splits)
  then show ?thesis
    using assms(3) cmd_lookup_split [OF assms(1,2)] by (simp add: get_command_def assms(4) Let_def)
qed

lemma get_command_sound:
  assumes "get_command s q = (q', Some (c, e))"
  obtains n where "q' = c @ ''.'' @ n" "cmd_lookup s c n = Some e"
    "q' = (case map_of (command_aliases s) q of Some t \<Rightarrow> t | None \<Rightarrow> q)"
proof -
  define t where "t = (case map_of (command_aliases s) q of Some t \<Rightarrow> t | None \<Rightarrow> q)"
  from assms obtain d x where d: "find_char CHR ''.'' t = Some d" "q' = t" "c = take d t"
    "map_of (categories s) c = Some x" "map_of (commands x) (drop (d + 1) t) = Some e"
    unfolding get_command_def Let_def t_def [symmetric] by (auto split: if_splits option.splits)
  from find_char_Some [OF d(1)] have "t = take d t @ ''.'' @ drop (d + 1) t"
    by (simp add: id_take_nth_drop [symmetric]) (metis id_take_nth_drop)
  with d show thesis by (intro that) (auto simp: cmd_lookup_def t_def)
qed


section \<open>Properties\<close>

text \<open>C26: a registered command stays reachable under its name. Once \<^verbatim>\<open>add_command\<close> or
  \<^verbatim>\<open>add_request_command\<close> has succeeded on a registry built by any sequence of registration calls, then
  after any further calls \<^verbatim>\<open>get_command\<close> on \<^verbatim>\<open>category.name\<close> returns that category and that callback with
  its request flag: no later alias masks it and no later command replaces it.\<close>

theorem command_stays_found:
  assumes "reg_step\<^sup>*\<^sup>* registry_init s" "reg_step\<^sup>*\<^sup>* s1 s2"
    and "add_command c n cb s = Inr s1 \<and> r = False \<or> add_request_command c n cb s = Inr s1 \<and> r = True"
  shows "get_command s2 (c @ ''.'' @ n) = (c @ ''.'' @ n, Some (c, (cb, r)))"
proof -
  have "registry_ok s1" "cmd_lookup s1 c n = Some (cb, r)"
    using reg_steps_ok [OF assms(1) registry_init_ok] assms(3) registry_ok_command registry_ok_request
      cmd_lookup_add_command [of c n cb s s1] cmd_lookup_add_request [of c n cb s s1] by auto
  then have ok: "registry_ok s2" and l: "cmd_lookup s2 c n = Some (cb, r)"
    using assms(2) by (simp_all add: reg_steps_ok reg_steps_lookup)
  moreover have "map_of (command_aliases s2) (c @ ''.'' @ n) = None"
    using ok l unfolding registry_ok_def by blast
  ultimately show ?thesis
    using cmd_lookup_split [OF ok l] by (intro get_command_target) auto
qed

lemma registry_example:
  "\<exists>s s1 s2. reg_step registry_init s \<and> add_request_command ''c'' ''n'' 5 s = Inr s1
     \<and> reg_step s s1 \<and> reg_step s1 s2 \<and> map_of (command_aliases s2) ''x'' = Some ''c.n''"
proof -
  define s where "s = registry_init\<lparr>categories := [(''c'', mk_category default_access 0 200)]\<rparr>"
  define s1 where "s1 = s\<lparr>categories := [(''c'', (mk_category default_access 0 200)\<lparr>commands := [(''n'', (5, True))]\<rparr>)]\<rparr>"
  have "add_category ''c'' default_access 0 200 registry_init = Inr s"
    by (simp add: add_category_Inr registry_init_def s_def MAX_CATEGORY_LENGTH_def)
  moreover have add: "add_request_command ''c'' ''n'' 5 s = Inr s1"
    by (simp add: add_request_command_def add_command_def check_not_started_def s_def s1_def registry_init_def
        MAX_COMMAND_LENGTH_def mk_category_def upd_category_def)
  moreover have "add_command_alias ''x'' ''c.n'' s1 = Inr (s1\<lparr>command_aliases := [(''x'', ''c.n'')]\<rparr>)"
    by (simp add: add_command_alias_def check_not_started_def s_def s1_def registry_init_def)
  moreover have "map_of (command_aliases (s1\<lparr>command_aliases := [(''x'', ''c.n'')]\<rparr>)) ''x'' = Some ''c.n''" by simp
  ultimately show ?thesis by (blast intro: reg_step.intros)
qed

theorem command_stays_found_witness:
  "\<exists>s s1 s2. reg_step\<^sup>*\<^sup>* registry_init s \<and> add_request_command ''c'' ''n'' 5 s = Inr s1 \<and> reg_step\<^sup>*\<^sup>* s1 s2
     \<and> get_command s2 ''c.n'' = (''c.n'', Some (''c'', (5, True)))"
proof -
  obtain s s1 s2 where *: "reg_step\<^sup>*\<^sup>* registry_init s" "add_request_command ''c'' ''n'' 5 s = Inr s1" "reg_step\<^sup>*\<^sup>* s1 s2"
    using registry_example by blast
  then have "get_command s2 (''c'' @ ''.'' @ ''n'') = (''c'' @ ''.'' @ ''n'', Some (''c'', (5, True)))"
    by (intro command_stays_found) blast+
  with * show ?thesis by auto
qed

text \<open>What \<^verbatim>\<open>get_command\<close> returns. In every registry built by registration calls it finds a
  command exactly when the given name, if it is not too long, resolves (through at most one alias) to
  \<^verbatim>\<open>category.name\<close> of an existing command, and then it returns that command.\<close>

theorem get_command_exact:
  assumes "reg_step\<^sup>*\<^sup>* registry_init s" "length q \<le> MAX_CATEGORY_LENGTH + 1 + MAX_COMMAND_LENGTH"
  shows "get_command s q = (q', Some (c, e)) \<longleftrightarrow>
    (\<exists>n. cmd_lookup s c n = Some e \<and> q' = c @ ''.'' @ n
       \<and> q' = (case map_of (command_aliases s) q of Some t \<Rightarrow> t | None \<Rightarrow> q))"
    (is "?l = ?r")
proof
  show "?l \<Longrightarrow> ?r" by (elim get_command_sound) auto
  show "?r \<Longrightarrow> ?l"
    using get_command_target [OF reg_steps_ok [OF assms(1) registry_init_ok] _ assms(2)] by metis
qed

end
