(* ===== verification/Batch.thy ===== *)
theory Batch
  imports Commands
begin

text \<open>
  Batches of jobs: \<^verbatim>\<open>oxenmq/batch.h\<close>. The functions that are queued for execution are values of
  \<open>task\<close>: a function of the caller by an opaque number, or one of the closures the library itself
  builds around a callback. A value of the result type of a batch is an opaque number as well, and what
  running a task does is the argument \<open>outcome\<close>, a value or an exception. The virtual base class
  \<^verbatim>\<open>detail::Batch\<close> is the interface \<open>batch_iface\<close>, interpreted for \<^verbatim>\<open>Batch<R>\<close>, for \<^verbatim>\<open>Job\<close> and for the
  dispatch between them.
\<close>

section \<open>Data\<close>

datatype task =
    user_task nat
  | reply_task nat bool "string list"
  | connect_success nat connection_id
  | connect_failure nat connection_id string
  | send_failure nat "int option"
  | queue_full nat

datatype completion_fn = user_completion nat | timer_completion int

datatype batch_state = batch_running | batch_complete | batch_done

text \<open>A \<^verbatim>\<open>job_result\<close>: a value (\<open>None\<close> when it is default constructed) and an exception pointer.\<close>

record job_result =
  jr_value :: "nat option"
  jr_exc :: "exn option"

definition jr_default :: job_result where
  "jr_default = \<lparr>jr_value = None, jr_exc = None\<rparr>"

definition jr_get :: "job_result \<Rightarrow> exn + nat option" where
  "jr_get r = (case jr_exc r of Some e \<Rightarrow> Inl e | None \<Rightarrow> Inr (jr_value r))"

record batch_r =
  jobs :: "(task \<times> int) list"
  results :: "job_result list"
  completion :: "completion_fn option"
  jobs_outstanding :: nat
  complete_in_thread :: int
  batch_started :: bool
  tagged_thread_jobs :: bool

definition new_batch :: batch_r where
  "new_batch = \<lparr>jobs = [], results = [], completion = None, jobs_outstanding = 0,
     complete_in_thread = 0, batch_started = False, tagged_thread_jobs = False\<rparr>"

record job_r =
  job_task :: task
  job_thread :: int

text \<open>Decrement and increment of a \<^verbatim>\<open>size_t\<close>.\<close>

definition dec64 :: "nat \<Rightarrow> nat" where
  "dec64 n = (if n = 0 then 2 ^ 64 - 1 else n - 1)"

definition inc64 :: "nat \<Rightarrow> nat" where
  "inc64 n = (n + 1) mod 2 ^ 64"


section \<open>Batches of the caller\<close>

definition batch_check_not_started :: "batch_r \<Rightarrow> unit res" where
  "batch_check_not_started b =
     (if batch_started b
      then Inl (logic_error ''Cannot add jobs or completion function after starting a oxenmq::Batch!'')
      else Inr ())"

text \<open>The private \<^verbatim>\<open>add_job(job, int)\<close> and the public \<^verbatim>\<open>add_job(job, optional<TaggedThreadID>)\<close>.\<close>

definition add_job_in :: "task \<Rightarrow> int \<Rightarrow> batch_r \<Rightarrow> batch_r" where
  "add_job_in f thread_id b =
     b\<lparr>jobs := jobs b @ [(f, thread_id)], results := results b @ [jr_default],
       jobs_outstanding := inc64 (jobs_outstanding b),
       tagged_thread_jobs := (thread_id \<noteq> 0 \<or> tagged_thread_jobs b)\<rparr>"

definition add_job :: "task \<Rightarrow> int option \<Rightarrow> batch_r \<Rightarrow> batch_r res" where
  "add_job f thread b =
     bindE (batch_check_not_started b) (\<lambda>_.
     if thread = Some (-1) then
       Inl (logic_error ''Cannot add a proxy thread batch job -- this makes no sense'')
     else Inr (add_job_in f (case thread of Some t \<Rightarrow> t | None \<Rightarrow> 0) b))"

definition set_completion :: "completion_fn \<Rightarrow> int option \<Rightarrow> batch_r \<Rightarrow> batch_r res" where
  "set_completion f thread b =
     bindE (batch_check_not_started b) (\<lambda>_.
     if completion b \<noteq> None then Inl (logic_error ''Completion function can only be set once'')
     else Inr (b\<lparr>completion := Some f,
                complete_in_thread := (case thread of Some t \<Rightarrow> t | None \<Rightarrow> 0)\<rparr>))"

definition batch_size :: "batch_r \<Rightarrow> nat \<times> bool" where
  "batch_size b = (length (jobs b), tagged_thread_jobs b)"

definition batch_threads :: "batch_r \<Rightarrow> int list" where
  "batch_threads b = map snd (jobs b)"

definition batch_run_job :: "(task \<Rightarrow> exn + nat option) \<Rightarrow> nat \<Rightarrow> batch_r \<Rightarrow> batch_r" where
  "batch_run_job outcome i b =
     b\<lparr>results := (results b)[i := (case outcome (fst (jobs b ! i)) of
         Inr v \<Rightarrow> (results b ! i)\<lparr>jr_value := v\<rparr>
       | Inl e \<Rightarrow> (results b ! i)\<lparr>jr_exc := Some e\<rparr>)]\<rparr>"

definition batch_job_finished :: "batch_r \<Rightarrow> batch_r \<times> batch_state \<times> int" where
  "batch_job_finished b =
     (let b = b\<lparr>jobs_outstanding := dec64 (jobs_outstanding b)\<rparr> in
      if jobs_outstanding b \<noteq> 0 then (b, batch_running, 0)
      else if completion b \<noteq> None then (b, batch_complete, complete_in_thread b)
      else (b, batch_done, 0))"

text \<open>\<^verbatim>\<open>job_completion\<close> hands the completion function the results, which are moved out.\<close>

definition batch_job_completion :: "batch_r \<Rightarrow> (completion_fn \<times> job_result list) option \<times> batch_r" where
  "batch_job_completion b =
     (map_option (\<lambda>f. (f, results b)) (completion b), b\<lparr>results := []\<rparr>)"


section \<open>Single jobs\<close>

definition new_job_in :: "task \<Rightarrow> int \<Rightarrow> job_r" where
  "new_job_in f thread_id = \<lparr>job_task = f, job_thread = thread_id\<rparr>"

definition new_job :: "task \<Rightarrow> int option \<Rightarrow> job_r res" where
  "new_job f thread =
     (if thread = Some (-1) then
        Inl (logic_error ''Cannot add a proxy thread job -- this makes no sense'')
      else Inr (new_job_in f (case thread of Some t \<Rightarrow> t | None \<Rightarrow> 0)))"

definition job_size :: "job_r \<Rightarrow> nat \<times> bool" where
  "job_size j = (1, job_thread j \<noteq> 0)"

definition job_threads :: "job_r \<Rightarrow> int list" where
  "job_threads j = [job_thread j]"

definition job_job_finished :: "job_r \<Rightarrow> job_r \<times> batch_state \<times> int" where
  "job_job_finished j = (j, batch_done, 0)"


section \<open>Virtual dispatch\<close>

datatype batch_obj = BatchObj batch_r | JobObj job_r

fun obj_size :: "batch_obj \<Rightarrow> nat \<times> bool" where
  "obj_size (BatchObj b) = batch_size b"
| "obj_size (JobObj j) = job_size j"

fun obj_threads :: "batch_obj \<Rightarrow> int list" where
  "obj_threads (BatchObj b) = batch_threads b"
| "obj_threads (JobObj j) = job_threads j"

text \<open>\<^verbatim>\<open>Job::run_job\<close> runs its function and swallows every exception.\<close>

fun obj_run_job :: "(task \<Rightarrow> exn + nat option) \<Rightarrow> nat \<Rightarrow> batch_obj \<Rightarrow> batch_obj" where
  "obj_run_job outcome i (BatchObj b) = BatchObj (batch_run_job outcome i b)"
| "obj_run_job outcome i (JobObj j) = JobObj j"

text \<open>The function that \<^verbatim>\<open>run_job(i)\<close> calls.\<close>

fun obj_task :: "nat \<Rightarrow> batch_obj \<Rightarrow> task" where
  "obj_task i (BatchObj b) = fst (jobs b ! i)"
| "obj_task i (JobObj j) = job_task j"

fun obj_job_finished :: "batch_obj \<Rightarrow> batch_obj \<times> batch_state \<times> int" where
  "obj_job_finished (BatchObj b) = (let (b, st, th) = batch_job_finished b in (BatchObj b, st, th))"
| "obj_job_finished (JobObj j) = (let (j, st, th) = job_job_finished j in (JobObj j, st, th))"

fun obj_job_completion :: "batch_obj \<Rightarrow> (completion_fn \<times> job_result list) option \<times> batch_obj" where
  "obj_job_completion (BatchObj b) = (let (c, b) = batch_job_completion b in (c, BatchObj b))"
| "obj_job_completion (JobObj j) = (None, JobObj j)"

text \<open>
  \<^verbatim>\<open>OxenMQ::batch(Batch<R>&&)\<close>: the new object handed to the proxy, and what the move leaves in the
  caller's batch (the vectors and the completion function are moved out, the numbers and flags copied).
\<close>

definition send_batch :: "batch_r \<Rightarrow> (batch_obj \<times> batch_r) res" where
  "send_batch b =
     (if fst (batch_size b) = 0 then Inl (logic_error ''Cannot batch a a job batch with 0 jobs'')
      else Inr (BatchObj b, b\<lparr>jobs := [], results := [], completion := None\<rparr>))"


section \<open>The interface\<close>

text \<open>The results of \<open>n\<close> calls of \<^verbatim>\<open>job_finished\<close>.\<close>

primrec finish_results :: "('b \<Rightarrow> 'b \<times> batch_state \<times> int) \<Rightarrow> nat \<Rightarrow> 'b \<Rightarrow> (batch_state \<times> int) list" where
  "finish_results fin 0 b = []"
| "finish_results fin (Suc n) b = (let (b', r) = fin b in r # finish_results fin n b')"

text \<open>
  What the proxy relies on: one thread per job, the flag says whether any job has a thread of its own,
  and \<^verbatim>\<open>job_finished\<close> counts the jobs down, reporting \<^verbatim>\<open>running\<close> until the last one.
\<close>

locale batch_iface =
  fixes ok :: "'b \<Rightarrow> bool" and size :: "'b \<Rightarrow> nat \<times> bool" and threads :: "'b \<Rightarrow> int list"
    and job_finished :: "'b \<Rightarrow> 'b \<times> batch_state \<times> int"
    and remaining :: "'b \<Rightarrow> nat" and last_status :: "'b \<Rightarrow> batch_state \<times> int"
  assumes threads_length: "ok b \<Longrightarrow> length (threads b) = fst (size b)"
    and size_tagged: "ok b \<Longrightarrow> snd (size b) \<longleftrightarrow> (\<exists>t \<in> set (threads b). t \<noteq> 0)"
    and remaining_le: "ok b \<Longrightarrow> remaining b \<le> fst (size b)"
    and last_not_running: "ok b \<Longrightarrow> fst (last_status b) \<noteq> batch_running"
    and not_last: "ok b \<Longrightarrow> 1 < remaining b \<Longrightarrow> job_finished b = (b', r) \<Longrightarrow>
      ok b' \<and> remaining b' = remaining b - 1 \<and> size b' = size b \<and> threads b' = threads b
      \<and> last_status b' = last_status b \<and> r = (batch_running, 0)"
    and the_last: "ok b \<Longrightarrow> remaining b = 1 \<Longrightarrow> snd (job_finished b) = last_status b"
begin

lemma finish_results_all:
  "ok b \<Longrightarrow> remaining b = Suc n \<Longrightarrow>
    finish_results job_finished (Suc n) b = replicate n (batch_running, 0) @ [last_status b]"
proof (induction n arbitrary: b)
  case 0
  with the_last [of b] show ?case by (simp add: case_prod_beta)
next
  case (Suc n)
  obtain b' r where fin: "job_finished b = (b', r)" by (cases "job_finished b")
  with not_last [of b b' r] Suc have "ok b'" "remaining b' = Suc n" "last_status b' = last_status b"
    "r = (batch_running, 0)"
    by simp_all
  with Suc.IH [of b'] fin show ?case by simp
qed

lemma no_tags: "ok b \<Longrightarrow> \<not> snd (size b) \<Longrightarrow> threads b = replicate (fst (size b)) 0"
  using size_tagged [of b] threads_length [of b] by (intro replicate_eqI) auto

end

definition batch_ok :: "batch_r \<Rightarrow> bool" where
  "batch_ok b \<longleftrightarrow> length (results b) = length (jobs b) \<and> jobs_outstanding b \<le> length (jobs b)
     \<and> length (jobs b) < 2 ^ 64 \<and> (tagged_thread_jobs b \<longleftrightarrow> (\<exists>j \<in> set (jobs b). snd j \<noteq> 0))"

definition batch_last :: "batch_r \<Rightarrow> batch_state \<times> int" where
  "batch_last b = (if completion b \<noteq> None then (batch_complete, complete_in_thread b) else (batch_done, 0))"

fun obj_ok :: "batch_obj \<Rightarrow> bool" where
  "obj_ok (BatchObj b) = batch_ok b"
| "obj_ok (JobObj j) = True"

fun obj_remaining :: "batch_obj \<Rightarrow> nat" where
  "obj_remaining (BatchObj b) = jobs_outstanding b"
| "obj_remaining (JobObj j) = 1"

fun obj_last :: "batch_obj \<Rightarrow> batch_state \<times> int" where
  "obj_last (BatchObj b) = batch_last b"
| "obj_last (JobObj j) = (batch_done, 0)"

lemma dec64_pos [simp]: "0 < n \<Longrightarrow> dec64 n = n - 1"
  by (simp add: dec64_def)

interpretation bi: batch_iface batch_ok batch_size batch_threads batch_job_finished jobs_outstanding batch_last
proof
  fix b b' r
  assume "batch_ok b" "1 < jobs_outstanding b" "batch_job_finished b = (b', r)"
  then have "b' = b\<lparr>jobs_outstanding := jobs_outstanding b - 1\<rparr>" "r = (batch_running, 0)"
    by (simp_all add: batch_job_finished_def Let_def)
  with \<open>batch_ok b\<close> show "batch_ok b' \<and> jobs_outstanding b' = jobs_outstanding b - 1 \<and> batch_size b' = batch_size b
      \<and> batch_threads b' = batch_threads b \<and> batch_last b' = batch_last b \<and> r = (batch_running, 0)"
    by (simp add: batch_ok_def batch_size_def batch_threads_def batch_last_def) linarith
next
  fix b :: batch_r
  assume "jobs_outstanding b = 1"
  then show "snd (batch_job_finished b) = batch_last b"
    by (simp add: batch_job_finished_def batch_last_def Let_def)
next
  fix b
  assume ok: "batch_ok b"
  show "length (batch_threads b) = fst (batch_size b)" by (simp add: batch_threads_def batch_size_def)
  show "snd (batch_size b) \<longleftrightarrow> (\<exists>t \<in> set (batch_threads b). t \<noteq> 0)"
    using ok unfolding batch_ok_def batch_size_def batch_threads_def by auto
  show "jobs_outstanding b \<le> fst (batch_size b)" using ok by (simp add: batch_ok_def batch_size_def)
  show "fst (batch_last b) \<noteq> batch_running" by (simp add: batch_last_def)
qed

interpretation ji: batch_iface "\<lambda>j. True" job_size job_threads job_job_finished "\<lambda>j. 1" "\<lambda>j. (batch_done, 0)"
  by unfold_locales (simp_all add: job_size_def job_threads_def job_job_finished_def)

interpretation oi: batch_iface obj_ok obj_size obj_threads obj_job_finished obj_remaining obj_last
proof
  fix b b' r
  assume *: "obj_ok b" "1 < obj_remaining b" "obj_job_finished b = (b', r)"
  show "obj_ok b' \<and> obj_remaining b' = obj_remaining b - 1 \<and> obj_size b' = obj_size b
      \<and> obj_threads b' = obj_threads b \<and> obj_last b' = obj_last b \<and> r = (batch_running, 0)"
  proof (cases b)
    case (BatchObj x)
    obtain x' r' where x': "batch_job_finished x = (x', r')" by (cases "batch_job_finished x")
    from * BatchObj x' have "b' = BatchObj x'" "r' = r" by (simp_all add: case_prod_beta)
    with * BatchObj bi.not_last [OF _ _ x'] show ?thesis by simp
  qed (use * in simp)
next
  fix b
  assume "obj_ok b" "obj_remaining b = 1"
  then show "snd (obj_job_finished b) = obj_last b"
    using bi.the_last by (cases b) (simp_all add: job_job_finished_def case_prod_beta)
next
  fix b
  assume ok: "obj_ok b"
  show "length (obj_threads b) = fst (obj_size b)"
    using ok bi.threads_length ji.threads_length by (cases b) simp_all
  show "snd (obj_size b) \<longleftrightarrow> (\<exists>t \<in> set (obj_threads b). t \<noteq> 0)"
    using ok bi.size_tagged ji.size_tagged by (cases b) simp_all
  show "obj_remaining b \<le> fst (obj_size b)"
    using ok bi.remaining_le ji.remaining_le by (cases b) simp_all
  show "fst (obj_last b) \<noteq> batch_running"
    using ok bi.last_not_running by (cases b) simp_all
qed


section \<open>Building a batch\<close>

text \<open>A batch as \<open>new_batch\<close>, \<open>add_job\<close> and \<open>set_completion\<close> build it.\<close>

inductive built :: "batch_r \<Rightarrow> bool" where
  new: "built new_batch"
| job: "built b \<Longrightarrow> add_job f t b = Inr b' \<Longrightarrow> length (jobs b') < 2 ^ 64 \<Longrightarrow> built b'"
| compl: "built b \<Longrightarrow> set_completion f t b = Inr b' \<Longrightarrow> built b'"

lemma built_ok: "built b \<Longrightarrow> batch_ok b \<and> jobs_outstanding b = length (jobs b) \<and> results b = replicate (length (jobs b)) jr_default"
proof (induction rule: built.induct)
  case new
  then show ?case by (simp add: batch_ok_def new_batch_def)
next
  case (job b f t b')
  then have "b' = add_job_in f (case t of Some t \<Rightarrow> t | None \<Rightarrow> 0) b"
    by (auto simp: add_job_def bindE_Inr_iff batch_check_not_started_def split: if_splits)
  with job show ?case
    by (auto simp: batch_ok_def add_job_in_def inc64_def replicate_append_same)
next
  case (compl b f t b')
  then have "b' = b\<lparr>completion := Some f, complete_in_thread := (case t of Some t \<Rightarrow> t | None \<Rightarrow> 0)\<rparr>"
    by (auto simp: set_completion_def bindE_Inr_iff batch_check_not_started_def split: if_splits)
  with compl show ?case by (simp add: batch_ok_def)
qed

text \<open>Running the jobs of a batch, in any order.\<close>

definition run_jobs :: "(task \<Rightarrow> exn + nat option) \<Rightarrow> nat list \<Rightarrow> batch_r \<Rightarrow> batch_r" where
  "run_jobs outcome order b = fold (batch_run_job outcome) order b"

lemma batch_run_job_keeps [simp]:
  "jobs (batch_run_job oc i b) = jobs b" "completion (batch_run_job oc i b) = completion b"
  "length (results (batch_run_job oc i b)) = length (results b)"
  "jobs_outstanding (batch_run_job oc i b) = jobs_outstanding b"
  by (simp_all add: batch_run_job_def)

definition job_outcome :: "exn + nat option \<Rightarrow> job_result" where
  "job_outcome r = (case r of Inr v \<Rightarrow> jr_default\<lparr>jr_value := v\<rparr> | Inl e \<Rightarrow> jr_default\<lparr>jr_exc := Some e\<rparr>)"

lemma run_jobs_results:
  assumes "distinct order" "set order \<subseteq> {..<length (results b)}"
    and "\<And>i. i \<in> set order \<Longrightarrow> results b ! i = jr_default"
  shows "results (run_jobs oc order b) = map (\<lambda>i. if i \<in> set order then job_outcome (oc (fst (jobs b ! i)))
      else results b ! i) [0..<length (results b)]"
  using assms
proof (induction order arbitrary: b)
  case Nil
  then show ?case by (simp add: run_jobs_def map_nth)
next
  case (Cons j order)
  let ?b = "batch_run_job oc j b"
  have j: "j < length (results b)" "results b ! j = jr_default" using Cons.prems by auto
  then have rb: "results ?b ! i = (if i = j then job_outcome (oc (fst (jobs b ! j))) else results b ! i)"
    if "i < length (results b)" for i
    using that by (auto simp: batch_run_job_def job_outcome_def nth_list_update split: sum.splits)
  have "results (run_jobs oc order ?b) = map (\<lambda>i. if i \<in> set order then job_outcome (oc (fst (jobs ?b ! i)))
      else results ?b ! i) [0..<length (results ?b)]"
    by (rule Cons.IH) (use Cons.prems rb in \<open>auto simp: subset_iff\<close>)
  also have "\<dots> = map (\<lambda>i. if i \<in> set (j # order) then job_outcome (oc (fst (jobs b ! i)))
      else results b ! i) [0..<length (results b)]"
    using Cons.prems(1) rb by (auto intro!: map_cong)
  finally show ?case by (simp add: run_jobs_def)
qed

section \<open>Properties\<close>

text \<open>C25: a batch finishes exactly once, after its last job, with every result in its place. For a
  batch built by the public functions with \<open>n > 0\<close> jobs, \<^verbatim>\<open>job_finished\<close> answers \<^verbatim>\<open>running\<close> to the first
  \<open>n - 1\<close> calls and \<^verbatim>\<open>complete\<close> or \<^verbatim>\<open>done\<close> (whether or not it has a completion function) to the last; and
  in whatever order the jobs run, the completion function receives at place \<open>i\<close> the value or the exception
  of job \<open>i\<close>.\<close>

theorem batch_lifecycle:
  assumes "built b" "jobs b \<noteq> []" "distinct order" "set order = {..<length (jobs b)}"
  shows "finish_results batch_job_finished (length (jobs b)) b
      = replicate (length (jobs b) - 1) (batch_running, 0)
        @ [if completion b \<noteq> None then (batch_complete, complete_in_thread b) else (batch_done, 0)]
    \<and> fst (batch_job_completion (run_jobs outcome order b))
      = map_option (\<lambda>f. (f, map (\<lambda>j. job_outcome (outcome (fst j))) (jobs b))) (completion b)"
proof -
  note ok = built_ok [OF assms(1)]
  obtain n where n: "length (jobs b) = Suc n" using assms(2) by (cases "jobs b") auto
  with ok have "jobs_outstanding b = Suc n" by simp
  with ok bi.finish_results_all [of b n] n
  have fin: "finish_results batch_job_finished (length (jobs b)) b = replicate n (batch_running, 0) @ [batch_last b]"
    by simp
  have "results (run_jobs outcome order b)
      = map (\<lambda>i. job_outcome (outcome (fst (jobs b ! i)))) [0..<length (jobs b)]"
    using run_jobs_results [of order b outcome] assms(3,4) ok by (simp cong: map_cong)
  also have "\<dots> = map (\<lambda>j. job_outcome (outcome (fst j))) (jobs b)"
    by (rule nth_equalityI) simp_all
  finally have "results (run_jobs outcome order b) = map (\<lambda>j. job_outcome (outcome (fst j))) (jobs b)" .
  moreover have "completion (fold (batch_run_job outcome) is b) = completion b" for "is" b
    by (induction "is" arbitrary: b) simp_all
  ultimately show ?thesis
    using fin n by (simp add: batch_last_def batch_job_completion_def run_jobs_def)
qed

definition example_batch :: batch_r where
  "example_batch = \<lparr>jobs = [(user_task 1, 0), (user_task 2, 3)], results = [jr_default, jr_default],
     completion = Some (user_completion 9), jobs_outstanding = 2, complete_in_thread = -1,
     batch_started = False, tagged_thread_jobs = True\<rparr>"

lemma example_built: "built example_batch"
proof -
  let ?b1 = "add_job_in (user_task 1) 0 new_batch"
  let ?b2 = "add_job_in (user_task 2) 3 ?b1"
  have j: "add_job (user_task 1) None new_batch = Inr ?b1" "add_job (user_task 2) (Some 3) ?b1 = Inr ?b2"
    by (simp_all add: add_job_def batch_check_not_started_def new_batch_def add_job_in_def)
  have c: "set_completion (user_completion 9) (Some (-1)) ?b2 = Inr example_batch"
    by (simp add: set_completion_def batch_check_not_started_def new_batch_def add_job_in_def example_batch_def
        inc64_def jr_default_def)
  have l: "length (jobs ?b1) < 2 ^ 64" "length (jobs ?b2) < 2 ^ 64"
    by (simp_all add: add_job_in_def new_batch_def)
  show ?thesis by (rule built.compl [OF built.job [OF built.job [OF built.new j(1) l(1)] j(2) l(2)] c])
qed

theorem batch_lifecycle_witness:
  "finish_results batch_job_finished 2 example_batch = [(batch_running, 0), (batch_complete, -1)]
   \<and> fst (batch_job_completion (run_jobs (\<lambda>f. if f = user_task 1 then Inr (Some 5) else Inl (runtime_error ''x''))
        [1, 0] example_batch))
     = Some (user_completion 9, [\<lparr>jr_value = Some 5, jr_exc = None\<rparr>, \<lparr>jr_value = None, jr_exc = Some (runtime_error ''x'')\<rparr>])"
proof -
  have "length (jobs example_batch) = 2" "jobs example_batch \<noteq> []" by (simp_all add: example_batch_def)
  moreover have "set [1, 0] = {..<(2::nat)}" by auto
  ultimately show ?thesis
    using batch_lifecycle [OF example_built, of "[1, 0]"
        "\<lambda>f. if f = user_task 1 then Inr (Some 5) else Inl (runtime_error ''x'')"]
    by (simp add: example_batch_def job_outcome_def jr_default_def numeral_2_eq_2)
qed

text \<open>C37: the guard against reusing a batch never fires. \<^verbatim>\<open>Batch::started\<close> is not set when a batch is handed
  to the proxy, so adding a job to the moved-from object succeeds; its count of outstanding jobs still
  includes the jobs moved away, so when all of its own jobs have finished it still answers \<^verbatim>\<open>running\<close>, its
  completion function is never scheduled and the object is never deleted.\<close>

theorem reused_batch_never_finishes:
  assumes "built b" "send_batch b = Inr (obj, b')" "length (jobs b) < 2 ^ 64 - 1"
  shows "\<exists>b''. add_job f None b' = Inr b'' \<and> jobs b'' = [(f, 0)] \<and> (\<exists>obj' b3. send_batch b'' = Inr (obj', b3))
    \<and> finish_results batch_job_finished (length (jobs b'')) b'' = [(batch_running, 0)]"
proof -
  note ok = built_ok [OF assms(1)]
  have "batch_started b = False" using assms(1)
    by (induction rule: built.induct)
      (auto simp: new_batch_def add_job_def add_job_in_def set_completion_def bindE_Inr_iff split: if_splits)
  moreover have b': "b' = b\<lparr>jobs := [], results := [], completion := None\<rparr>" "jobs b \<noteq> []"
    using assms(2) by (auto simp: send_batch_def batch_size_def split: if_splits)
  ultimately have "add_job f None b' = Inr (add_job_in f 0 b')"
    by (simp add: add_job_def batch_check_not_started_def)
  moreover have "jobs_outstanding (add_job_in f 0 b') = Suc (length (jobs b))"
    using ok assms(3) by (simp add: add_job_in_def b' inc64_def)
  then have "finish_results batch_job_finished 1 (add_job_in f 0 b') = [(batch_running, 0)]"
    using b'(2) by (simp add: batch_job_finished_def Let_def)
  ultimately show ?thesis
    by (intro exI [of _ "add_job_in f 0 b'"]) (simp add: add_job_in_def b' send_batch_def batch_size_def)
qed

theorem reused_batch_never_finishes_witness:
  "\<exists>obj b' b''. send_batch example_batch = Inr (obj, b') \<and> add_job (user_task 7) None b' = Inr b''
    \<and> finish_results batch_job_finished (length (jobs b'')) b'' = [(batch_running, 0)]"
proof -
  obtain obj b' where sent: "send_batch example_batch = Inr (obj, b')"
    by (simp add: send_batch_def example_batch_def batch_size_def)
  have "length (jobs example_batch) < 2 ^ 64 - 1" by (simp add: example_batch_def)
  from reused_batch_never_finishes [OF example_built sent this, of "user_task 7"] sent show ?thesis by blast
qed

end
