(* ===== verification/Pool.thy ===== *)
theory Pool
  imports Batch
begin

text \<open>
  The worker pool: \<^verbatim>\<open>oxenmq/worker.cpp\<close>, the queueing functions of \<^verbatim>\<open>oxenmq/jobs.cpp\<close>, \<^verbatim>\<open>run_info::load\<close>
  and the thread settings of \<^verbatim>\<open>oxenmq/oxenmq.cpp\<close>, and the queue processing of \<^verbatim>\<open>oxenmq/proxy.cpp\<close>. The
  record \<open>pool\<close> extends \<open>registry\<close> by the members of \<^verbatim>\<open>OxenMQ\<close> that these functions use. A \<^verbatim>\<open>category&\<close> is the
  name of the category, a \<^verbatim>\<open>Batch*\<close> is an address of the store \<open>heap\<close>, a \<^verbatim>\<open>std::thread\<close> is the flag
  whether it is joinable, and the messages the proxy writes to \<^verbatim>\<open>workers_socket\<close> are the list
  \<open>to_workers\<close>, oldest first. Vectors that are accessed by index are lists; the lemmas of \<open>Pool_Inv\<close>
  show that every index is within bounds.
\<close>

section \<open>Data\<close>

type_synonym batch_job = "nat \<times> int"

text \<open>The variant \<^verbatim>\<open>run_info::to_run\<close>; a default-constructed one is the null pointer to a command.\<close>

datatype to_run = run_null | run_command command_entry | run_batch nat | run_injected "nat option"

record run_info =
  is_batch_job :: bool
  is_reply_job :: bool
  is_tagged_thread_job :: bool
  is_injected :: bool
  ri_cat :: string
  ri_command :: string
  ri_conn :: connection_id
  ri_access :: access
  ri_remote :: string
  ri_conn_route :: string
  ri_data_parts :: "string list"
  batch_jobno :: int
  to_run :: to_run
  joinable :: bool
  worker_id :: nat
  worker_routing_id :: string
  worker_routing_name :: string

datatype pending_callback = pending_cmd command_entry | pending_fn nat

record pending_command =
  pc_cat :: string
  pc_command :: string
  pc_data_parts :: "string list"
  pc_callback :: pending_callback
  pc_conn :: connection_id
  pc_access :: access
  pc_remote :: string

record injected_task =
  inj_cat :: string
  inj_command :: string
  inj_remote :: string
  inj_callback :: nat

record tagged_worker =
  tw_run :: run_info
  tw_busy :: bool
  tw_queue :: "batch_job list"

record pool = registry +
  general_workers :: int
  max_workers :: int
  batch_jobs_reserved :: int
  reply_jobs_reserved :: int
  batch_jobs_active :: int
  reply_jobs_active :: int
  batch_jobs :: "batch_job list"
  reply_jobs :: "batch_job list"
  pending_commands :: "pending_command list"
  workers :: "run_info list"
  worker_sockets :: nat
  idle_workers :: "nat list"
  idle_worker_count :: nat
  tagged_workers :: "tagged_worker list"
  proxy_skip_one_poll :: bool
  heap :: "nat \<Rightarrow> batch_obj option"
  next_ptr :: nat
  to_workers :: "(string \<times> string) list"

definition active_workers :: "'a pool_scheme \<Rightarrow> int" where
  "active_workers s = int (length (workers s)) - int (idle_worker_count s)"

text \<open>The routing identity of a worker: a letter and the four bytes of its number (little endian).\<close>

definition le_u32 :: "nat \<Rightarrow> string" where
  "le_u32 n = map (\<lambda>i. char_of (n div 256 ^ i mod 256)) [0, 1, 2, 3]"

definition routing_id :: "char \<Rightarrow> nat \<Rightarrow> string" where
  "routing_id c n = c # le_u32 n"

definition new_run_info :: "char \<Rightarrow> nat \<Rightarrow> run_info" where
  "new_run_info c n = \<lparr>is_batch_job = False, is_reply_job = False, is_tagged_thread_job = False,
     is_injected = False, ri_cat = [], ri_command = [], ri_conn = default_conn, ri_access = default_access,
     ri_remote = [], ri_conn_route = [], ri_data_parts = [], batch_jobno = 0, to_run = run_null,
     joinable = False, worker_id = n, worker_routing_id = routing_id c n,
     worker_routing_name = c # to_dec n\<rparr>"


section \<open>Loading a job\<close>

definition run_reset :: "run_info \<Rightarrow> run_info" where
  "run_reset r = r\<lparr>is_batch_job := False, is_reply_job := False, is_tagged_thread_job := False,
     is_injected := False\<rparr>"

definition load_command :: "string \<Rightarrow> string \<Rightarrow> connection_id \<Rightarrow> access \<Rightarrow> string \<Rightarrow> string list \<Rightarrow>
    command_entry \<Rightarrow> run_info \<Rightarrow> run_info" where
  "load_command cat command conn acc remote data_parts callback r =
     (run_reset r)\<lparr>ri_cat := cat, ri_command := command, ri_conn := conn, ri_access := acc,
       ri_remote := remote, ri_data_parts := data_parts, to_run := run_command callback\<rparr>"

definition load_injected :: "string \<Rightarrow> string \<Rightarrow> string \<Rightarrow> nat \<Rightarrow> run_info \<Rightarrow> run_info" where
  "load_injected cat command remote callback r =
     (run_reset r)\<lparr>is_injected := True, ri_cat := cat, ri_command := command, ri_conn := default_conn,
       ri_access := default_access, ri_remote := remote, to_run := run_injected (Some callback)\<rparr>"

definition load_pending :: "pending_command \<Rightarrow> run_info \<Rightarrow> run_info" where
  "load_pending p r =
     (case pc_callback p of
        pending_fn f \<Rightarrow> load_injected (pc_cat p) (pc_command p) (pc_remote p) f r
      | pending_cmd cb \<Rightarrow> load_command (pc_cat p) (pc_command p) (pc_conn p) (pc_access p) (pc_remote p)
          (pc_data_parts p) cb r)"

definition load_batch :: "batch_job \<Rightarrow> bool \<Rightarrow> int \<Rightarrow> run_info \<Rightarrow> run_info" where
  "load_batch bj reply tagged r =
     (run_reset r)\<lparr>is_batch_job := True, is_reply_job := reply, is_tagged_thread_job := 0 < tagged,
       batch_jobno := snd bj, to_run := run_batch (fst bj)\<rparr>"


section \<open>Starting a worker\<close>

definition get_idle_worker :: "'a pool_scheme \<Rightarrow> nat \<times> 'a pool_scheme" where
  "get_idle_worker s =
     (if idle_worker_count s = 0 then
        (let i = length (workers s) in (i, s\<lparr>workers := workers s @ [new_run_info CHR ''w'' i]\<rparr>))
      else
        (let n = idle_worker_count s - 1 in (idle_workers s ! n, s\<lparr>idle_worker_count := n\<rparr>)))"

text \<open>\<^verbatim>\<open>proxy_run_worker\<close>: the thread is created, or the waiting thread is told to run.\<close>

definition proxy_run_worker :: "run_info \<Rightarrow> (string \<times> string) list \<Rightarrow> run_info \<times> (string \<times> string) list" where
  "proxy_run_worker r msgs =
     (if \<not> joinable r then (r\<lparr>joinable := True\<rparr>, msgs)
      else (r, msgs @ [(worker_routing_id r, ''RUN'')]))"

text \<open>\<^verbatim>\<open>proxy_run_worker(get_idle_worker().load(...))\<close>, with the loading as an argument.\<close>

definition start_worker :: "(run_info \<Rightarrow> run_info) \<Rightarrow> 'a pool_scheme \<Rightarrow> 'a pool_scheme" where
  "start_worker load s =
     (let (i, s) = get_idle_worker s;
          (r, msgs) = proxy_run_worker (load (workers s ! i)) (to_workers s)
      in s\<lparr>workers := (workers s)[i := r], to_workers := msgs\<rparr>)"


section \<open>Queueing jobs\<close>

definition alloc :: "batch_obj \<Rightarrow> 'a pool_scheme \<Rightarrow> nat \<times> 'a pool_scheme" where
  "alloc b s = (next_ptr s, s\<lparr>heap := (heap s)(next_ptr s \<mapsto> b), next_ptr := next_ptr s + 1\<rparr>)"

definition push_tagged :: "nat \<Rightarrow> batch_job \<Rightarrow> 'a pool_scheme \<Rightarrow> 'a pool_scheme" where
  "push_tagged i bj s =
     s\<lparr>tagged_workers := (tagged_workers s)[i := (tagged_workers s ! i)\<lparr>tw_queue := tw_queue (tagged_workers s ! i) @ [bj]\<rparr>]\<rparr>"

text \<open>The queue of a thread: a tagged worker's for a positive number, the batch queue otherwise.\<close>

definition push_job :: "int \<Rightarrow> batch_job \<Rightarrow> 'a pool_scheme \<Rightarrow> 'a pool_scheme" where
  "push_job thread bj s =
     (if 0 < thread then push_tagged (nat (thread - 1)) bj s else s\<lparr>batch_jobs := batch_jobs s @ [bj]\<rparr>)"

definition proxy_batch :: "nat \<Rightarrow> 'a pool_scheme \<Rightarrow> 'a pool_scheme" where
  "proxy_batch ptr s =
     (case heap s ptr of
        None \<Rightarrow> s
      | Some b \<Rightarrow>
          (let (n, tagged) = obj_size b;
               s = (if \<not> tagged then s\<lparr>batch_jobs := batch_jobs s @ map (\<lambda>i. (ptr, int i)) [0..<n]\<rparr>
                    else fold (\<lambda>i. push_job (obj_threads b ! i) (ptr, int i)) [0..<n] s)
           in s\<lparr>proxy_skip_one_poll := True\<rparr>))"

definition proxy_schedule_reply_job :: "task \<Rightarrow> 'a pool_scheme \<Rightarrow> 'a pool_scheme" where
  "proxy_schedule_reply_job f s =
     (let (ptr, s) = alloc (JobObj (new_job_in f 0)) s
      in s\<lparr>reply_jobs := reply_jobs s @ [(ptr, 0)], proxy_skip_one_poll := True\<rparr>)"

text \<open>
  \<^verbatim>\<open>proxy_run_batch_jobs\<close> is called with the members for batch jobs or with those for reply jobs, which the
  flag \<open>reply\<close> selects.
\<close>

definition job_queue :: "bool \<Rightarrow> 'a pool_scheme \<Rightarrow> batch_job list" where
  "job_queue reply s = (if reply then reply_jobs s else batch_jobs s)"

definition jobs_reserved :: "bool \<Rightarrow> 'a pool_scheme \<Rightarrow> int" where
  "jobs_reserved reply s = (if reply then reply_jobs_reserved s else batch_jobs_reserved s)"

definition jobs_active :: "bool \<Rightarrow> 'a pool_scheme \<Rightarrow> int" where
  "jobs_active reply s = (if reply then reply_jobs_active s else batch_jobs_active s)"

definition pop_job :: "bool \<Rightarrow> 'a pool_scheme \<Rightarrow> 'a pool_scheme" where
  "pop_job reply s =
     (if reply then s\<lparr>reply_jobs := tl (reply_jobs s), reply_jobs_active := reply_jobs_active s + 1\<rparr>
      else s\<lparr>batch_jobs := tl (batch_jobs s), batch_jobs_active := batch_jobs_active s + 1\<rparr>)"

definition run_batch_job :: "bool \<Rightarrow> 'a pool_scheme \<Rightarrow> 'a pool_scheme" where
  "run_batch_job reply s = pop_job reply (start_worker (load_batch (hd (job_queue reply s)) reply 0) s)"

lemma start_worker_queues [simp]:
  "batch_jobs (start_worker f s) = batch_jobs s" "reply_jobs (start_worker f s) = reply_jobs s"
  by (simp_all add: start_worker_def get_idle_worker_def Let_def split: prod.splits if_splits)

lemma job_queue_run [simp]: "job_queue reply (run_batch_job reply s) = tl (job_queue reply s)"
  by (simp add: run_batch_job_def job_queue_def pop_job_def)

function proxy_run_batch_jobs :: "bool \<Rightarrow> 'a pool_scheme \<Rightarrow> 'a pool_scheme" where
  "proxy_run_batch_jobs reply s =
     (if job_queue reply s \<noteq> [] \<and> active_workers s < max_workers s
         \<and> (jobs_active reply s < jobs_reserved reply s \<or> active_workers s < general_workers s)
      then proxy_run_batch_jobs reply (run_batch_job reply s) else s)"
  by pat_completeness auto
termination
  by (relation "measure (\<lambda>(reply, s). length (job_queue reply s))") auto

declare proxy_run_batch_jobs.simps [simp del]


section \<open>Commands\<close>

text \<open>Decrement and increment of an \<^verbatim>\<open>unsigned int\<close>.\<close>

definition dec32 :: "nat \<Rightarrow> nat" where
  "dec32 n = (if n = 0 then 2 ^ 32 - 1 else n - 1)"

definition inc32 :: "nat \<Rightarrow> nat" where
  "inc32 n = (n + 1) mod 2 ^ 32"

definition get_category :: "string \<Rightarrow> 'a pool_scheme \<Rightarrow> category" where
  "get_category n s = (case map_of (categories s) n of Some c \<Rightarrow> c | None \<Rightarrow> mk_category default_access 0 0)"

definition on_category :: "string \<Rightarrow> (category \<Rightarrow> category) \<Rightarrow> 'a pool_scheme \<Rightarrow> 'a pool_scheme" where
  "on_category n f s = s\<lparr>categories := upd_category n f (categories s)\<rparr>"

text \<open>No free reserved or general spot for a command of this category.\<close>

definition no_free_worker :: "string \<Rightarrow> 'a pool_scheme \<Rightarrow> bool" where
  "no_free_worker n s \<longleftrightarrow> reserved_threads (get_category n s) \<le> active_threads (get_category n s)
     \<and> general_workers s \<le> active_workers s"

definition queue_is_full :: "string \<Rightarrow> 'a pool_scheme \<Rightarrow> bool" where
  "queue_is_full n s \<longleftrightarrow> 0 \<le> max_queue (get_category n s) \<and> max_queue (get_category n s) \<le> queued (get_category n s)"

definition enqueue_pending :: "pending_command \<Rightarrow> 'a pool_scheme \<Rightarrow> 'a pool_scheme" where
  "enqueue_pending p s =
     on_category (pc_cat p) (\<lambda>c. c\<lparr>queued := queued c + 1\<rparr>) (s\<lparr>pending_commands := pending_commands s @ [p]\<rparr>)"

text \<open>
  The second half of \<^verbatim>\<open>proxy_to_worker\<close>, once the peer and the command are known and allowed: queue the
  command, drop it, or hand it to a worker. The identifier \<open>conn\<close> is the same for a queued and
  for a running command. The result says whether the command was handed to a worker.
\<close>

definition dispatch_command :: "string \<Rightarrow> string \<Rightarrow> string list \<Rightarrow> command_entry \<Rightarrow> connection_id \<Rightarrow>
    access \<Rightarrow> string \<Rightarrow> 'a pool_scheme \<Rightarrow> bool \<times> 'a pool_scheme" where
  "dispatch_command cat command data_parts callback conn acc remote s =
     (if no_free_worker cat s then
        (if queue_is_full cat s then (False, s)
         else (False, enqueue_pending \<lparr>pc_cat = cat, pc_command = command, pc_data_parts = data_parts,
                 pc_callback = pending_cmd callback, pc_conn = conn, pc_access = acc, pc_remote = remote\<rparr> s))
      else if snd callback \<and> data_parts = [] then (False, s)
      else (True, on_category cat (\<lambda>c. c\<lparr>active_threads := inc32 (active_threads c)\<rparr>)
              (start_worker (load_command cat command conn acc remote data_parts callback) s)))"

definition proxy_inject_task :: "injected_task \<Rightarrow> 'a pool_scheme \<Rightarrow> 'a pool_scheme" where
  "proxy_inject_task t s =
     (if no_free_worker (inj_cat t) s then
        (if queue_is_full (inj_cat t) s then s
         else enqueue_pending \<lparr>pc_cat = inj_cat t, pc_command = inj_command t, pc_data_parts = [],
                pc_callback = pending_fn (inj_callback t), pc_conn = default_conn,
                pc_access = default_access, pc_remote = inj_remote t\<rparr> s)
      else on_category (inj_cat t) (\<lambda>c. c\<lparr>active_threads := inc32 (active_threads c)\<rparr>)
             (start_worker (load_injected (inj_cat t) (inj_command t) (inj_remote t) (inj_callback t)) s))"

text \<open>\<^verbatim>\<open>inject_task\<close>, the calling side: the task that the \<^verbatim>\<open>INJECT\<close> message carries.\<close>

definition inject_task :: "string \<Rightarrow> string \<Rightarrow> string \<Rightarrow> nat option \<Rightarrow> 'a pool_scheme \<Rightarrow>
    injected_task option res" where
  "inject_task cat command remote callback s =
     (case callback of
        None \<Rightarrow> Inr None
      | Some cb \<Rightarrow>
          (case map_of (categories s) cat of
             None \<Rightarrow> Inl (out_of_range (''Invalid category '' @ quoted cat @ '': category does not exist''))
           | Some _ \<Rightarrow> Inr (Some \<lparr>inj_cat = cat, inj_command = command, inj_remote = remote, inj_callback = cb\<rparr>)))"


section \<open>Processing the queues\<close>

definition run_tagged :: "nat \<Rightarrow> 'a pool_scheme \<Rightarrow> 'a pool_scheme" where
  "run_tagged i s =
     (let t = tagged_workers s ! i in
      if \<not> tw_busy t \<and> tw_queue t \<noteq> [] then
        (let (r, msgs) = proxy_run_worker
               (load_batch (hd (tw_queue t)) False (int (worker_id (tw_run t))) (tw_run t)) (to_workers s)
         in s\<lparr>tagged_workers := (tagged_workers s)[i := \<lparr>tw_run = r, tw_busy = True, tw_queue = tl (tw_queue t)\<rparr>],
              to_workers := msgs\<rparr>)
      else s)"

definition run_pending_command :: "pending_command \<Rightarrow> 'a pool_scheme \<Rightarrow> 'a pool_scheme" where
  "run_pending_command p s =
     on_category (pc_cat p) (\<lambda>c. c\<lparr>queued := queued c - 1, active_threads := inc32 (active_threads c)\<rparr>)
       (start_worker (load_pending p) s)"

text \<open>The loop over \<^verbatim>\<open>pending_commands\<close>: the commands that stay queued, and the new state.\<close>

fun run_pending :: "pending_command list \<Rightarrow> 'a pool_scheme \<Rightarrow> pending_command list \<times> 'a pool_scheme" where
  "run_pending [] s = ([], s)"
| "run_pending (p # ps) s =
     (if active_workers s < max_workers s then
        (if active_threads (get_category (pc_cat p) s) < reserved_threads (get_category (pc_cat p) s)
            \<or> active_workers s < general_workers s
         then run_pending ps (run_pending_command p s)
         else (let (kept, s) = run_pending ps s in (p # kept, s)))
      else (p # ps, s))"

definition proxy_process_queue :: "'a pool_scheme \<Rightarrow> 'a pool_scheme" where
  "proxy_process_queue s =
     (if max_workers s = 0 then s
      else
        (let s = fold run_tagged [0..<length (tagged_workers s)] s;
             s = proxy_run_batch_jobs False s;
             s = proxy_run_batch_jobs True s;
             (kept, s) = run_pending (pending_commands s) s
         in s\<lparr>pending_commands := kept\<rparr>))"


section \<open>Messages from workers\<close>

text \<open>
  A batch job is done: the rest of the \<^verbatim>\<open>RAN\<close> branch for batches. The second component of the result is
  the completion function that runs directly in the proxy thread, with its results.
\<close>

definition batch_ran :: "run_info \<Rightarrow> 'a pool_scheme \<Rightarrow> 'a pool_scheme \<times> (completion_fn \<times> job_result list) option" where
  "batch_ran r s =
     (case to_run r of
        run_batch ptr \<Rightarrow>
          (if batch_jobno r = -1 then (s\<lparr>heap := (heap s)(ptr := None)\<rparr>, None)
           else
             (case heap s ptr of
                None \<Rightarrow> (s, None)
              | Some b \<Rightarrow>
                  (let (b, state, thread) = obj_job_finished b; s = s\<lparr>heap := (heap s)(ptr \<mapsto> b)\<rparr> in
                   case state of
                     batch_complete \<Rightarrow>
                       if thread = -1 then
                         (s\<lparr>heap := (heap s)(ptr := None)\<rparr>, fst (obj_job_completion b))
                       else if 0 < thread then (push_tagged (nat (thread - 1)) (ptr, -1) s, None)
                       else if is_reply_job r then (s\<lparr>reply_jobs := reply_jobs s @ [(ptr, -1)]\<rparr>, None)
                       else (s\<lparr>batch_jobs := batch_jobs s @ [(ptr, -1)]\<rparr>, None)
                   | batch_done \<Rightarrow> (s\<lparr>heap := (heap s)(ptr := None)\<rparr>, None)
                   | batch_running \<Rightarrow> (s, None))))
      | _ \<Rightarrow> (s, None))"

text \<open>The bytes after the letter of a routing identity, as the \<^verbatim>\<open>uint32_t\<close> that \<^verbatim>\<open>memcpy\<close> fills.\<close>

definition routing_number :: "string \<Rightarrow> nat" where
  "routing_number route = le_bytes (drop 1 route)"

definition proxy_ran :: "bool \<Rightarrow> nat \<Rightarrow> string \<Rightarrow> 'a pool_scheme \<Rightarrow>
    'a pool_scheme \<times> (completion_fn \<times> job_result list) option" where
  "proxy_ran tagged wid route s =
     (let r = (if tagged then tw_run (tagged_workers s ! (wid - 1)) else workers s ! wid);
          (s, in_proxy) =
            (if is_batch_job r then
               batch_ran r
                 (if tagged then
                    s\<lparr>tagged_workers := (tagged_workers s)[wid - 1 := (tagged_workers s ! (wid - 1))\<lparr>tw_busy := False\<rparr>]\<rparr>
                  else if is_reply_job r then s\<lparr>reply_jobs_active := reply_jobs_active s - 1\<rparr>
                  else s\<lparr>batch_jobs_active := batch_jobs_active s - 1\<rparr>)
             else (on_category (ri_cat r) (\<lambda>c. c\<lparr>active_threads := dec32 (active_threads c)\<rparr>) s, None))
      in (if max_workers s = 0 then s\<lparr>to_workers := to_workers s @ [(route, ''QUIT'')]\<rparr>
          else if \<not> tagged then
            s\<lparr>idle_workers := (idle_workers s)[idle_worker_count s := wid],
              idle_worker_count := idle_worker_count s + 1\<rparr>
          else s, in_proxy))"

definition proxy_worker_message :: "string list \<Rightarrow> 'a pool_scheme \<Rightarrow>
    'a pool_scheme \<times> (completion_fn \<times> job_result list) option" where
  "proxy_worker_message parts s =
     (if length parts \<noteq> 2 then (s, None)
      else
        (let route = parts ! 0; cmd = parts ! 1 in
         if length route \<noteq> 5 \<or> (route ! 0 \<noteq> CHR ''w'' \<and> route ! 0 \<noteq> CHR ''t'') then (s, None)
         else
           (let tagged = (route ! 0 = CHR ''t''); wid = routing_number route in
            if (if tagged then wid = 0 \<or> length (tagged_workers s) < wid else length (workers s) \<le> wid)
            then (s, None)
            else if cmd = ''RAN'' then proxy_ran tagged wid route s
            else if cmd = ''QUITTING'' then
              (if tagged then
                 s\<lparr>tagged_workers := (tagged_workers s)[wid - 1 := (tagged_workers s ! (wid - 1))
                     \<lparr>tw_run := (tw_run (tagged_workers s ! (wid - 1)))\<lparr>joinable := False\<rparr>\<rparr>]\<rparr>
               else s\<lparr>workers := (workers s)[wid := (workers s ! wid)\<lparr>joinable := False\<rparr>]\<rparr>, None)
            else (s, None))))"


section \<open>Configuration, startup and shutdown\<close>

definition set_batch_threads :: "int \<Rightarrow> 'a pool_scheme \<Rightarrow> 'a pool_scheme res" where
  "set_batch_threads threads s =
     (if started s then Inl (logic_error ''Cannot change reserved batch threads after calling `start()`'')
      else if threads < -1 then
        Inl (out_of_range (''Invalid set_batch_threads() value '' @ int_to_string threads))
      else Inr (s\<lparr>batch_jobs_reserved := threads\<rparr>))"

definition set_reply_threads :: "int \<Rightarrow> 'a pool_scheme \<Rightarrow> 'a pool_scheme res" where
  "set_reply_threads threads s =
     (if started s then Inl (logic_error ''Cannot change reserved reply threads after calling `start()`'')
      else if threads < -1 then
        Inl (out_of_range (''Invalid set_reply_threads() value '' @ int_to_string threads))
      else Inr (s\<lparr>reply_jobs_reserved := threads\<rparr>))"

definition set_general_threads :: "int \<Rightarrow> 'a pool_scheme \<Rightarrow> 'a pool_scheme res" where
  "set_general_threads threads s =
     (if started s then Inl (logic_error ''Cannot change general thread count after calling `start()`'')
      else if threads < 1 then
        Inl (out_of_range (''Invalid set_general_threads() value '' @ int_to_string threads
             @ '': general threads must be > 0''))
      else Inr (s\<lparr>general_workers := threads\<rparr>))"

definition add_tagged_thread :: "string \<Rightarrow> 'a pool_scheme \<Rightarrow> (int \<times> 'a pool_scheme) res" where
  "add_tagged_thread name s =
     (if started s then Inl (logic_error ''Cannot add tagged threads after calling `start()`'')
      else if name = ''_proxy'' \<or> name = [] \<or> find_char (CHR 0x00) name \<noteq> None then
        Inl (logic_error (''Invalid tagged thread name '' @ quoted name))
      else
        (let n = length (tagged_workers s) + 1
         in Inr (int n, s\<lparr>tagged_workers := tagged_workers s @
               [\<lparr>tw_run = (new_run_info CHR ''t'' n)\<lparr>joinable := True\<rparr>, tw_busy = False, tw_queue = []\<rparr>]\<rparr>)))"

text \<open>
  \<^verbatim>\<open>start()\<close> computes the size of the pool, and \<^verbatim>\<open>proxy_loop_init()\<close> makes room for that many workers.
\<close>

definition size_pool :: "'a pool_scheme \<Rightarrow> 'a pool_scheme" where
  "size_pool s =
     (let s = (if batch_jobs_reserved s < 0
               then s\<lparr>batch_jobs_reserved := (general_workers s + 1) div 2\<rparr> else s);
          s = (if reply_jobs_reserved s < 0
               then s\<lparr>reply_jobs_reserved := (general_workers s + 7) div 8\<rparr> else s)
      in s\<lparr>max_workers := general_workers s + batch_jobs_reserved s + reply_jobs_reserved s
             + (\<Sum>(n, c)\<leftarrow>categories s. int (reserved_threads c))\<rparr>)"

definition init_workers :: "'a pool_scheme \<Rightarrow> 'a pool_scheme res" where
  "init_workers s =
     (let s = s\<lparr>idle_workers := take (nat (max_workers s)) (idle_workers s)
            @ replicate (nat (max_workers s) - length (idle_workers s)) 0\<rparr>
      in if workers s \<noteq> [] \<or> worker_sockets s \<noteq> 0 then
           Inl (logic_error ''Internal error: proxy thread started with active worker threads'')
         else Inr (s\<lparr>worker_sockets := nat (max_workers s)\<rparr>))"

definition start_pool :: "'a pool_scheme \<Rightarrow> 'a pool_scheme res" where
  "start_pool s =
     (if started s then Inl (logic_error ''Cannot call start() multiple times!'')
      else init_workers ((size_pool s)\<lparr>started := True\<rparr>))"

text \<open>The \<^verbatim>\<open>QUIT\<close> control message.\<close>

definition quit_workers :: "'a pool_scheme \<Rightarrow> 'a pool_scheme" where
  "quit_workers s =
     s\<lparr>max_workers := 0,
       to_workers := to_workers s
         @ map (\<lambda>i. (worker_routing_id (workers s ! (idle_workers s ! i)), ''QUIT'')) [0..<idle_worker_count s]
         @ map (\<lambda>t. (worker_routing_id (tw_run t), ''QUIT'')) (filter (\<lambda>t. \<not> tw_busy t) (tagged_workers s)),
       idle_worker_count := 0\<rparr>"

definition all_workers_gone :: "'a pool_scheme \<Rightarrow> bool" where
  "all_workers_gone s \<longleftrightarrow> (\<forall>w \<in> set (workers s). \<not> joinable w) \<and> (\<forall>t \<in> set (tagged_workers s). \<not> joinable (tw_run t))"

end
