(* ===== verification/Pool_Inv.thy ===== *)
theory Pool_Inv
  imports Pool "HOL-Library.Multiset"
begin

text \<open>
  The invariant of the worker pool. The work that the busy workers are loaded with is a multiset
  (\<open>running\<close>), every piece of work is charged to one counter (\<open>kind_of\<close>), and the locale \<open>slots\<close> shows from
  the admission rule alone that the pool never holds more work than it has workers. The invariant
  \<open>pool_inv\<close> says that all counters are exact and all vectors long enough; every operation of \<open>Pool\<close>
  preserves it. The last sections say what processing the queues does and state the properties.
\<close>

section \<open>Running work\<close>

text \<open>What a loaded worker is working on, and the counter that it is charged to.\<close>

datatype work = batch_work batch_job | reply_work batch_job | command_work pending_command

datatype kind = batch_kind | reply_kind | cat_kind string

fun kind_of :: "work \<Rightarrow> kind" where
  "kind_of (batch_work bj) = batch_kind"
| "kind_of (reply_work bj) = reply_kind"
| "kind_of (command_work p) = cat_kind (pc_cat p)"

definition run_ptr :: "run_info \<Rightarrow> nat" where
  "run_ptr r = (case to_run r of run_batch p \<Rightarrow> p | _ \<Rightarrow> 0)"

definition run_callback :: "run_info \<Rightarrow> pending_callback" where
  "run_callback r = (case to_run r of run_command cb \<Rightarrow> pending_cmd cb
     | run_injected (Some f) \<Rightarrow> pending_fn f | _ \<Rightarrow> pending_fn 0)"

definition unload :: "run_info \<Rightarrow> work" where
  "unload r =
     (if is_batch_job r then
        (if is_reply_job r then reply_work else batch_work) (run_ptr r, batch_jobno r)
      else
        command_work \<lparr>pc_cat = ri_cat r, pc_command = ri_command r,
          pc_data_parts = (if is_injected r then [] else ri_data_parts r), pc_callback = run_callback r,
          pc_conn = ri_conn r, pc_access = ri_access r, pc_remote = ri_remote r\<rparr>)"

text \<open>A queued command as \<^verbatim>\<open>pending_command\<close>'s two constructors build it.\<close>

definition pending_ok :: "pending_command \<Rightarrow> bool" where
  "pending_ok p \<longleftrightarrow> (case pc_callback p of pending_cmd cb \<Rightarrow> True
     | pending_fn f \<Rightarrow> pc_data_parts p = [] \<and> pc_conn p = default_conn \<and> pc_access p = default_access)"

lemma unload_load [simp]:
  "unload (load_batch bj False t r) = batch_work bj"
  "unload (load_batch bj True t r) = reply_work bj"
  "pending_ok p \<Longrightarrow> unload (load_pending p r) = command_work p"
  "unload (load_command cat command conn acc remote data cb r) = command_work \<lparr>pc_cat = cat, pc_command = command,
     pc_data_parts = data, pc_callback = pending_cmd cb, pc_conn = conn, pc_access = acc, pc_remote = remote\<rparr>"
  "unload (load_injected cat command remote f r) = command_work \<lparr>pc_cat = cat, pc_command = command,
     pc_data_parts = [], pc_callback = pending_fn f, pc_conn = default_conn, pc_access = default_access,
     pc_remote = remote\<rparr>"
  by (auto simp: unload_def load_batch_def load_pending_def load_command_def load_injected_def run_reset_def
      run_ptr_def run_callback_def pending_ok_def split: pending_callback.splits)

lemma load_keeps [simp]:
  "joinable (load_batch bj b t r) = joinable r" "worker_id (load_batch bj b t r) = worker_id r"
  "worker_routing_id (load_batch bj b t r) = worker_routing_id r"
  "joinable (load_command cat command conn acc remote data cb r) = joinable r"
  "worker_id (load_command cat command conn acc remote data cb r) = worker_id r"
  "worker_routing_id (load_command cat command conn acc remote data cb r) = worker_routing_id r"
  "joinable (load_injected cat command remote f r) = joinable r"
  "worker_id (load_injected cat command remote f r) = worker_id r"
  "worker_routing_id (load_injected cat command remote f r) = worker_routing_id r"
  "joinable (load_pending p r) = joinable r" "worker_id (load_pending p r) = worker_id r"
  "worker_routing_id (load_pending p r) = worker_routing_id r"
  by (simp_all add: load_batch_def load_command_def load_injected_def load_pending_def run_reset_def
      split: pending_callback.splits)

lemma run_worker_keeps [simp]:
  "unload (fst (proxy_run_worker r m)) = unload r" "worker_id (fst (proxy_run_worker r m)) = worker_id r"
  "worker_routing_id (fst (proxy_run_worker r m)) = worker_routing_id r" "joinable (fst (proxy_run_worker r m))"
  by (auto simp: proxy_run_worker_def unload_def run_ptr_def run_callback_def)

definition idle_set :: "'a pool_scheme \<Rightarrow> nat set" where
  "idle_set s = set (take (idle_worker_count s) (idle_workers s))"

definition busy :: "'a pool_scheme \<Rightarrow> nat set" where
  "busy s = {..<length (workers s)} - idle_set s"

definition running :: "'a pool_scheme \<Rightarrow> work multiset" where
  "running s = image_mset (\<lambda>i. unload (workers s ! i)) (mset_set (busy s))"

text \<open>The shape of the pool's vectors.\<close>

definition worker_ok :: "nat \<Rightarrow> run_info \<Rightarrow> bool" where
  "worker_ok i r \<longleftrightarrow> worker_id r = i \<and> worker_routing_id r = routing_id CHR ''w'' i \<and> joinable r
     \<and> (is_batch_job r \<longrightarrow> to_run r = run_batch (run_ptr r))"

definition shape_ok :: "'a pool_scheme \<Rightarrow> bool" where
  "shape_ok s \<longleftrightarrow> idle_worker_count s \<le> length (idle_workers s)
     \<and> distinct (take (idle_worker_count s) (idle_workers s)) \<and> idle_set s \<subseteq> {..<length (workers s)}
     \<and> (\<forall>i < length (workers s). worker_ok i (workers s ! i))"

lemma finite_busy [simp]: "finite (busy s)"
  by (simp add: busy_def)

lemma card_idle: "shape_ok s \<Longrightarrow> card (idle_set s) = idle_worker_count s"
  by (simp add: shape_ok_def idle_set_def distinct_card)

lemma active_workers_busy: "shape_ok s \<Longrightarrow> active_workers s = int (card (busy s))"
proof -
  assume ok: "shape_ok s"
  then have "idle_set s \<subseteq> {..<length (workers s)}" by (simp add: shape_ok_def)
  then have "card (busy s) = length (workers s) - idle_worker_count s"
    and "idle_worker_count s \<le> length (workers s)"
    using card_idle [OF ok] card_mono [of "{..<length (workers s)}" "idle_set s"]
    by (simp_all add: busy_def card_Diff_subset idle_set_def)
  then show ?thesis by (simp add: active_workers_def of_nat_diff)
qed

lemma active_workers_running: "shape_ok s \<Longrightarrow> active_workers s = int (size (running s))"
  by (simp add: active_workers_busy running_def)

text \<open>A way of loading a worker with some work: it overwrites the job and keeps the thread.\<close>

definition loads :: "(run_info \<Rightarrow> run_info) \<Rightarrow> work \<Rightarrow> bool" where
  "loads f w \<longleftrightarrow> (\<forall>r. joinable (f r) = joinable r \<and> worker_id (f r) = worker_id r
     \<and> worker_routing_id (f r) = worker_routing_id r \<and> unload (f r) = w
     \<and> (is_batch_job (f r) \<longrightarrow> to_run (f r) = run_batch (run_ptr (f r))))"

lemma load_batch_run [simp]:
  "is_batch_job (load_batch bj b t r) \<longrightarrow> to_run (load_batch bj b t r) = run_batch (run_ptr (load_batch bj b t r))"
  "\<not> is_batch_job (load_command cat command conn acc remote data cb r)"
  "\<not> is_batch_job (load_injected cat command remote f r)" "\<not> is_batch_job (load_pending p r)"
  by (simp_all add: load_batch_def load_command_def load_injected_def load_pending_def run_reset_def run_ptr_def
      split: pending_callback.splits)

lemma run_ptr_joinable [simp]: "run_ptr (r\<lparr>joinable := b\<rparr>) = run_ptr r"
  by (simp add: run_ptr_def)

lemma loads_intros [simp]:
  "loads (load_batch bj False t) (batch_work bj)"
  "loads (load_batch bj True t) (reply_work bj)"
  "pending_ok p \<Longrightarrow> loads (load_pending p) (command_work p)"
  "loads (load_command cat command conn acc remote data cb) (command_work \<lparr>pc_cat = cat, pc_command = command,
     pc_data_parts = data, pc_callback = pending_cmd cb, pc_conn = conn, pc_access = acc, pc_remote = remote\<rparr>)"
  "loads (load_injected cat command remote f) (command_work \<lparr>pc_cat = cat, pc_command = command,
     pc_data_parts = [], pc_callback = pending_fn f, pc_conn = default_conn, pc_access = default_access,
     pc_remote = remote\<rparr>)"
  by (simp_all add: loads_def)

lemma start_worker_new:
  assumes "idle_worker_count s = 0" "loads f w"
  shows "start_worker f s = s\<lparr>workers := workers s @ [(f (new_run_info CHR ''w'' (length (workers s))))\<lparr>joinable := True\<rparr>]\<rparr>"
  using assms by (simp add: start_worker_def get_idle_worker_def Let_def proxy_run_worker_def loads_def new_run_info_def)

lemma start_worker_idle:
  assumes "idle_worker_count s = Suc n" "idle_workers s ! n = i" "joinable (workers s ! i)" "loads f w"
  shows "start_worker f s = s\<lparr>workers := (workers s)[i := f (workers s ! i)], idle_worker_count := n,
     to_workers := to_workers s @ [(worker_routing_id (workers s ! i), ''RUN'')]\<rparr>"
  using assms by (simp add: start_worker_def get_idle_worker_def Let_def proxy_run_worker_def loads_def)

lemma unload_joinable [simp]: "unload (r\<lparr>joinable := b\<rparr>) = unload r"
  by (simp add: unload_def run_ptr_def run_callback_def)

lemma running_insert:
  assumes "i \<notin> busy s" "busy s' = insert i (busy s)" "unload (workers s' ! i) = w"
    and "\<And>j. j \<in> busy s \<Longrightarrow> workers s' ! j = workers s ! j"
  shows "running s' = add_mset w (running s)"
proof -
  have "image_mset (\<lambda>j. unload (workers s' ! j)) (mset_set (busy s)) = running s"
    unfolding running_def by (intro image_mset_cong) (simp add: assms(4))
  with assms(1,2,3) show ?thesis by (simp add: running_def)
qed

lemma shape_idle:
  assumes "shape_ok s" "idle_worker_count s = Suc n"
  shows "idle_workers s ! n \<in> idle_set s" "idle_workers s ! n \<notin> set (take n (idle_workers s))"
    "n < length (idle_workers s)" "idle_set s = insert (idle_workers s ! n) (set (take n (idle_workers s)))"
    "distinct (take n (idle_workers s))"
proof -
  show n: "n < length (idle_workers s)" using assms by (simp add: shape_ok_def)
  then have t: "take (Suc n) (idle_workers s) = take n (idle_workers s) @ [idle_workers s ! n]"
    by (rule take_Suc_conv_app_nth)
  with assms show "idle_workers s ! n \<in> idle_set s" "idle_workers s ! n \<notin> set (take n (idle_workers s))"
    "idle_set s = insert (idle_workers s ! n) (set (take n (idle_workers s)))" "distinct (take n (idle_workers s))"
    by (simp_all add: shape_ok_def idle_set_def)
qed

text \<open>
  Starting a worker makes exactly one more worker busy, with the work it was loaded with, and keeps the
  shape of the pool.
\<close>

lemma start_worker_effect:
  assumes ok: "shape_ok s" and f: "loads f w"
  shows "shape_ok (start_worker f s) \<and> running (start_worker f s) = add_mset w (running s)
    \<and> length (workers (start_worker f s)) = (if idle_worker_count s = 0 then length (workers s) + 1 else length (workers s))"
proof (cases "idle_worker_count s")
  case 0
  let ?s = "start_worker f s" and ?n = "length (workers s)"
  note eq = start_worker_new [OF 0 f]
  have idle: "idle_set s = {}" by (simp add: idle_set_def 0)
  have b: "busy s = {..<?n}" "busy ?s = {..<Suc ?n}" by (simp_all add: busy_def eq idle_set_def 0)
  have "worker_ok i (workers ?s ! i)" if "i < Suc ?n" for i
    using that ok f by (auto simp: eq nth_append shape_ok_def worker_ok_def loads_def new_run_info_def less_Suc_eq)
  then have "shape_ok ?s" using ok by (simp add: shape_ok_def eq idle_set_def 0)
  moreover have "running ?s = add_mset w (running s)"
  proof (rule running_insert [of ?n])
    show "?n \<notin> busy s" "busy ?s = insert ?n (busy s)" by (simp_all add: b lessThan_Suc)
    show "unload (workers ?s ! ?n) = w" using f by (simp add: eq loads_def)
    show "\<And>j. j \<in> busy s \<Longrightarrow> workers ?s ! j = workers s ! j" by (simp add: b(1) eq nth_append)
  qed
  ultimately show ?thesis by (simp add: eq 0)
next
  case (Suc n)
  let ?s = "start_worker f s"
  define i where "i = idle_workers s ! n"
  note idle = shape_idle [OF ok Suc, folded i_def]
  have i: "i < length (workers s)" using idle(1) ok by (auto simp: shape_ok_def)
  then have j: "joinable (workers s ! i)" using ok by (simp add: shape_ok_def worker_ok_def)
  note eq = start_worker_idle [OF Suc i_def [symmetric] j f]
  have b: "i \<notin> busy s" "busy ?s = insert i (busy s)"
    using idle i by (auto simp: busy_def eq idle_set_def)
  have "worker_ok k (workers ?s ! k)" if "k < length (workers s)" for k
    using that ok f by (cases "k = i") (auto simp: eq shape_ok_def worker_ok_def loads_def)
  moreover have "set (take n (idle_workers s)) \<subseteq> {..<length (workers s)}"
    using ok idle(4) by (simp add: shape_ok_def)
  ultimately have "shape_ok ?s" using idle(3,5) by (simp add: shape_ok_def eq idle_set_def)
  moreover have "running ?s = add_mset w (running s)"
  proof (rule running_insert [OF b])
    show "unload (workers ?s ! i) = w" using i f by (simp add: eq loads_def)
    show "\<And>j. j \<in> busy s \<Longrightarrow> workers ?s ! j = workers s ! j" using b(1) by (simp add: eq) (metis nth_list_update_neq)
  qed
  ultimately show ?thesis by (simp add: eq Suc)
qed

text \<open>What \<open>start_worker\<close> leaves alone.\<close>

lemma start_worker_keeps [simp]:
  "categories (start_worker f s) = categories s" "general_workers (start_worker f s) = general_workers s"
  "max_workers (start_worker f s) = max_workers s" "batch_jobs_reserved (start_worker f s) = batch_jobs_reserved s"
  "reply_jobs_reserved (start_worker f s) = reply_jobs_reserved s"
  "batch_jobs_active (start_worker f s) = batch_jobs_active s"
  "reply_jobs_active (start_worker f s) = reply_jobs_active s"
  "pending_commands (start_worker f s) = pending_commands s" "worker_sockets (start_worker f s) = worker_sockets s"
  "idle_workers (start_worker f s) = idle_workers s" "tagged_workers (start_worker f s) = tagged_workers s"
  "heap (start_worker f s) = heap s" "next_ptr (start_worker f s) = next_ptr s"
  "get_category n (start_worker f s) = get_category n s"
  by (simp_all add: start_worker_def get_idle_worker_def Let_def get_category_def split: prod.splits if_splits)


section \<open>Slots\<close>

text \<open>
  The admission rule of the pool, on its own: some slots are general, others reserved for one kind of
  work, and a piece of work is admitted when its kind has a reserved slot left or when fewer pieces than
  there are general slots are running at all. Then the work beyond the reservations never exceeds the
  general slots, so that the total never exceeds the capacity.
\<close>

locale slots =
  fixes ok :: "'s \<Rightarrow> bool" and general :: "'s \<Rightarrow> int" and kinds :: "'s \<Rightarrow> 'k set"
    and reserved :: "'s \<Rightarrow> 'k \<Rightarrow> int" and load :: "'s \<Rightarrow> 'k multiset"
  assumes finite_kinds: "ok s \<Longrightarrow> finite (kinds s)"
    and load_kinds: "ok s \<Longrightarrow> set_mset (load s) \<subseteq> kinds s"
    and reserved_nonneg: "ok s \<Longrightarrow> k \<in> kinds s \<Longrightarrow> 0 \<le> reserved s k"
begin

definition excess :: "'s \<Rightarrow> int" where
  "excess s = (\<Sum>k\<in>kinds s. max 0 (int (count (load s) k) - reserved s k))"

definition capacity :: "'s \<Rightarrow> int" where
  "capacity s = general s + (\<Sum>k\<in>kinds s. reserved s k)"

definition admits :: "'s \<Rightarrow> 'k \<Rightarrow> bool" where
  "admits s k \<longleftrightarrow> int (count (load s) k) < reserved s k \<or> int (size (load s)) < general s"

lemma size_load: "ok s \<Longrightarrow> int (size (load s)) = (\<Sum>k\<in>kinds s. int (count (load s) k))"
proof -
  assume ok: "ok s"
  have "size (load s) = (\<Sum>k\<in>set_mset (load s). count (load s) k)"
    by (simp add: size_multiset_overloaded_eq)
  also have "\<dots> = (\<Sum>k\<in>kinds s. count (load s) k)"
    using finite_kinds [OF ok] load_kinds [OF ok] by (intro sum.mono_neutral_left) (auto simp: not_in_iff)
  finally show ?thesis by simp
qed

lemma within_capacity:
  assumes "ok s" "excess s \<le> general s"
  shows "int (size (load s)) \<le> capacity s"
proof -
  have "(\<Sum>k\<in>kinds s. int (count (load s) k)) \<le> (\<Sum>k\<in>kinds s. max 0 (int (count (load s) k) - reserved s k) + reserved s k)"
    by (intro sum_mono) simp
  also have "\<dots> = excess s + (\<Sum>k\<in>kinds s. reserved s k)" by (simp add: excess_def sum.distrib)
  finally show ?thesis using assms size_load [of s] by (simp add: capacity_def)
qed

lemma below_capacity:
  assumes "ok s" "excess s \<le> general s" "k \<in> kinds s" "admits s k"
  shows "int (size (load s)) < capacity s"
proof (cases "int (size (load s)) < general s")
  case True
  have "0 \<le> (\<Sum>k\<in>kinds s. reserved s k)" using assms(1) by (intro sum_nonneg reserved_nonneg)
  with True show ?thesis by (simp add: capacity_def)
next
  case False
  with assms(4) have k: "int (count (load s) k) < reserved s k" by (simp add: admits_def)
  have "(\<Sum>k\<in>kinds s. int (count (load s) k)) < (\<Sum>k\<in>kinds s. max 0 (int (count (load s) k) - reserved s k) + reserved s k)"
    using finite_kinds [OF assms(1)] assms(3) k by (intro sum_strict_mono_ex1) (auto intro!: bexI [of _ k])
  also have "\<dots> = excess s + (\<Sum>k\<in>kinds s. reserved s k)" by (simp add: excess_def sum.distrib)
  finally show ?thesis using assms(1,2) size_load [of s] by (simp add: capacity_def)
qed

lemma admit:
  assumes "ok s" "ok s'" "excess s \<le> general s" "admits s k" and k: "k \<in> kinds s"
    and "general s' = general s" "kinds s' = kinds s" "reserved s' = reserved s"
    and load: "load s' = add_mset k (load s)"
  shows "excess s' \<le> general s'"
proof (cases "int (size (load s)) < general s")
  case True
  have "excess s' \<le> (\<Sum>k\<in>kinds s'. int (count (load s') k))"
    unfolding excess_def using reserved_nonneg [OF assms(2)] by (intro sum_mono) simp
  also have "\<dots> = int (size (load s'))" using size_load [OF assms(2)] by simp
  also have "\<dots> \<le> general s" using True by (simp add: load)
  finally show ?thesis using assms(6) by simp
next
  case False
  with assms(4) have "int (count (load s) k) < reserved s k" by (simp add: admits_def)
  then have "max 0 (int (count (load s') j) - reserved s' j) = max 0 (int (count (load s) j) - reserved s j)" for j
    by (cases "j = k") (simp_all add: load assms(8))
  then have "excess s' = excess s" by (simp add: excess_def assms(7))
  with assms(3,6) show ?thesis by simp
qed

lemma release:
  assumes "kinds s' = kinds s" "reserved s' = reserved s" "load s' \<subseteq># load s"
  shows "excess s' \<le> excess s"
  unfolding excess_def assms using mset_subset_eq_count [OF assms(3)] by (intro sum_mono) (simp add: max.coboundedI2)

lemma not_admits_mono:
  assumes "\<not> admits s k" "general s' = general s" "reserved s' = reserved s" "load s \<subseteq># load s'"
  shows "\<not> admits s' k"
  using assms mset_subset_eq_count [OF assms(4), of k] size_mset_mono [OF assms(4)] by (auto simp: admits_def)

end


section \<open>The invariant of the pool\<close>

definition kinds :: "'a pool_scheme \<Rightarrow> kind set" where
  "kinds s = {batch_kind, reply_kind} \<union> cat_kind ` fst ` set (categories s)"

fun reserved :: "'a pool_scheme \<Rightarrow> kind \<Rightarrow> int" where
  "reserved s batch_kind = batch_jobs_reserved s"
| "reserved s reply_kind = reply_jobs_reserved s"
| "reserved s (cat_kind n) = int (reserved_threads (get_category n s))"

fun active :: "'a pool_scheme \<Rightarrow> kind \<Rightarrow> int" where
  "active s batch_kind = batch_jobs_active s"
| "active s reply_kind = reply_jobs_active s"
| "active s (cat_kind n) = int (active_threads (get_category n s))"

definition load :: "'a pool_scheme \<Rightarrow> kind multiset" where
  "load s = image_mset kind_of (running s)"

definition pool_ok :: "'a pool_scheme \<Rightarrow> bool" where
  "pool_ok s \<longleftrightarrow> shape_ok s \<and> distinct (map fst (categories s)) \<and> set_mset (load s) \<subseteq> kinds s
     \<and> 0 \<le> batch_jobs_reserved s \<and> 0 \<le> reply_jobs_reserved s"

interpretation sp: slots pool_ok general_workers kinds reserved load
proof
  fix s :: "'a pool_scheme" and k
  assume ok: "pool_ok s"
  show "finite (kinds s)" by (simp add: kinds_def)
  show "set_mset (load s) \<subseteq> kinds s" using ok by (simp add: pool_ok_def)
  show "k \<in> kinds s \<Longrightarrow> 0 \<le> reserved s k" using ok by (cases k) (simp_all add: pool_ok_def)
qed

text \<open>
  The counters are exact, the work beyond the reservations fits into the general slots, and the vectors
  of idle workers and of worker sockets have one entry for every worker there can be.
\<close>

definition core_inv :: "'a pool_scheme \<Rightarrow> bool" where
  "core_inv s \<longleftrightarrow> pool_ok s \<and> 0 < general_workers s \<and> (\<forall>k \<in> kinds s. active s k = int (count (load s) k))
     \<and> sp.excess s \<le> general_workers s \<and> max_workers s = sp.capacity s \<and> max_workers s < 2 ^ 31
     \<and> length (idle_workers s) = nat (max_workers s) \<and> worker_sockets s = nat (max_workers s)
     \<and> length (workers s) \<le> nat (max_workers s)"

definition charge :: "kind \<Rightarrow> 'a pool_scheme \<Rightarrow> 'a pool_scheme" where
  "charge k s = (case k of batch_kind \<Rightarrow> s\<lparr>batch_jobs_active := batch_jobs_active s + 1\<rparr>
     | reply_kind \<Rightarrow> s\<lparr>reply_jobs_active := reply_jobs_active s + 1\<rparr>
     | cat_kind n \<Rightarrow> on_category n (\<lambda>c. c\<lparr>active_threads := inc32 (active_threads c)\<rparr>) s)"

lemma get_category_on [simp]:
  "n \<in> fst ` set (categories s) \<Longrightarrow> get_category m (on_category n f s) = (if m = n then f (get_category n s) else get_category m s)"
  by (auto simp: get_category_def on_category_def map_of_upd_category weak_map_of_SomeI split: option.splits
      dest: map_of_eq_None_iff [THEN iffD1])

lemma names_on [simp]: "map fst (categories (on_category n f s)) = map fst (categories s)"
  "fst ` set (categories (on_category n f s)) = fst ` set (categories s)"
  by (simp_all add: on_category_def flip: set_map)

lemma on_category_keeps [simp]:
  "workers (on_category n f s) = workers s" "idle_workers (on_category n f s) = idle_workers s"
  "idle_worker_count (on_category n f s) = idle_worker_count s" "general_workers (on_category n f s) = general_workers s"
  "max_workers (on_category n f s) = max_workers s" "batch_jobs_reserved (on_category n f s) = batch_jobs_reserved s"
  "reply_jobs_reserved (on_category n f s) = reply_jobs_reserved s" "worker_sockets (on_category n f s) = worker_sockets s"
  "batch_jobs_active (on_category n f s) = batch_jobs_active s" "reply_jobs_active (on_category n f s) = reply_jobs_active s"
  "batch_jobs (on_category n f s) = batch_jobs s" "reply_jobs (on_category n f s) = reply_jobs s"
  "pending_commands (on_category n f s) = pending_commands s" "tagged_workers (on_category n f s) = tagged_workers s"
  "heap (on_category n f s) = heap s" "next_ptr (on_category n f s) = next_ptr s" "to_workers (on_category n f s) = to_workers s"
  by (simp_all add: on_category_def)

lemma get_category_upd [simp]:
  "get_category n (s\<lparr>batch_jobs_active := i\<rparr>) = get_category n s" "get_category n (s\<lparr>reply_jobs_active := i\<rparr>) = get_category n s"
  "get_category n (s\<lparr>batch_jobs := x\<rparr>) = get_category n s" "get_category n (s\<lparr>reply_jobs := x\<rparr>) = get_category n s"
  "get_category n (s\<lparr>pending_commands := y\<rparr>) = get_category n s" "get_category n (s\<lparr>tagged_workers := z\<rparr>) = get_category n s"
  "get_category n (s\<lparr>to_workers := m\<rparr>) = get_category n s" "get_category n (s\<lparr>heap := h\<rparr>) = get_category n s"
  "get_category n (s\<lparr>workers := w\<rparr>) = get_category n s" "get_category n (s\<lparr>idle_workers := l\<rparr>) = get_category n s"
  "get_category n (s\<lparr>idle_worker_count := j\<rparr>) = get_category n s" "get_category n (s\<lparr>max_workers := k\<rparr>) = get_category n s"
  "get_category n (s\<lparr>proxy_skip_one_poll := b\<rparr>) = get_category n s" "get_category n (s\<lparr>next_ptr := p\<rparr>) = get_category n s"
  by (simp_all add: get_category_def)

lemma kinds_simps [simp]:
  "batch_kind \<in> kinds s" "reply_kind \<in> kinds s" "cat_kind n \<in> kinds s \<longleftrightarrow> n \<in> fst ` set (categories s)"
  by (auto simp: kinds_def)

text \<open>Two states with the same workers and the same slots.\<close>

lemma running_cong:
  "workers s' = workers s \<Longrightarrow> idle_workers s' = idle_workers s \<Longrightarrow> idle_worker_count s' = idle_worker_count s \<Longrightarrow>
    running s' = running s \<and> busy s' = busy s \<and> idle_set s' = idle_set s \<and> shape_ok s' = shape_ok s \<and> load s' = load s"
  by (simp add: running_def busy_def idle_set_def shape_ok_def load_def)


lemma core_cong:
  assumes "workers s' = workers s" "idle_workers s' = idle_workers s" "idle_worker_count s' = idle_worker_count s"
    and "general_workers s' = general_workers s" "max_workers s' = max_workers s" "worker_sockets s' = worker_sockets s"
    and "map fst (categories s') = map fst (categories s)"
    and "\<And>k. k \<in> kinds s \<Longrightarrow> reserved s' k = reserved s k" "\<And>k. k \<in> kinds s \<Longrightarrow> active s' k = active s k"
  shows "core_inv s' \<longleftrightarrow> core_inv s"
proof -
  have k: "kinds s' = kinds s" using assms(7) by (simp add: kinds_def flip: set_map)
  have r: "batch_jobs_reserved s' = batch_jobs_reserved s" "reply_jobs_reserved s' = reply_jobs_reserved s"
    using assms(8) [of batch_kind] assms(8) [of reply_kind] by (simp_all add: kinds_def)
  have "pool_ok s' = pool_ok s" using assms(7) running_cong [OF assms(1-3)] by (simp add: pool_ok_def k r)
  moreover have "sp.excess s' = sp.excess s" "sp.capacity s' = sp.capacity s"
    using running_cong [OF assms(1-3)] assms(4,8) by (simp_all add: sp.excess_def sp.capacity_def k)
  ultimately show ?thesis using running_cong [OF assms(1-3)] assms by (simp add: core_inv_def k)
qed

lemma core_queues [simp]:
  "core_inv (s\<lparr>batch_jobs := x\<rparr>) = core_inv s" "core_inv (s\<lparr>reply_jobs := x\<rparr>) = core_inv s"
  "core_inv (s\<lparr>pending_commands := y\<rparr>) = core_inv s" "core_inv (s\<lparr>tagged_workers := z\<rparr>) = core_inv s"
  "core_inv (s\<lparr>to_workers := m\<rparr>) = core_inv s" "core_inv (s\<lparr>heap := h\<rparr>) = core_inv s"
  "core_inv (s\<lparr>proxy_skip_one_poll := b\<rparr>) = core_inv s" "core_inv (s\<lparr>next_ptr := p\<rparr>) = core_inv s"
  by (rule core_cong; (simp; fail | (case_tac k; simp)))+

lemma core_queued [simp]:
  "n \<in> fst ` set (categories s) \<Longrightarrow> core_inv (on_category n (\<lambda>c. c\<lparr>queued := q c\<rparr>) s) = core_inv s"
  by (rule core_cong; (simp; fail | (case_tac k; simp)))

lemma charge_keeps [simp]:
  "workers (charge k s) = workers s" "idle_workers (charge k s) = idle_workers s"
  "idle_worker_count (charge k s) = idle_worker_count s" "general_workers (charge k s) = general_workers s"
  "max_workers (charge k s) = max_workers s" "worker_sockets (charge k s) = worker_sockets s"
  "batch_jobs_reserved (charge k s) = batch_jobs_reserved s" "reply_jobs_reserved (charge k s) = reply_jobs_reserved s"
  "map fst (categories (charge k s)) = map fst (categories s)"
  "fst ` set (categories (charge k s)) = fst ` set (categories s)" "kinds (charge k s) = kinds s"
  "running (charge k s) = running s" "load (charge k s) = load s" "shape_ok (charge k s) = shape_ok s"
  by (simp_all add: charge_def kinds_def running_def load_def shape_ok_def busy_def idle_set_def split: kind.splits)

lemma reserved_charge [simp]: "k \<in> kinds s \<Longrightarrow> reserved (charge k s) = reserved s"
  by (rule ext, rename_tac j, case_tac j; cases k) (simp_all add: charge_def)

lemma active_charge:
  "k \<in> kinds s \<Longrightarrow> active s k < 2 ^ 31 \<Longrightarrow> active (charge k s) j = active s j + (if j = k then 1 else 0)"
  by (cases j; cases k) (simp_all add: charge_def inc32_def)

lemma start_keeps [simp]:
  "kinds (start_worker f s) = kinds s" "reserved (start_worker f s) = reserved s" "active (start_worker f s) = active s"
  by (simp add: kinds_def, (rule ext, case_tac x; simp)+)

lemma core_active_le: "core_inv s \<Longrightarrow> k \<in> kinds s \<Longrightarrow> active s k < 2 ^ 31"
proof -
  assume *: "core_inv s" "k \<in> kinds s"
  then have "active s k = int (count (load s) k)" "int (size (load s)) \<le> max_workers s" "max_workers s < 2 ^ 31"
    using sp.within_capacity [of s] by (simp_all add: core_inv_def)
  moreover have "count (load s) k \<le> size (load s)" by (rule count_le_size)
  ultimately show ?thesis by linarith
qed

text \<open>Admitted work is started within the pool's vectors, and the invariant holds again.\<close>

lemma start_core:
  assumes inv: "core_inv s" and f: "loads f w" and k: "kind_of w \<in> kinds s" and adm: "sp.admits s (kind_of w)"
  shows "core_inv (charge (kind_of w) (start_worker f s))"
proof -
  let ?t = "start_worker f s" let ?s = "charge (kind_of w) ?t"
  have ok: "pool_ok s" and e: "sp.excess s \<le> general_workers s" using inv by (simp_all add: core_inv_def)
  then have sh: "shape_ok s" by (simp add: pool_ok_def)
  note eff = start_worker_effect [OF sh f]
  have l: "load ?t = add_mset (kind_of w) (load s)" using eff by (simp add: load_def)
  have ok': "pool_ok ?s" using ok k l eff by (simp add: pool_ok_def)
  have "sp.excess ?s \<le> general_workers ?s"
    by (rule sp.admit [OF ok ok' e adm k]) (use l k in simp_all)
  moreover have "sp.capacity ?s = sp.capacity s" using k by (simp add: sp.capacity_def)
  moreover have "active ?s j = int (count (load ?s) j)" if "j \<in> kinds s" for j
    using inv that k l core_active_le [OF inv k] by (simp add: active_charge core_inv_def)
  moreover have "length (workers ?s) \<le> nat (max_workers ?s)"
  proof (cases "idle_worker_count s = 0")
    case True
    have "int (size (load s)) < max_workers s"
      using sp.below_capacity [OF ok e k adm] inv by (simp add: core_inv_def)
    moreover have "int (size (load s)) = int (length (workers s))"
      using active_workers_running [OF sh] True by (simp add: load_def active_workers_def)
    ultimately show ?thesis using eff True by simp
  qed (use eff inv in \<open>auto simp: core_inv_def\<close>)
  ultimately show ?thesis using inv ok' k by (simp add: core_inv_def)
qed


lemma admits_iff:
  "core_inv s \<Longrightarrow> k \<in> kinds s \<Longrightarrow> sp.admits s k \<longleftrightarrow> active s k < reserved s k \<or> active_workers s < general_workers s"
  using active_workers_running [of s] by (simp add: sp.admits_def core_inv_def pool_ok_def load_def)

lemma admits_command:
  "core_inv s \<Longrightarrow> n \<in> fst ` set (categories s) \<Longrightarrow> sp.admits s (cat_kind n) \<longleftrightarrow> \<not> no_free_worker n s"
  by (auto simp: admits_iff no_free_worker_def)

lemma admits_below_max:
  "core_inv s \<Longrightarrow> k \<in> kinds s \<Longrightarrow> sp.admits s k \<Longrightarrow> active_workers s < max_workers s"
  using sp.below_capacity [of s k] active_workers_running [of s] by (simp add: core_inv_def pool_ok_def load_def)

text \<open>The queues: every queued command is counted in its category, and the limit is respected.\<close>

definition queue_inv :: "'a pool_scheme \<Rightarrow> bool" where
  "queue_inv s \<longleftrightarrow> (\<forall>p \<in> set (pending_commands s). pending_ok p \<and> pc_cat p \<in> fst ` set (categories s))
     \<and> (\<forall>n \<in> fst ` set (categories s). queued (get_category n s) = int (length (filter (\<lambda>p. pc_cat p = n) (pending_commands s)))
          \<and> (0 \<le> max_queue (get_category n s) \<longrightarrow> queued (get_category n s) \<le> max_queue (get_category n s)))"

definition pool_inv :: "'a pool_scheme \<Rightarrow> bool" where
  "pool_inv s \<longleftrightarrow> core_inv s \<and> queue_inv s"

lemma queue_cong:
  assumes "pending_commands s' = pending_commands s" "map fst (categories s') = map fst (categories s)"
    and "\<And>n. n \<in> fst ` set (categories s) \<Longrightarrow> queued (get_category n s') = queued (get_category n s)
       \<and> max_queue (get_category n s') = max_queue (get_category n s)"
  shows "queue_inv s' \<longleftrightarrow> queue_inv s"
proof -
  have "fst ` set (categories s') = fst ` set (categories s)" using assms(2) by (metis list.set_map)
  with assms show ?thesis by (simp add: queue_inv_def)
qed

lemma queue_start [simp]: "queue_inv (start_worker f s) = queue_inv s"
  by (rule queue_cong) simp_all

lemma queue_upd [simp]:
  "queue_inv (s\<lparr>batch_jobs := x\<rparr>) = queue_inv s" "queue_inv (s\<lparr>reply_jobs := x\<rparr>) = queue_inv s"
  "queue_inv (s\<lparr>tagged_workers := z\<rparr>) = queue_inv s" "queue_inv (s\<lparr>to_workers := m\<rparr>) = queue_inv s"
  "queue_inv (s\<lparr>heap := h\<rparr>) = queue_inv s" "queue_inv (s\<lparr>proxy_skip_one_poll := b\<rparr>) = queue_inv s"
  "queue_inv (s\<lparr>next_ptr := p\<rparr>) = queue_inv s" "queue_inv (s\<lparr>batch_jobs_active := i\<rparr>) = queue_inv s"
  "queue_inv (s\<lparr>reply_jobs_active := i\<rparr>) = queue_inv s" "queue_inv (s\<lparr>idle_workers := l\<rparr>) = queue_inv s"
  "queue_inv (s\<lparr>idle_worker_count := j\<rparr>) = queue_inv s" "queue_inv (s\<lparr>max_workers := k\<rparr>) = queue_inv s"
  by (rule queue_cong; simp)+

lemma queue_active [simp]:
  "n \<in> fst ` set (categories s) \<Longrightarrow> queue_inv (on_category n (\<lambda>c. c\<lparr>active_threads := q c\<rparr>) s) = queue_inv s"
  by (rule queue_cong) auto

lemma queue_charge [simp]: "k \<in> kinds s \<Longrightarrow> queue_inv (charge k s) = queue_inv s"
  by (cases k) (simp_all add: charge_def)

lemma enqueue_inv:
  assumes "pool_inv s" "pending_ok p" "pc_cat p \<in> fst ` set (categories s)" "\<not> queue_is_full (pc_cat p) s"
  shows "pool_inv (enqueue_pending p s)"
proof -
  have "core_inv (enqueue_pending p s)" using assms by (simp add: enqueue_pending_def pool_inv_def)
  moreover have "queue_inv (enqueue_pending p s)"
    using assms by (auto simp: enqueue_pending_def pool_inv_def queue_inv_def queue_is_full_def)
  ultimately show ?thesis by (simp add: pool_inv_def)
qed

lemma start_inv:
  "pool_inv s \<Longrightarrow> loads f w \<Longrightarrow> kind_of w \<in> kinds s \<Longrightarrow> sp.admits s (kind_of w) \<Longrightarrow>
    pool_inv (charge (kind_of w) (start_worker f s))"
  by (simp add: pool_inv_def start_core)

subsection \<open>Commands\<close>

lemma dispatch_command_inv:
  assumes inv: "pool_inv s" and n: "n \<in> fst ` set (categories s)"
  shows "pool_inv (snd (dispatch_command n command data cb conn acc remote s))"
proof (cases "no_free_worker n s")
  case True
  with assms show ?thesis by (simp add: dispatch_command_def pending_ok_def enqueue_inv)
next
  case False
  let ?w = "command_work \<lparr>pc_cat = n, pc_command = command, pc_data_parts = data, pc_callback = pending_cmd cb,
    pc_conn = conn, pc_access = acc, pc_remote = remote\<rparr>"
  have "pool_inv (charge (kind_of ?w) (start_worker (load_command n command conn acc remote data cb) s))"
    using False inv n by (intro start_inv) (simp_all add: admits_command pool_inv_def)
  with False inv show ?thesis by (simp add: dispatch_command_def charge_def)
qed

lemma proxy_inject_task_inv:
  assumes inv: "pool_inv s" and n: "inj_cat t \<in> fst ` set (categories s)"
  shows "pool_inv (proxy_inject_task t s)"
proof (cases "no_free_worker (inj_cat t) s")
  case True
  with assms show ?thesis by (simp add: proxy_inject_task_def pending_ok_def enqueue_inv)
next
  case False
  let ?w = "command_work \<lparr>pc_cat = inj_cat t, pc_command = inj_command t, pc_data_parts = [],
    pc_callback = pending_fn (inj_callback t), pc_conn = default_conn, pc_access = default_access, pc_remote = inj_remote t\<rparr>"
  have "pool_inv (charge (kind_of ?w) (start_worker (load_injected (inj_cat t) (inj_command t) (inj_remote t) (inj_callback t)) s))"
    using False inv n by (intro start_inv) (simp_all add: admits_command pool_inv_def)
  with False show ?thesis by (simp add: proxy_inject_task_def charge_def)
qed

subsection \<open>Batch jobs\<close>

definition job_kind :: "bool \<Rightarrow> kind" where
  "job_kind reply = (if reply then reply_kind else batch_kind)"

definition job_work :: "bool \<Rightarrow> batch_job \<Rightarrow> work" where
  "job_work reply bj = (if reply then reply_work bj else batch_work bj)"

lemma job_work_simps [simp]:
  "kind_of (job_work reply bj) = job_kind reply" "job_kind reply \<in> kinds s"
  "loads (load_batch bj reply t) (job_work reply bj)"
  by (simp_all add: job_work_def job_kind_def)

lemma run_batch_job_charge:
  "run_batch_job reply s =
     (let t = charge (job_kind reply) (start_worker (load_batch (hd (job_queue reply s)) reply 0) s)
      in if reply then t\<lparr>reply_jobs := tl (reply_jobs s)\<rparr> else t\<lparr>batch_jobs := tl (batch_jobs s)\<rparr>)"
  by (simp add: run_batch_job_def pop_job_def charge_def job_kind_def)

lemma run_batch_job_inv: "pool_inv s \<Longrightarrow> sp.admits s (job_kind reply) \<Longrightarrow> pool_inv (run_batch_job reply s)"
  using start_inv [of s "load_batch (hd (job_queue reply s)) reply 0" "job_work reply (hd (job_queue reply s))"]
  by (cases reply) (simp_all add: run_batch_job_charge pool_inv_def)

lemma job_admits:
  "pool_inv s \<Longrightarrow> sp.admits s (job_kind reply) \<longleftrightarrow>
    jobs_active reply s < jobs_reserved reply s \<or> active_workers s < general_workers s"
  by (cases reply) (simp_all add: pool_inv_def admits_iff job_kind_def jobs_active_def jobs_reserved_def)

lemma proxy_run_batch_jobs_inv: "pool_inv s \<Longrightarrow> pool_inv (proxy_run_batch_jobs reply s)"
proof (induction reply s rule: proxy_run_batch_jobs.induct)
  case (1 reply s)
  then show ?case
    by (subst proxy_run_batch_jobs.simps) (simp add: run_batch_job_inv job_admits)
qed

subsection \<open>Queued commands\<close>

lemma run_pending_command_charge:
  assumes "pc_cat p \<in> fst ` set (categories s)"
  shows "run_pending_command p s = on_category (pc_cat p) (\<lambda>c. c\<lparr>queued := queued c - 1\<rparr>)
     (charge (cat_kind (pc_cat p)) (start_worker (load_pending p) s))"
  unfolding run_pending_command_def charge_def kind.case on_category_def upd_category_def
  by (simp add: case_prod_beta comp_def cong: if_cong)

lemma run_pending_command_keeps [simp]:
  "map fst (categories (run_pending_command p s)) = map fst (categories s)"
  "fst ` set (categories (run_pending_command p s)) = fst ` set (categories s)"
  "pending_commands (run_pending_command p s) = pending_commands s"
  "general_workers (run_pending_command p s) = general_workers s"
  "max_workers (run_pending_command p s) = max_workers s"
  by (simp_all add: run_pending_command_def)

lemma run_pending_command_inv:
  assumes inv: "core_inv s" and p: "pending_ok p" "pc_cat p \<in> fst ` set (categories s)"
    and adm: "sp.admits s (cat_kind (pc_cat p))" and q: "queue_inv (s\<lparr>pending_commands := pre @ p # ps\<rparr>)"
  shows "core_inv (run_pending_command p s)" "queue_inv ((run_pending_command p s)\<lparr>pending_commands := pre @ ps\<rparr>)"
proof -
  have "core_inv (charge (kind_of (command_work p)) (start_worker (load_pending p) s))"
    using inv p adm by (intro start_core) simp_all
  then show "core_inv (run_pending_command p s)" using p by (simp add: run_pending_command_charge)
  show "queue_inv ((run_pending_command p s)\<lparr>pending_commands := pre @ ps\<rparr>)"
    using q p by (auto simp: queue_inv_def run_pending_command_def)
qed

lemma run_pending_inv:
  assumes "core_inv s" "queue_inv (s\<lparr>pending_commands := pre @ ps\<rparr>)" "run_pending ps s = (kept, s')"
  shows "core_inv s' \<and> queue_inv (s'\<lparr>pending_commands := pre @ kept\<rparr>)"
  using assms
proof (induction ps s arbitrary: pre kept s' rule: run_pending.induct)
  case (1 s)
  then show ?case by simp
next
  case (2 p ps s)
  have p: "pending_ok p" "pc_cat p \<in> fst ` set (categories s)" using "2.prems"(2) by (simp_all add: queue_inv_def)
  show ?case
  proof (cases "active_workers s < max_workers s")
    case False
    with "2.prems" show ?thesis by simp
  next
    case max: True
    show ?thesis
    proof (cases "active s (cat_kind (pc_cat p)) < reserved s (cat_kind (pc_cat p)) \<or> active_workers s < general_workers s")
      case True
      then have "sp.admits s (cat_kind (pc_cat p))" using "2.prems"(1) p by (simp add: admits_iff)
      note r = run_pending_command_inv [OF "2.prems"(1) p this "2.prems"(2)]
      show ?thesis using "2.IH"(1) [OF max _ r] True max "2.prems"(3) by simp
    next
      case False
      then obtain kept' where k: "run_pending ps s = (kept', s')" "kept = p # kept'"
        using "2.prems"(3) max by (auto split: prod.splits)
      show ?thesis using "2.IH"(2) [OF max _ "2.prems"(1) _ k(1), of "pre @ [p]"] "2.prems"(2) False k(2) by simp
    qed
  qed
qed

subsection \<open>Tagged workers\<close>

lemma run_tagged_upd: "\<exists>t m. run_tagged i s = s\<lparr>tagged_workers := t, to_workers := m\<rparr>"
proof -
  have "run_tagged i s = s\<lparr>tagged_workers := tagged_workers (run_tagged i s), to_workers := to_workers (run_tagged i s)\<rparr>"
    by (simp add: run_tagged_def Let_def case_prod_beta)
  then show ?thesis by (intro exI)
qed

lemma run_tagged_fold_upd: "\<exists>t m. fold run_tagged xs s = s\<lparr>tagged_workers := t, to_workers := m\<rparr>"
proof (induction xs arbitrary: s)
  case Nil
  show ?case by (rule exI [of _ "tagged_workers s"], rule exI [of _ "to_workers s"]) simp
next
  case (Cons i xs)
  obtain t m where "run_tagged i s = s\<lparr>tagged_workers := t, to_workers := m\<rparr>" using run_tagged_upd [of i s] by (elim exE)
  moreover obtain t' m' where "fold run_tagged xs (run_tagged i s) = (run_tagged i s)\<lparr>tagged_workers := t', to_workers := m'\<rparr>"
    using Cons.IH [of "run_tagged i s"] by (elim exE)
  ultimately show ?case by (intro exI [of _ t'] exI [of _ m']) simp
qed

lemma process_queue_inv:
  assumes "pool_inv s"
  shows "pool_inv (proxy_process_queue s)"
proof (cases "max_workers s = 0")
  case True
  with assms show ?thesis by (simp add: proxy_process_queue_def)
next
  case False
  define a where "a = fold run_tagged [0..<length (tagged_workers s)] s"
  define c where "c = proxy_run_batch_jobs True (proxy_run_batch_jobs False a)"
  obtain kept d where d: "run_pending (pending_commands c) c = (kept, d)" by (cases "run_pending (pending_commands c) c")
  obtain t m where a: "a = s\<lparr>tagged_workers := t, to_workers := m\<rparr>"
    using run_tagged_fold_upd [of "[0..<length (tagged_workers s)]" s] unfolding a_def by (elim exE)
  have "pool_inv a" using assms by (simp add: a pool_inv_def)
  then have "pool_inv c" unfolding c_def by (intro proxy_run_batch_jobs_inv)
  then have "core_inv d \<and> queue_inv (d\<lparr>pending_commands := [] @ kept\<rparr>)"
    using d by (intro run_pending_inv [of c _ "pending_commands c"]) (simp_all add: pool_inv_def)
  moreover have "proxy_process_queue s = d\<lparr>pending_commands := kept\<rparr>"
    using False d by (simp add: proxy_process_queue_def Let_def a_def c_def)
  ultimately show ?thesis by (simp add: pool_inv_def)
qed


subsection \<open>Finished work\<close>

definition push_idle :: "nat \<Rightarrow> 'a pool_scheme \<Rightarrow> 'a pool_scheme" where
  "push_idle i s = s\<lparr>idle_workers := (idle_workers s)[idle_worker_count s := i], idle_worker_count := idle_worker_count s + 1\<rparr>"

definition discharge :: "kind \<Rightarrow> 'a pool_scheme \<Rightarrow> 'a pool_scheme" where
  "discharge k s = (case k of batch_kind \<Rightarrow> s\<lparr>batch_jobs_active := batch_jobs_active s - 1\<rparr>
     | reply_kind \<Rightarrow> s\<lparr>reply_jobs_active := reply_jobs_active s - 1\<rparr>
     | cat_kind n \<Rightarrow> on_category n (\<lambda>c. c\<lparr>active_threads := dec32 (active_threads c)\<rparr>) s)"

lemma discharge_keeps [simp]:
  "workers (discharge k s) = workers s" "idle_workers (discharge k s) = idle_workers s"
  "idle_worker_count (discharge k s) = idle_worker_count s" "general_workers (discharge k s) = general_workers s"
  "max_workers (discharge k s) = max_workers s" "worker_sockets (discharge k s) = worker_sockets s"
  "batch_jobs_reserved (discharge k s) = batch_jobs_reserved s" "reply_jobs_reserved (discharge k s) = reply_jobs_reserved s"
  "map fst (categories (discharge k s)) = map fst (categories s)"
  "fst ` set (categories (discharge k s)) = fst ` set (categories s)" "kinds (discharge k s) = kinds s"
  "running (discharge k s) = running s" "load (discharge k s) = load s" "shape_ok (discharge k s) = shape_ok s"
  "busy (discharge k s) = busy s"
  by (simp_all add: discharge_def kinds_def running_def load_def shape_ok_def busy_def idle_set_def split: kind.splits)

lemma reserved_discharge [simp]: "k \<in> kinds s \<Longrightarrow> reserved (discharge k s) = reserved s"
  by (rule ext, rename_tac j, case_tac j; cases k) (simp_all add: discharge_def)

lemma active_discharge:
  "k \<in> kinds s \<Longrightarrow> 0 < active s k \<Longrightarrow> active (discharge k s) j = active s j - (if j = k then 1 else 0)"
  by (cases j; cases k) (simp_all add: discharge_def dec32_def)

lemma queue_discharge [simp]: "k \<in> kinds s \<Longrightarrow> queue_inv (discharge k s) = queue_inv s"
  by (cases k) (simp_all add: discharge_def)

lemma push_idle_keeps [simp]:
  "workers (push_idle i s) = workers s" "general_workers (push_idle i s) = general_workers s"
  "max_workers (push_idle i s) = max_workers s" "worker_sockets (push_idle i s) = worker_sockets s"
  "length (idle_workers (push_idle i s)) = length (idle_workers s)" "categories (push_idle i s) = categories s"
  "batch_jobs_reserved (push_idle i s) = batch_jobs_reserved s" "reply_jobs_reserved (push_idle i s) = reply_jobs_reserved s"
  "kinds (push_idle i s) = kinds s" "get_category n (push_idle i s) = get_category n s"
  "reserved (push_idle i s) k = reserved s k" "active (push_idle i s) k = active s k" "queue_inv (push_idle i s) = queue_inv s"
  by (simp_all add: push_idle_def kinds_def) (case_tac [!] k, simp_all)

lemma push_idle_effect:
  assumes ok: "shape_ok s" and i: "i \<in> busy s" and n: "idle_worker_count s < length (idle_workers s)"
  shows "shape_ok (push_idle i s)" "running s = add_mset (unload (workers s ! i)) (running (push_idle i s))"
    "busy (push_idle i s) = busy s - {i}"
proof -
  have t: "take (Suc (idle_worker_count s)) ((idle_workers s)[idle_worker_count s := i])
     = take (idle_worker_count s) (idle_workers s) @ [i]"
    using n by (simp add: take_Suc_conv_app_nth)
  then have set: "idle_set (push_idle i s) = insert i (idle_set s)" by (simp add: push_idle_def idle_set_def)
  then show b: "busy (push_idle i s) = busy s - {i}" by (auto simp: busy_def push_idle_def)
  have "i \<notin> idle_set s" "i < length (workers s)" using i by (simp_all add: busy_def)
  then show "shape_ok (push_idle i s)"
    using ok n t set by (simp add: shape_ok_def) (simp add: push_idle_def idle_set_def)
  have "workers (push_idle i s) = workers s" by (simp add: push_idle_def)
  then show "running s = add_mset (unload (workers s ! i)) (running (push_idle i s))"
    using b i by (intro running_insert [of i]) auto
qed

lemma idle_room:
  assumes "core_inv s" "i \<in> busy s"
  shows "idle_worker_count s < length (idle_workers s)"
proof -
  have "0 < card (busy s)" using assms(2) by (auto simp: card_gt_0_iff)
  then have "idle_worker_count s < length (workers s)"
    using active_workers_busy [of s] assms(1) by (simp add: core_inv_def pool_ok_def active_workers_def)
  with assms(1) show ?thesis by (auto simp: core_inv_def)
qed

lemma finish_core:
  assumes inv: "core_inv s" and i: "i \<in> busy s" and k: "k = kind_of (unload (workers s ! i))"
  shows "core_inv (push_idle i (discharge k s))" "k \<in> kinds s" "0 < active s k"
proof -
  let ?s = "push_idle i (discharge k s)"
  have ok: "pool_ok s" using inv by (simp add: core_inv_def)
  have sh: "shape_ok (discharge k s)" using ok by (simp add: pool_ok_def)
  note eff = push_idle_effect [OF sh, of i, simplified, OF i idle_room [OF inv i]]
  have l: "load s = add_mset k (load ?s)" using eff(2) by (simp add: load_def k)
  then show kk: "k \<in> kinds s" using ok by (simp add: pool_ok_def)
  with inv l show pos: "0 < active s k" by (simp add: core_inv_def)
  have r: "reserved ?s = reserved s" using kk by (simp add: fun_eq_iff)
  have "pool_ok ?s" using ok l eff(1) by (simp add: pool_ok_def)
  moreover have "sp.excess ?s \<le> sp.excess s" using l by (intro sp.release) (simp_all add: r)
  moreover have "sp.capacity ?s = sp.capacity s" by (simp add: sp.capacity_def r)
  moreover have "active ?s j = int (count (load ?s) j)" if "j \<in> kinds s" for j
    using inv that kk l pos by (simp add: active_discharge core_inv_def)
  ultimately show "core_inv ?s" using inv by (auto simp: core_inv_def)
qed


lemma batch_ran_upd:
  "\<exists>h b q t. fst (batch_ran r s) = s\<lparr>heap := h, batch_jobs := b, reply_jobs := q, tagged_workers := t\<rparr>"
proof -
  let ?t = "fst (batch_ran r s)"
  have "?t = s\<lparr>heap := heap ?t, batch_jobs := batch_jobs ?t, reply_jobs := reply_jobs ?t, tagged_workers := tagged_workers ?t\<rparr>"
    by (simp add: batch_ran_def push_tagged_def Let_def split: to_run.splits option.splits prod.splits batch_state.splits)
  then show ?thesis by (intro exI)
qed

lemma kind_of_unload:
  "kind_of (unload r) = (if is_batch_job r then if is_reply_job r then reply_kind else batch_kind else cat_kind (ri_cat r))"
  by (simp add: unload_def)

text \<open>What a \<^verbatim>\<open>RAN\<close> message of a general worker does before the worker goes back to the idle ones.\<close>

lemma proxy_ran_general:
  "\<exists>h b q t. fst (proxy_ran False i route s) =
     (let s' = (discharge (kind_of (unload (workers s ! i))) s)\<lparr>heap := h, batch_jobs := b, reply_jobs := q, tagged_workers := t\<rparr>
      in if max_workers s = 0 then s'\<lparr>to_workers := to_workers s' @ [(route, ''QUIT'')]\<rparr> else push_idle i s')"
proof (cases "is_batch_job (workers s ! i)")
  case True
  let ?r = "workers s ! i" let ?d = "discharge (kind_of (unload ?r)) s"
  obtain h b q t where u: "fst (batch_ran ?r ?d) = ?d\<lparr>heap := h, batch_jobs := b, reply_jobs := q, tagged_workers := t\<rparr>"
    using batch_ran_upd [of ?r ?d] by (elim exE)
  have "fst (proxy_ran False i route s) = (let s' = fst (batch_ran ?r ?d) in
     if max_workers s' = 0 then s'\<lparr>to_workers := to_workers s' @ [(route, ''QUIT'')]\<rparr> else push_idle i s')"
    using True by (simp add: proxy_ran_def Let_def kind_of_unload discharge_def push_idle_def case_prod_beta)
  then show ?thesis
    by (intro exI [of _ h] exI [of _ b] exI [of _ q] exI [of _ t]) (simp only: u Let_def, simp)
next
  case False
  then show ?thesis
    by (intro exI [of _ "heap s"] exI [of _ "batch_jobs s"] exI [of _ "reply_jobs s"] exI [of _ "tagged_workers s"])
      (simp add: proxy_ran_def Let_def kind_of_unload discharge_def push_idle_def on_category_def)
qed

lemma core_push_idle [simp]:
  "core_inv (push_idle i (s\<lparr>heap := h, batch_jobs := b, reply_jobs := q, tagged_workers := t\<rparr>)) = core_inv (push_idle i s)"
  by (rule core_cong) (simp_all add: push_idle_def kinds_def, (case_tac k; simp)+)

lemma proxy_ran_inv:
  assumes inv: "pool_inv s" and i: "i \<in> busy s" and m: "max_workers s \<noteq> 0"
  shows "pool_inv (fst (proxy_ran False i route s))"
proof -
  let ?k = "kind_of (unload (workers s ! i))"
  obtain h b q t where eq: "fst (proxy_ran False i route s) =
     push_idle i ((discharge ?k s)\<lparr>heap := h, batch_jobs := b, reply_jobs := q, tagged_workers := t\<rparr>)"
    using proxy_ran_general [of i route s] m by (simp add: Let_def) blast
  note fin = finish_core [of s i, OF _ i refl]
  have "core_inv (push_idle i (discharge ?k s))" "?k \<in> kinds s" using fin inv by (simp_all add: pool_inv_def)
  with inv show ?thesis unfolding eq pool_inv_def by simp
qed


section \<open>What processing the queues does\<close>

text \<open>The fields that starting work leaves alone.\<close>

definition same_slots :: "'a pool_scheme \<Rightarrow> 'a pool_scheme \<Rightarrow> bool" where
  "same_slots s s' \<longleftrightarrow> general_workers s' = general_workers s \<and> max_workers s' = max_workers s \<and> kinds s' = kinds s
     \<and> reserved s' = reserved s"

lemma same_slots_refl [simp]: "same_slots s s"
  and same_slots_trans: "same_slots s s' \<Longrightarrow> same_slots s' s'' \<Longrightarrow> same_slots s s''"
  by (simp_all add: same_slots_def)

lemma not_admits_later:
  "\<not> sp.admits s k \<Longrightarrow> same_slots s s' \<Longrightarrow> running s \<subseteq># running s' \<Longrightarrow> \<not> sp.admits s' k"
  by (rule sp.not_admits_mono [of s k s']) (simp_all add: same_slots_def load_def image_mset_subseteq_mono)

lemma running_upd [simp]:
  "running (s\<lparr>batch_jobs := x\<rparr>) = running s" "running (s\<lparr>reply_jobs := x\<rparr>) = running s"
  "running (s\<lparr>pending_commands := y\<rparr>) = running s" "running (on_category n f s) = running s"
  "running (s\<lparr>tagged_workers := z\<rparr>) = running s" "running (s\<lparr>to_workers := m\<rparr>) = running s"
  by (simp_all add: running_def busy_def idle_set_def)

lemma charge_keeps_queues [simp]:
  "batch_jobs (charge k s) = batch_jobs s" "reply_jobs (charge k s) = reply_jobs s"
  "pending_commands (charge k s) = pending_commands s" "tagged_workers (charge k s) = tagged_workers s"
  by (simp_all add: charge_def split: kind.splits)

lemma same_slots_upd [simp]:
  "same_slots s (t\<lparr>batch_jobs := x\<rparr>) = same_slots s t" "same_slots s (t\<lparr>reply_jobs := x\<rparr>) = same_slots s t"
  "same_slots s (t\<lparr>tagged_workers := z\<rparr>) = same_slots s t" "same_slots s (t\<lparr>to_workers := m\<rparr>) = same_slots s t"
  "same_slots s (t\<lparr>pending_commands := y\<rparr>) = same_slots s t"
proof -
  have "reserved (t\<lparr>batch_jobs := x\<rparr>) = reserved t" "reserved (t\<lparr>reply_jobs := x\<rparr>) = reserved t"
    "reserved (t\<lparr>tagged_workers := z\<rparr>) = reserved t" "reserved (t\<lparr>to_workers := m\<rparr>) = reserved t"
    "reserved (t\<lparr>pending_commands := y\<rparr>) = reserved t"
    by (rule ext, rename_tac k, case_tac k; simp)+
  then show "same_slots s (t\<lparr>batch_jobs := x\<rparr>) = same_slots s t" "same_slots s (t\<lparr>reply_jobs := x\<rparr>) = same_slots s t"
    "same_slots s (t\<lparr>tagged_workers := z\<rparr>) = same_slots s t" "same_slots s (t\<lparr>to_workers := m\<rparr>) = same_slots s t"
    "same_slots s (t\<lparr>pending_commands := y\<rparr>) = same_slots s t"
    by (simp_all add: same_slots_def kinds_def)
qed

lemma pool_inv_shape: "pool_inv s \<Longrightarrow> shape_ok s" and core_inv_shape: "core_inv s \<Longrightarrow> shape_ok s"
  by (simp_all add: pool_inv_def core_inv_def pool_ok_def)

lemma run_batch_job_effect:
  assumes "shape_ok s"
  shows "running (run_batch_job reply s) = add_mset (job_work reply (hd (job_queue reply s))) (running s)"
    "same_slots s (run_batch_job reply s)" "job_queue (\<not> reply) (run_batch_job reply s) = job_queue (\<not> reply) s"
    "pending_commands (run_batch_job reply s) = pending_commands s"
    "tagged_workers (run_batch_job reply s) = tagged_workers s"
  using start_worker_effect [OF assms, of "load_batch (hd (job_queue reply s)) reply 0" "job_work reply (hd (job_queue reply s))"]
  by (cases reply; simp add: run_batch_job_charge job_queue_def; simp add: same_slots_def)+

lemma run_batch_jobs_effect:
  assumes "pool_inv s"
  shows "\<exists>bs. job_queue reply s = bs @ job_queue reply (proxy_run_batch_jobs reply s)
    \<and> running (proxy_run_batch_jobs reply s) = running s + image_mset (job_work reply) (mset bs)
    \<and> same_slots s (proxy_run_batch_jobs reply s)
    \<and> job_queue (\<not> reply) (proxy_run_batch_jobs reply s) = job_queue (\<not> reply) s
    \<and> pending_commands (proxy_run_batch_jobs reply s) = pending_commands s
    \<and> tagged_workers (proxy_run_batch_jobs reply s) = tagged_workers s
    \<and> (job_queue reply (proxy_run_batch_jobs reply s) = [] \<or> \<not> sp.admits (proxy_run_batch_jobs reply s) (job_kind reply))"
  using assms
proof (induction reply s rule: proxy_run_batch_jobs.induct)
  case (1 reply s)
  show ?case
  proof (cases "job_queue reply s \<noteq> [] \<and> active_workers s < max_workers s
      \<and> (jobs_active reply s < jobs_reserved reply s \<or> active_workers s < general_workers s)")
    case True
    let ?t = "run_batch_job reply s" let ?u = "proxy_run_batch_jobs reply ?t"
    note eff = run_batch_job_effect [OF pool_inv_shape [OF "1.prems"], of reply]
    have "pool_inv ?t" using True "1.prems" by (simp add: run_batch_job_inv job_admits)
    from "1.IH" [OF True this] obtain bs where *: "job_queue reply ?t = bs @ job_queue reply ?u"
      "running ?u = running ?t + image_mset (job_work reply) (mset bs)" "same_slots ?t ?u"
      "job_queue (\<not> reply) ?u = job_queue (\<not> reply) ?t" "pending_commands ?u = pending_commands ?t"
      "tagged_workers ?u = tagged_workers ?t" "job_queue reply ?u = [] \<or> \<not> sp.admits ?u (job_kind reply)"
      by (elim exE conjE)
    have "proxy_run_batch_jobs reply s = ?u" using True by (subst proxy_run_batch_jobs.simps) (rule if_P)
    moreover have "job_queue reply s = (hd (job_queue reply s) # bs) @ job_queue reply ?u"
      using True *(1) by (cases "job_queue reply s") simp_all
    ultimately show ?thesis
      using * eff same_slots_trans [OF eff(2) *(3)] by (intro exI [of _ "hd (job_queue reply s) # bs"]) simp
  next
    case False
    then have "proxy_run_batch_jobs reply s = s" by (subst proxy_run_batch_jobs.simps) (rule if_not_P)
    moreover have "job_queue reply s = [] \<or> \<not> sp.admits s (job_kind reply)"
      using False admits_below_max [of s "job_kind reply"] job_admits [OF "1.prems", of reply] "1.prems"
      by (auto simp: pool_inv_def)
    ultimately show ?thesis by (intro exI [of _ "[]"]) simp
  qed
qed


text \<open>The commands of one category.\<close>

abbreviation of_cat :: "string \<Rightarrow> pending_command list \<Rightarrow> pending_command list" where
  "of_cat n ps \<equiv> filter (\<lambda>p. pc_cat p = n) ps"

lemma run_pending_command_effect:
  assumes "shape_ok s" "pending_ok p" "pc_cat p \<in> fst ` set (categories s)"
  shows "running (run_pending_command p s) = add_mset (command_work p) (running s)"
    "same_slots s (run_pending_command p s)" "job_queue reply (run_pending_command p s) = job_queue reply s"
    "tagged_workers (run_pending_command p s) = tagged_workers s"
proof -
  note eff = start_worker_effect [OF assms(1) loads_intros(3) [OF assms(2)]]
  show "running (run_pending_command p s) = add_mset (command_work p) (running s)"
    "job_queue reply (run_pending_command p s) = job_queue reply s"
    "tagged_workers (run_pending_command p s) = tagged_workers s"
    using eff by (simp_all add: run_pending_command_def job_queue_def)
  have "reserved (run_pending_command p s) k = reserved s k" for k
    using assms(3) by (cases k) (simp_all add: run_pending_command_def)
  then show "same_slots s (run_pending_command p s)" by (simp add: same_slots_def kinds_def fun_eq_iff)
qed

lemma run_pending_effect:
  assumes "core_inv s" "queue_inv (s\<lparr>pending_commands := pre @ ps\<rparr>)" "run_pending ps s = (kept, s')"
  shows "\<exists>cs. mset ps = mset cs + mset kept \<and> (\<forall>n. of_cat n ps = of_cat n cs @ of_cat n kept)
    \<and> running s' = running s + image_mset command_work (mset cs) \<and> same_slots s s'
    \<and> (\<forall>reply. job_queue reply s' = job_queue reply s) \<and> tagged_workers s' = tagged_workers s
    \<and> (\<forall>p \<in> set kept. \<not> sp.admits s' (cat_kind (pc_cat p)))
    \<and> (\<forall>n. \<not> sp.admits s (cat_kind n) \<longrightarrow> n \<in> fst ` set (categories s) \<longrightarrow> of_cat n cs = [])"
  using assms
proof (induction ps s arbitrary: pre kept s' rule: run_pending.induct)
  case (1 s)
  then show ?case by (intro exI [of _ "[]"]) simp
next
  case (2 p ps s)
  let ?n = "pc_cat p"
  have p: "pending_ok p" "?n \<in> fst ` set (categories s)" using "2.prems"(2) by (simp_all add: queue_inv_def)
  have adm: "sp.admits s (cat_kind ?n) \<longleftrightarrow> active_threads (get_category ?n s) < reserved_threads (get_category ?n s)
      \<or> active_workers s < general_workers s"
    using "2.prems"(1) p by (simp add: admits_iff)
  show ?case
  proof (cases "active_workers s < max_workers s")
    case False
    have "cat_kind (pc_cat q) \<in> kinds s" if "q \<in> set (p # ps)" for q
      using that "2.prems"(2) by (cases "q = p") (simp_all add: queue_inv_def)
    with False have "\<not> sp.admits s (cat_kind (pc_cat q))" if "q \<in> set (p # ps)" for q
      using that admits_below_max [OF "2.prems"(1)] by blast
    with False "2.prems" show ?thesis by (intro exI [of _ "[]"]) auto
  next
    case max: True
    show ?thesis
    proof (cases "sp.admits s (cat_kind ?n)")
      case True
      note r = run_pending_command_inv [OF "2.prems"(1) p True "2.prems"(2)]
      note eff = run_pending_command_effect [OF core_inv_shape [OF "2.prems"(1)] p]
      have "run_pending ps (run_pending_command p s) = (kept, s')" using True adm max "2.prems"(3) by simp
      note ih = "2.IH"(1) [OF max True [unfolded adm] r this]
      then obtain cs where *: "mset ps = mset cs + mset kept" "\<And>n. of_cat n ps = of_cat n cs @ of_cat n kept"
        "running s' = running (run_pending_command p s) + image_mset command_work (mset cs)"
        "same_slots (run_pending_command p s) s'"
        "\<And>reply. job_queue reply s' = job_queue reply (run_pending_command p s)"
        "tagged_workers s' = tagged_workers (run_pending_command p s)"
        "\<forall>p \<in> set kept. \<not> sp.admits s' (cat_kind (pc_cat p))"
        "\<And>n. \<not> sp.admits (run_pending_command p s) (cat_kind n) \<Longrightarrow> n \<in> fst ` set (categories s) \<Longrightarrow> of_cat n cs = []"
        by auto
      have "of_cat n cs = []" if "\<not> sp.admits s (cat_kind n)" "n \<in> fst ` set (categories s)" for n
        using *(8) [of n] not_admits_later [OF that(1) eff(2)] that(2) by (simp add: eff(1))
      then show ?thesis
        using * eff same_slots_trans [OF eff(2) *(4)] True by (intro exI [of _ "p # cs"]) auto
    next
      case False
      then obtain kept' where k: "run_pending ps s = (kept', s')" "kept = p # kept'"
        using "2.prems"(3) max adm by (auto split: prod.splits)
      have "queue_inv (s\<lparr>pending_commands := (pre @ [p]) @ ps\<rparr>)" using "2.prems"(2) by simp
      note ih = "2.IH"(2) [OF max False [unfolded adm] "2.prems"(1) this k(1)]
      then obtain cs where *: "mset ps = mset cs + mset kept'" "\<And>n. of_cat n ps = of_cat n cs @ of_cat n kept'"
        "running s' = running s + image_mset command_work (mset cs)" "same_slots s s'"
        "\<And>reply. job_queue reply s' = job_queue reply s" "tagged_workers s' = tagged_workers s"
        "\<forall>p \<in> set kept'. \<not> sp.admits s' (cat_kind (pc_cat p))"
        "\<And>n. \<not> sp.admits s (cat_kind n) \<Longrightarrow> n \<in> fst ` set (categories s) \<Longrightarrow> of_cat n cs = []"
        by auto
      have "\<not> sp.admits s' (cat_kind ?n)" using not_admits_later [OF False *(4)] *(3) by simp
      then show ?thesis using * k(2) *(8) [OF False p(2)] by (intro exI [of _ cs]) auto
    qed
  qed
qed


text \<open>What processing does to one tagged worker.\<close>

definition start_tagged :: "tagged_worker \<Rightarrow> tagged_worker" where
  "start_tagged t =
     (if \<not> tw_busy t \<and> tw_queue t \<noteq> [] then
        \<lparr>tw_run = fst (proxy_run_worker (load_batch (hd (tw_queue t)) False (int (worker_id (tw_run t))) (tw_run t)) []),
         tw_busy = True, tw_queue = tl (tw_queue t)\<rparr>
      else t)"

lemma fst_run_worker: "fst (proxy_run_worker r m) = fst (proxy_run_worker r [])"
  by (simp add: proxy_run_worker_def)

lemma run_tagged_workers: "tagged_workers (run_tagged i s) = (tagged_workers s)[i := start_tagged (tagged_workers s ! i)]"
  using fst_run_worker [of _ "to_workers s"]
  by (simp add: run_tagged_def start_tagged_def Let_def case_prod_beta)

lemma run_tagged_fold:
  "n \<le> length (tagged_workers s) \<Longrightarrow>
    tagged_workers (fold run_tagged [0..<n] s) = map start_tagged (take n (tagged_workers s)) @ drop n (tagged_workers s)"
proof (induction n)
  case (Suc n)
  then show ?case
    by (simp add: run_tagged_workers nth_append list_update_append take_Suc_conv_app_nth flip: Cons_nth_drop_Suc)
qed simp

lemma fold_run_tagged [simp]:
  "running (fold run_tagged xs s) = running s" "same_slots s (fold run_tagged xs s)"
  "job_queue reply (fold run_tagged xs s) = job_queue reply s"
  "pending_commands (fold run_tagged xs s) = pending_commands s" "max_workers (fold run_tagged xs s) = max_workers s"
  "pool_inv (fold run_tagged xs s) = pool_inv s" "heap (fold run_tagged xs s) = heap s"
proof -
  obtain t m where a: "fold run_tagged xs s = s\<lparr>tagged_workers := t, to_workers := m\<rparr>"
    using run_tagged_fold_upd [of xs s] by (elim exE)
  show "running (fold run_tagged xs s) = running s" "same_slots s (fold run_tagged xs s)"
    "job_queue reply (fold run_tagged xs s) = job_queue reply s"
    "pending_commands (fold run_tagged xs s) = pending_commands s" "max_workers (fold run_tagged xs s) = max_workers s"
    "pool_inv (fold run_tagged xs s) = pool_inv s" "heap (fold run_tagged xs s) = heap s"
    unfolding a by (simp_all add: job_queue_def pool_inv_def)
qed

lemma process_queue_effect:
  assumes "pool_inv s" "max_workers s \<noteq> 0" and s': "s' = proxy_process_queue s"
  shows "\<exists>bs rs cs. batch_jobs s = bs @ batch_jobs s' \<and> reply_jobs s = rs @ reply_jobs s'
    \<and> mset (pending_commands s) = mset cs + mset (pending_commands s')
    \<and> (\<forall>n. of_cat n (pending_commands s) = of_cat n cs @ of_cat n (pending_commands s'))
    \<and> running s' = running s + image_mset batch_work (mset bs) + image_mset reply_work (mset rs)
        + image_mset command_work (mset cs)
    \<and> same_slots s s' \<and> tagged_workers s' = map start_tagged (tagged_workers s)
    \<and> (batch_jobs s' = [] \<or> \<not> sp.admits s' batch_kind) \<and> (reply_jobs s' = [] \<or> \<not> sp.admits s' reply_kind)
    \<and> (\<forall>p \<in> set (pending_commands s'). \<not> sp.admits s' (cat_kind (pc_cat p)))"
proof -
  define a where "a = fold run_tagged [0..<length (tagged_workers s)] s"
  define b where "b = proxy_run_batch_jobs False a"
  define c where "c = proxy_run_batch_jobs True b"
  obtain kept d where d: "run_pending (pending_commands c) c = (kept, d)" by (cases "run_pending (pending_commands c) c")
  have s': "s' = d\<lparr>pending_commands := kept\<rparr>"
    using assms(2) d by (simp add: s' proxy_process_queue_def Let_def a_def b_def c_def)
  have a: "running a = running s" "same_slots s a" "\<And>reply. job_queue reply a = job_queue reply s"
    "pending_commands a = pending_commands s" "pool_inv a" "tagged_workers a = map start_tagged (tagged_workers s)"
    using assms(1) run_tagged_fold [of "length (tagged_workers s)" s] by (simp_all add: a_def)
  obtain bs where b: "job_queue False a = bs @ job_queue False b" "running b = running a + image_mset (job_work False) (mset bs)"
    "same_slots a b" "job_queue True b = job_queue True a" "pending_commands b = pending_commands a"
    "tagged_workers b = tagged_workers a" "job_queue False b = [] \<or> \<not> sp.admits b (job_kind False)"
    using run_batch_jobs_effect [OF a(5), of False] unfolding b_def [symmetric] by auto
  have binv: "pool_inv b" using a(5) by (simp add: b_def proxy_run_batch_jobs_inv)
  obtain rs where c: "job_queue True b = rs @ job_queue True c" "running c = running b + image_mset (job_work True) (mset rs)"
    "same_slots b c" "job_queue False c = job_queue False b" "pending_commands c = pending_commands b"
    "tagged_workers c = tagged_workers b" "job_queue True c = [] \<or> \<not> sp.admits c (job_kind True)"
    using run_batch_jobs_effect [OF binv, of True] unfolding c_def [symmetric] by auto
  have cinv: "pool_inv c" using binv by (simp add: c_def proxy_run_batch_jobs_inv)
  obtain cs where e: "mset (pending_commands c) = mset cs + mset kept"
    "\<And>n. of_cat n (pending_commands c) = of_cat n cs @ of_cat n kept"
    "running d = running c + image_mset command_work (mset cs)" "same_slots c d"
    "\<And>reply. job_queue reply d = job_queue reply c" "tagged_workers d = tagged_workers c"
    "\<forall>p \<in> set kept. \<not> sp.admits d (cat_kind (pc_cat p))"
    using run_pending_effect [of c "[]" "pending_commands c" kept d] d cinv by (auto simp: pool_inv_def)
  have "same_slots s d" using a(2) b(3) c(3) e(4) by (simp add: same_slots_def)
  then have sd: "same_slots s s'" by (simp add: s')
  have adm: "sp.admits s' k = sp.admits d k" for k
    using running_cong [of s' d] by (simp add: s' sp.admits_def) (cases k; simp)
  have "batch_jobs s' = [] \<or> \<not> sp.admits s' batch_kind"
    using b(7) not_admits_later [of b batch_kind d] c(2,3,4) e(3,4) e(5) [of False] same_slots_trans [OF c(3) e(4)]
    by (auto simp: adm job_kind_def) (auto simp: s' job_queue_def)
  moreover have "reply_jobs s' = [] \<or> \<not> sp.admits s' reply_kind"
    using c(7) not_admits_later [of c reply_kind d] e(3,4) e(5) [of True]
    by (auto simp: adm job_kind_def) (auto simp: s' job_queue_def)
  moreover have "job_work False = batch_work" "job_work True = reply_work" by (simp_all add: job_work_def fun_eq_iff)
  moreover have "batch_jobs d = job_queue False c" "reply_jobs d = job_queue True c"
    "batch_jobs s = job_queue False a" "reply_jobs s = job_queue True a"
    using e(5) [of True] e(5) [of False] a(3) [of True] a(3) [of False] by (simp_all add: job_queue_def)
  ultimately show ?thesis
    using a(1,4,6) b(1-6) c(1-6) e(1-3,6,7) sd adm
    by - (rule exI [of _ bs], rule exI [of _ rs], rule exI [of _ cs], simp add: s')
qed

section \<open>Routing identities\<close>

lemma of_char_char_of_nat: "of_char (char_of (n :: nat) :: char) = n mod 256"
  by simp

lemma routing_number_id:
  assumes "n < 2 ^ 32"
  shows "routing_number (routing_id c n) = n"
proof -
  have "n div 256 div 256 div 256 < 256" using assms by (simp add: div_less_iff_less_mult)
  then have "(n div 256 div 256 div 256) mod 256 = n div 256 div 256 div 256" by (rule mod_less)
  moreover have "n = n mod 256 + 256 * (n div 256)" "n div 256 = n div 256 mod 256 + 256 * (n div 256 div 256)"
    "n div 256 div 256 = n div 256 div 256 mod 256 + 256 * (n div 256 div 256 div 256)"
    by (simp_all add: mod_mult_div_eq [symmetric] algebra_simps)
  ultimately have "n = n mod 256 + 256 * (n div 256 mod 256 + 256 * (n div 256 div 256 mod 256
      + 256 * ((n div 256 div 256 div 256) mod 256)))" by simp
  moreover have "n div 65536 = n div 256 div 256" "n div 16777216 = n div 256 div 256 div 256"
    by (simp_all flip: div_mult2_eq)
  ultimately show ?thesis
    by (simp add: routing_number_def routing_id_def le_u32_def le_bytes_def)
qed

lemma routing_id_shape [simp]: "length (routing_id c n) = 5" "routing_id c n ! 0 = c"
  by (simp_all add: routing_id_def le_u32_def)

text \<open>The message that a worker sends when it is done reaches its own \<open>run_info\<close>.\<close>

lemma worker_message_ran:
  assumes "i < length (workers s)" "length (workers s) < 2 ^ 32"
  shows "proxy_worker_message [routing_id CHR ''w'' i, ''RAN''] s = proxy_ran False i (routing_id CHR ''w'' i) s"
  using assms by (simp add: proxy_worker_message_def Let_def routing_number_id)

lemma tagged_message_ran:
  assumes "i < length (tagged_workers s)" "length (tagged_workers s) < 2 ^ 32"
  shows "proxy_worker_message [routing_id CHR ''t'' (Suc i), ''RAN''] s = proxy_ran True (Suc i) (routing_id CHR ''t'' (Suc i)) s"
  using assms by (simp add: proxy_worker_message_def Let_def routing_number_id)


section \<open>Configuration\<close>

text \<open>The members of a default-constructed \<^verbatim>\<open>OxenMQ\<close>; \<open>threads\<close> is \<^verbatim>\<open>std::thread::hardware_concurrency()\<close>.\<close>

definition pool_init :: "nat \<Rightarrow> pool" where
  "pool_init threads = \<lparr>started = False, categories = [], command_aliases = [],
     general_workers = max 1 (int threads), max_workers = 0, batch_jobs_reserved = -1, reply_jobs_reserved = -1,
     batch_jobs_active = 0, reply_jobs_active = 0, batch_jobs = [], reply_jobs = [], pending_commands = [],
     workers = [], worker_sockets = 0, idle_workers = [], idle_worker_count = 0, tagged_workers = [],
     proxy_skip_one_poll = False, heap = Map.empty, next_ptr = 1, to_workers = []\<rparr>"

inductive config_step :: "'a pool_scheme \<Rightarrow> 'a pool_scheme \<Rightarrow> bool" where
  category: "add_category n a r q s = Inr s' \<Longrightarrow> config_step s s'"
| command: "add_command c n cb s = Inr s' \<Longrightarrow> config_step s s'"
| request: "add_request_command c n cb s = Inr s' \<Longrightarrow> config_step s s'"
| aliased: "add_command_alias f t s = Inr s' \<Longrightarrow> config_step s s'"
| batch_threads: "set_batch_threads i s = Inr s' \<Longrightarrow> config_step s s'"
| reply_threads: "set_reply_threads i s = Inr s' \<Longrightarrow> config_step s s'"
| general_threads: "set_general_threads i s = Inr s' \<Longrightarrow> config_step s s'"
| tagged_thread: "add_tagged_thread n s = Inr (i, s') \<Longrightarrow> config_step s s'"

text \<open>The workers for tagged threads; such a worker only runs jobs.\<close>

definition tagged_ok :: "nat \<Rightarrow> tagged_worker \<Rightarrow> bool" where
  "tagged_ok i t \<longleftrightarrow> worker_id (tw_run t) = Suc i \<and> worker_routing_id (tw_run t) = routing_id CHR ''t'' (Suc i)
     \<and> joinable (tw_run t) \<and> (tw_busy t \<longrightarrow> is_batch_job (tw_run t) \<and> \<not> is_reply_job (tw_run t)
     \<and> (\<exists>p. to_run (tw_run t) = run_batch p))"

definition tagged_inv :: "'a pool_scheme \<Rightarrow> bool" where
  "tagged_inv s \<longleftrightarrow> (\<forall>i < length (tagged_workers s). tagged_ok i (tagged_workers s ! i))"

text \<open>A configured object whose \<^verbatim>\<open>start()\<close> has not been called.\<close>

definition configured :: "'a pool_scheme \<Rightarrow> bool" where
  "configured s \<longleftrightarrow> distinct (map fst (categories s)) \<and> 0 < general_workers s \<and> -1 \<le> batch_jobs_reserved s
     \<and> -1 \<le> reply_jobs_reserved s \<and> batch_jobs_active s = 0 \<and> reply_jobs_active s = 0 \<and> batch_jobs s = []
     \<and> reply_jobs s = [] \<and> pending_commands s = [] \<and> workers s = [] \<and> idle_worker_count s = 0 \<and> idle_workers s = []
     \<and> (\<forall>(n, c) \<in> set (categories s). active_threads c = 0 \<and> queued c = 0) \<and> tagged_inv s
     \<and> (\<forall>t \<in> set (tagged_workers s). \<not> tw_busy t \<and> tw_queue t = []) \<and> heap s = Map.empty
     \<and> to_workers s = []"

lemma configured_init: "configured (pool_init threads)"
  by (simp add: configured_def pool_init_def tagged_inv_def)

lemma upd_category_all:
  "(\<And>c. P (f c) = P c) \<Longrightarrow> (\<forall>(n, c) \<in> set (upd_category m f cs). P c) = (\<forall>(n, c) \<in> set cs. P c)"
  by (induction cs) (auto simp: upd_category_def split: if_splits)

lemma configured_commands:
  "(\<And>c. active_threads (f c) = active_threads c \<and> queued (f c) = queued c) \<Longrightarrow>
    configured (s\<lparr>categories := upd_category n f (categories s)\<rparr>) = configured s"
  using upd_category_all [of "\<lambda>c. active_threads c = 0 \<and> queued c = 0" f n "categories s"]
  by (simp add: configured_def tagged_inv_def)

lemma configured_add_command: "add_command c n cb s = Inr s' \<Longrightarrow> configured s \<Longrightarrow> configured s'"
  by (auto simp: add_command_Inr configured_commands)

lemma configured_step:
  assumes "config_step s s'" "configured s"
  shows "configured s'"
  using assms
proof (induction rule: config_step.induct)
  case (category n a r q s s')
  then show ?case by (auto simp: add_category_Inr configured_def tagged_inv_def mk_category_def)
next
  case (command c n cb s s')
  then show ?case by (rule configured_add_command)
next
  case (request c n cb s s')
  then show ?case
    by (cases "add_command c n cb s")
      (auto simp: add_request_command_def configured_commands dest: configured_add_command)
next
  case (aliased f t s s')
  then show ?case
    by (auto simp: add_command_alias_def check_not_started_def Let_def configured_def tagged_inv_def
        split: if_splits option.splits)
next
  case (tagged_thread n s i s')
  then show ?case
    by (auto simp: add_tagged_thread_def Let_def configured_def tagged_inv_def tagged_ok_def nth_append less_Suc_eq
        new_run_info_def split: if_splits)
qed (auto simp: set_batch_threads_def set_reply_threads_def set_general_threads_def configured_def tagged_inv_def
     split: if_splits)

lemma configured_steps: "config_step\<^sup>*\<^sup>* (pool_init threads) s \<Longrightarrow> configured s"
  by (induction rule: rtranclp_induct) (auto intro: configured_init configured_step)


lemma get_category_in:
  "distinct (map fst (categories s)) \<Longrightarrow> (n, c) \<in> set (categories s) \<Longrightarrow> get_category n s = c"
  by (simp add: get_category_def)

lemma sum_reserved:
  assumes "distinct (map fst (categories s))"
  shows "(\<Sum>k\<in>kinds s. reserved s k) = batch_jobs_reserved s + reply_jobs_reserved s
     + (\<Sum>(n, c)\<leftarrow>categories s. int (reserved_threads c))"
proof -
  have "(\<Sum>k\<in>cat_kind ` fst ` set (categories s). reserved s k) = (\<Sum>n\<in>fst ` set (categories s). reserved s (cat_kind n))"
    by (simp add: sum.reindex inj_on_def)
  also have "\<dots> = (\<Sum>x\<in>set (categories s). reserved s (cat_kind (fst x)))"
    using assms by (simp add: sum.reindex distinct_map)
  also have "\<dots> = (\<Sum>x\<in>set (categories s). int (reserved_threads (snd x)))"
    using get_category_in [OF assms] by (intro sum.cong) auto
  also have "\<dots> = (\<Sum>(n, c)\<leftarrow>categories s. int (reserved_threads c))"
    using assms by (simp add: sum_list_distinct_conv_sum_set distinct_map case_prod_beta)
  finally have c: "(\<Sum>k\<in>cat_kind ` fst ` set (categories s). reserved s k) = \<dots>" .
  have "kinds s = insert batch_kind (insert reply_kind (cat_kind ` fst ` set (categories s)))" by (auto simp: kinds_def)
  moreover have "batch_kind \<notin> insert reply_kind (cat_kind ` fst ` set (categories s))"
    "reply_kind \<notin> cat_kind ` fst ` set (categories s)" by auto
  ultimately show ?thesis using c by simp
qed

text \<open>The number of workers that \<^verbatim>\<open>start()\<close> computes is the capacity of the slots, and all counters start at zero.\<close>

lemma size_pool_keeps [simp]:
  "categories (size_pool s) = categories s" "workers (size_pool s) = workers s" "idle_workers (size_pool s) = idle_workers s"
  "idle_worker_count (size_pool s) = idle_worker_count s" "general_workers (size_pool s) = general_workers s"
  "batch_jobs_active (size_pool s) = batch_jobs_active s" "reply_jobs_active (size_pool s) = reply_jobs_active s"
  "pending_commands (size_pool s) = pending_commands s" "tagged_workers (size_pool s) = tagged_workers s"
  "batch_jobs (size_pool s) = batch_jobs s" "reply_jobs (size_pool s) = reply_jobs s" "heap (size_pool s) = heap s"
  by (simp_all add: size_pool_def Let_def)

lemma size_pool_max:
  "max_workers (size_pool s) = general_workers s + batch_jobs_reserved (size_pool s) + reply_jobs_reserved (size_pool s)
     + (\<Sum>(n, c)\<leftarrow>categories s. int (reserved_threads c))"
  by (simp add: size_pool_def Let_def)

lemma size_pool_reserved:
  "0 < general_workers s \<Longrightarrow> 0 \<le> batch_jobs_reserved (size_pool s) \<and> 0 \<le> reply_jobs_reserved (size_pool s)"
  by (simp add: size_pool_def Let_def pos_imp_zdiv_nonneg_iff)

lemma start_pool_inv:
  assumes "configured s0" "start_pool s0 = Inr s" "max_workers s < 2 ^ 31"
  shows "pool_inv s \<and> tagged_inv s \<and> running s = {#}"
proof -
  let ?t = "size_pool s0"
  have s: "s = ?t\<lparr>started := True, idle_workers := replicate (nat (max_workers ?t)) 0, worker_sockets := nat (max_workers ?t)\<rparr>"
    using assms(1,2) by (simp add: start_pool_def init_workers_def Let_def configured_def split: if_splits)
  have c: "configured s0" by fact
  have run: "running s = {#}" "shape_ok s" "load s = {#}"
    using c by (simp_all add: s running_def busy_def idle_set_def shape_ok_def load_def configured_def)
  have dist: "distinct (map fst (categories s))" using c by (simp add: s configured_def)
  have cat: "active_threads (get_category n s) = 0" "queued (get_category n s) = 0" if "n \<in> fst ` set (categories s)" for n
    using that c get_category_in [OF dist] by (auto simp: s configured_def)
  have ok: "pool_ok s" using run dist size_pool_reserved [of s0] c by (simp add: pool_ok_def s configured_def)
  have cap: "max_workers s = sp.capacity s"
    using sum_reserved [OF dist] size_pool_max [of s0] by (simp add: sp.capacity_def s)
  have ex: "sp.excess s = 0" using sp.reserved_nonneg [OF ok] by (simp add: sp.excess_def run)
  have act: "active s k = 0" if "k \<in> kinds s" for k
    using that cat c by (cases k) (auto simp: s configured_def)
  have len: "length (idle_workers s) = nat (max_workers s)" "worker_sockets s = nat (max_workers s)"
    "length (workers s) = 0" "0 < general_workers s"
    using c by (simp_all add: s configured_def)
  have "core_inv s" using ok cap ex act run(3) len assms(3) by (simp add: core_inv_def)
  moreover have "queue_inv s" using cat c unfolding queue_inv_def by (simp add: s configured_def)
  moreover have "tagged_inv s" using c by (simp add: s configured_def tagged_inv_def)
  ultimately show ?thesis using run by (simp add: pool_inv_def)
qed


section \<open>Steps of the running pool\<close>

text \<open>
  What the proxy thread does to the pool until it is asked to quit, in any order: incoming commands and
  injected tasks (of existing categories), batches from other threads, scheduled replies, processing of the
  queues, and \<^verbatim>\<open>RAN\<close> messages. A worker sends one \<^verbatim>\<open>RAN\<close> for every job that it was loaded with, so such a
  message comes from a busy worker; the theory \<open>Workers\<close> derives this from the worker threads.
\<close>

inductive pool_step :: "'a pool_scheme \<Rightarrow> 'a pool_scheme \<Rightarrow> bool" where
  command: "n \<in> fst ` set (categories s) \<Longrightarrow>
    pool_step s (snd (dispatch_command n command data cb conn acc remote s))"
| inject: "inj_cat t \<in> fst ` set (categories s) \<Longrightarrow> pool_step s (proxy_inject_task t s)"
| alloc: "pool_step s (snd (alloc b s))"
| batch: "pool_step s (proxy_batch ptr s)"
| reply: "pool_step s (proxy_schedule_reply_job f s)"
| process: "pool_step s (proxy_process_queue s)"
| ran: "i \<in> busy s \<Longrightarrow> pool_step s (fst (proxy_worker_message [routing_id CHR ''w'' i, ''RAN''] s))"
| tagged_ran: "i < length (tagged_workers s) \<Longrightarrow> tw_busy (tagged_workers s ! i) \<Longrightarrow>
    pool_step s (fst (proxy_worker_message [routing_id CHR ''t'' (Suc i), ''RAN''] s))"

definition all_inv :: "'a pool_scheme \<Rightarrow> bool" where
  "all_inv s \<longleftrightarrow> pool_inv s \<and> tagged_inv s \<and> length (tagged_workers s) < 2 ^ 31"

lemma push_job_upd: "\<exists>b t. push_job thread bj s = s\<lparr>batch_jobs := b, tagged_workers := t\<rparr>"
proof -
  have "push_job thread bj s = s\<lparr>batch_jobs := batch_jobs (push_job thread bj s), tagged_workers := tagged_workers (push_job thread bj s)\<rparr>"
    by (simp add: push_job_def push_tagged_def)
  then show ?thesis by (intro exI)
qed

lemma tagged_queue_ok [simp]: "tagged_ok i (t\<lparr>tw_queue := q\<rparr>) = tagged_ok i t"
  by (simp add: tagged_ok_def)

lemma push_tagged_ok: "tagged_inv s \<Longrightarrow> tagged_inv (push_tagged i bj s)"
  unfolding tagged_inv_def push_tagged_def by (intro allI impI, rename_tac j, case_tac "j = i") simp_all

lemma push_job_all: "all_inv s \<Longrightarrow> all_inv (push_job thread bj s)"
proof -
  assume inv: "all_inv s"
  have "pool_inv (push_job thread bj s)"
    using inv push_job_upd [of thread bj s] by (auto simp: all_inv_def pool_inv_def)
  with inv show ?thesis
    by (simp add: all_inv_def push_tagged_ok push_job_def) (simp add: push_tagged_def tagged_inv_def)
qed

lemma push_jobs_all: "all_inv s \<Longrightarrow> all_inv (fold (\<lambda>i. push_job (f i) (g i)) xs s)"
  by (induction xs arbitrary: s) (simp_all add: push_job_all)

lemma all_upd [simp]:
  "all_inv (s\<lparr>batch_jobs := x\<rparr>) = all_inv s" "all_inv (s\<lparr>reply_jobs := x\<rparr>) = all_inv s"
  "all_inv (s\<lparr>proxy_skip_one_poll := b\<rparr>) = all_inv s" "all_inv (s\<lparr>heap := h\<rparr>) = all_inv s"
  "all_inv (s\<lparr>next_ptr := p\<rparr>) = all_inv s"
  by (simp_all add: all_inv_def pool_inv_def tagged_inv_def)

lemma proxy_batch_all: "all_inv s \<Longrightarrow> all_inv (proxy_batch ptr s)"
  by (auto simp: proxy_batch_def Let_def case_prod_beta push_jobs_all split: option.splits)

lemma start_tagged_ok: "tagged_ok i t \<Longrightarrow> tagged_ok i (start_tagged t)"
  by (simp add: tagged_ok_def start_tagged_def proxy_run_worker_def load_batch_def run_reset_def)

lemma inv_positive: "pool_inv s \<Longrightarrow> 0 < max_workers s"
proof -
  assume inv: "pool_inv s"
  then have "0 \<le> (\<Sum>k\<in>kinds s. reserved s k)"
    by (intro sum_nonneg sp.reserved_nonneg) (simp_all add: pool_inv_def core_inv_def)
  with inv show ?thesis by (simp add: pool_inv_def core_inv_def sp.capacity_def)
qed

lemma process_queue_all:
  assumes "all_inv s"
  shows "all_inv (proxy_process_queue s)"
proof -
  have inv: "pool_inv s" "max_workers s \<noteq> 0" using assms inv_positive [of s] by (auto simp: all_inv_def)
  from process_queue_effect [OF this refl]
  have "tagged_workers (proxy_process_queue s) = map start_tagged (tagged_workers s)" by (elim exE conjE)
  with assms inv(1) show ?thesis
    by (simp add: all_inv_def process_queue_inv tagged_inv_def start_tagged_ok)
qed


lemma batch_ran_all: "all_inv s \<Longrightarrow> all_inv (fst (batch_ran r s))"
proof -
  assume inv: "all_inv s"
  have "all_inv (push_tagged i bj t)" if "all_inv t" for i bj and t :: "'a pool_scheme"
    using push_job_all [OF that, of "int i + 1" bj] by (simp add: push_job_def)
  with inv show ?thesis
    by (simp add: batch_ran_def Let_def split: to_run.splits option.splits prod.splits batch_state.splits)
qed

lemma tagged_upd [simp]:
  "tagged_inv (push_idle i s) = tagged_inv s" "tagged_inv (discharge k s) = tagged_inv s"
  "tagged_inv (on_category n f s) = tagged_inv s" "tagged_workers (push_idle i s) = tagged_workers s"
  "tagged_workers (discharge k s) = tagged_workers s" "tagged_inv (start_worker g s) = tagged_inv s"
  by (simp_all add: tagged_inv_def push_idle_def discharge_def split: kind.splits)

lemma proxy_ran_all:
  assumes "all_inv s" "i \<in> busy s"
  shows "all_inv (fst (proxy_ran False i route s))"
proof -
  let ?r = "workers s ! i" let ?d = "discharge (kind_of (unload ?r)) s"
  have m: "max_workers s \<noteq> 0" using assms(1) inv_positive [of s] by (auto simp: all_inv_def)
  have "tagged_workers (fst (proxy_ran False i route s)) = (if is_batch_job ?r then tagged_workers (fst (batch_ran ?r ?d)) else tagged_workers s)"
    by (simp add: proxy_ran_def Let_def kind_of_unload discharge_def case_prod_beta)
  moreover have "tagged_inv (fst (batch_ran ?r ?d)) \<and> length (tagged_workers (fst (batch_ran ?r ?d))) = length (tagged_workers s)"
  proof -
    have "tagged_inv t \<Longrightarrow> tagged_inv (fst (batch_ran ?r t)) \<and> length (tagged_workers (fst (batch_ran ?r t))) = length (tagged_workers t)" for t :: "'a pool_scheme"
      using push_tagged_ok [of "t\<lparr>heap := _\<rparr>"]
      by (auto simp: batch_ran_def Let_def tagged_inv_def push_tagged_def split: to_run.splits option.splits prod.splits batch_state.splits)
    then show ?thesis using assms(1) by (simp add: all_inv_def)
  qed
  ultimately show ?thesis
    using assms proxy_ran_inv [of s i route] m by (simp add: all_inv_def tagged_inv_def)
qed

lemma proxy_ran_tagged_all:
  assumes inv: "all_inv s" and i: "i < length (tagged_workers s)" "tw_busy (tagged_workers s ! i)"
  shows "all_inv (fst (proxy_ran True (Suc i) route s))"
proof -
  let ?t = "tagged_workers s ! i" let ?s = "s\<lparr>tagged_workers := (tagged_workers s)[i := ?t\<lparr>tw_busy := False\<rparr>]\<rparr>"
  have t: "tagged_ok i ?t" using inv i by (simp add: all_inv_def tagged_inv_def)
  have "all_inv ?s"
    using inv i t by (simp add: all_inv_def pool_inv_def) (simp add: tagged_inv_def tagged_ok_def nth_list_update)
  then have "all_inv (fst (batch_ran (tw_run ?t) ?s))" by (rule batch_ran_all)
  moreover from this have "max_workers (fst (batch_ran (tw_run ?t) ?s)) \<noteq> 0"
    using inv_positive [of "fst (batch_ran (tw_run ?t) ?s)"] by (auto simp: all_inv_def)
  ultimately show ?thesis using i t by (simp add: proxy_ran_def Let_def case_prod_beta tagged_ok_def)
qed

lemma enqueue_all: "all_inv s \<Longrightarrow> pool_inv (enqueue_pending p s) \<Longrightarrow> all_inv (enqueue_pending p s)"
  by (simp add: all_inv_def enqueue_pending_def tagged_inv_def)

lemma dispatch_tagged [simp]:
  "tagged_workers (snd (dispatch_command n command data cb conn acc remote s)) = tagged_workers s"
  "tagged_workers (proxy_inject_task t s) = tagged_workers s"
  by (simp_all add: dispatch_command_def proxy_inject_task_def enqueue_pending_def)

lemma pool_step_inv:
  assumes "pool_step s s'" "all_inv s"
  shows "all_inv s'"
  using assms
proof (induction rule: pool_step.induct)
  case (command n s command data cb conn acc remote)
  then show ?case using dispatch_command_inv [of s n] by (simp add: all_inv_def tagged_inv_def)
next
  case (inject t s)
  then show ?case using proxy_inject_task_inv [of s t] by (simp add: all_inv_def tagged_inv_def)
next
  case (ran i s)
  then have "length (workers s) < 2 ^ 32" "i < length (workers s)"
    by (auto simp: all_inv_def pool_inv_def core_inv_def busy_def)
  with ran show ?case by (simp add: worker_message_ran proxy_ran_all)
next
  case (tagged_ran i s)
  then have "length (tagged_workers s) < 2 ^ 32" by (simp add: all_inv_def)
  with tagged_ran show ?case by (simp add: tagged_message_ran proxy_ran_tagged_all)
qed (simp_all add: alloc_def proxy_batch_all proxy_schedule_reply_job_def process_queue_all Let_def)


text \<open>
  The states of the pool after \<^verbatim>\<open>start()\<close>. The two bounds say that the number of threads fits into the
  \<^verbatim>\<open>int\<close>s that hold it.
\<close>

definition reachable_pool :: "nat \<Rightarrow> pool \<Rightarrow> bool" where
  "reachable_pool threads t \<longleftrightarrow> (\<exists>s0 s. config_step\<^sup>*\<^sup>* (pool_init threads) s0 \<and> start_pool s0 = Inr s
     \<and> max_workers s < 2 ^ 31 \<and> length (tagged_workers s) < 2 ^ 31 \<and> pool_step\<^sup>*\<^sup>* s t)"

lemma pool_steps_inv: "pool_step\<^sup>*\<^sup>* s t \<Longrightarrow> all_inv s \<Longrightarrow> all_inv t"
  by (induction rule: rtranclp_induct) (auto intro: pool_step_inv)

lemma reachable_inv: "reachable_pool threads t \<Longrightarrow> all_inv t"
  unfolding reachable_pool_def using configured_steps start_pool_inv pool_steps_inv
  by (auto simp: all_inv_def) blast+

lemma reachable_step: "reachable_pool threads s \<Longrightarrow> pool_step s t \<Longrightarrow> reachable_pool threads t"
  unfolding reachable_pool_def by (meson rtranclp.rtrancl_into_rtrancl)

text \<open>A small pool: one general thread, one category with one reserved thread and no queue.\<close>

definition example_config :: pool where
  "example_config = (pool_init 1)\<lparr>categories := [(''c'', mk_category default_access 1 0)]\<rparr>"

definition example_pool :: pool where
  "example_pool = example_config\<lparr>started := True, batch_jobs_reserved := 1, reply_jobs_reserved := 1,
     max_workers := 4, idle_workers := [0, 0, 0, 0], worker_sockets := 4\<rparr>"

lemma example_started:
  "config_step\<^sup>*\<^sup>* (pool_init 1) example_config" "start_pool example_config = Inr example_pool"
  "max_workers example_pool < 2 ^ 31" "length (tagged_workers example_pool) < 2 ^ 31"
proof -
  have "config_step (pool_init 1) example_config"
    by (rule config_step.category [of "''c''" default_access 1 0])
      (simp add: add_category_Inr example_config_def pool_init_def MAX_CATEGORY_LENGTH_def)
  then show "config_step\<^sup>*\<^sup>* (pool_init 1) example_config" by (rule r_into_rtranclp)
  show "start_pool example_config = Inr example_pool"
    by (simp add: start_pool_def init_workers_def size_pool_def Let_def example_pool_def example_config_def pool_init_def
        mk_category_def eval_nat_numeral)
  show "max_workers example_pool < 2 ^ 31" "length (tagged_workers example_pool) < 2 ^ 31"
    by (simp_all add: example_pool_def example_config_def pool_init_def)
qed

lemma example_pool_reachable: "reachable_pool 1 example_pool"
  unfolding reachable_pool_def using example_started by blast

definition example_busy :: pool where
  "example_busy = snd (dispatch_command ''c'' ''c.x'' [] (5, False) default_conn default_access [] example_pool)"

lemma example_busy_reachable: "reachable_pool 1 example_busy"
  unfolding example_busy_def
  by (rule reachable_step [OF example_pool_reachable pool_step.command])
    (simp add: example_pool_def example_config_def)


section \<open>Properties\<close>

lemma inv_bounds:
  assumes "all_inv t"
  shows "active_workers t \<le> max_workers t" "length (workers t) \<le> worker_sockets t"
    "length (idle_workers t) = worker_sockets t" "worker_sockets t = nat (max_workers t)"
    "idle_worker_count t \<le> length (workers t)" "distinct (take (idle_worker_count t) (idle_workers t))"
    "i < idle_worker_count t \<Longrightarrow> idle_workers t ! i < length (workers t)"
    "active_workers t = int (size (running t))"
proof -
  have core: "core_inv t" and sh: "shape_ok t" using assms by (simp_all add: all_inv_def pool_inv_def core_inv_shape)
  then show a: "active_workers t = int (size (running t))" by (simp add: active_workers_running)
  show "active_workers t \<le> max_workers t"
    using core sp.within_capacity [of t] a by (simp add: core_inv_def load_def)
  show "length (workers t) \<le> worker_sockets t" "length (idle_workers t) = worker_sockets t"
    "worker_sockets t = nat (max_workers t)" using core by (auto simp: core_inv_def)
  show "distinct (take (idle_worker_count t) (idle_workers t))" using sh by (simp add: shape_ok_def)
  show "idle_worker_count t \<le> length (workers t)"
    using a by (simp add: active_workers_def)
  assume i: "i < idle_worker_count t"
  then have "i < length (idle_workers t)" using sh by (simp add: shape_ok_def)
  with i have "idle_workers t ! i \<in> idle_set t" by (auto simp: idle_set_def in_set_conv_nth intro!: exI [of _ i])
  then show "idle_workers t ! i < length (workers t)" using sh by (auto simp: shape_ok_def)
qed



text \<open>C20: the pool's counters are exact. \<^verbatim>\<open>batch_jobs_active\<close>, \<^verbatim>\<open>reply_jobs_active\<close> and each category's
  \<^verbatim>\<open>active_threads\<close> equal the number of busy workers loaded with such work, so no decrement underflows; each
  category's \<^verbatim>\<open>queued\<close> equals the number of its commands in \<^verbatim>\<open>pending_commands\<close> and never exceeds a
  non-negative \<^verbatim>\<open>max_queue\<close>; and the work beyond the reservations never exceeds \<^verbatim>\<open>general_workers\<close>.\<close>

theorem pool_counters_exact:
  assumes "reachable_pool threads t"
  shows "batch_jobs_active t = int (count (image_mset kind_of (running t)) batch_kind)
    \<and> reply_jobs_active t = int (count (image_mset kind_of (running t)) reply_kind)
    \<and> (\<forall>n \<in> fst ` set (categories t).
         active_threads (get_category n t) = count (image_mset kind_of (running t)) (cat_kind n)
       \<and> queued (get_category n t) = int (length (of_cat n (pending_commands t)))
       \<and> (0 \<le> max_queue (get_category n t) \<longrightarrow> queued (get_category n t) \<le> max_queue (get_category n t)))
    \<and> (\<Sum>k\<in>kinds t. max 0 (active t k - reserved t k)) \<le> general_workers t"
proof -
  have inv: "core_inv t" "queue_inv t" using reachable_inv [OF assms] by (simp_all add: all_inv_def pool_inv_def)
  then have act: "active t k = int (count (load t) k)" if "k \<in> kinds t" for k
    using that by (simp add: core_inv_def)
  have "(\<Sum>k\<in>kinds t. max 0 (active t k - reserved t k)) = sp.excess t"
    unfolding sp.excess_def by (intro sum.cong) (simp_all add: act)
  then have "(\<Sum>k\<in>kinds t. max 0 (active t k - reserved t k)) \<le> general_workers t"
    using inv(1) by (simp add: core_inv_def)
  moreover have "batch_jobs_active t = int (count (image_mset kind_of (running t)) batch_kind)"
    "reply_jobs_active t = int (count (image_mset kind_of (running t)) reply_kind)"
    "\<And>n. n \<in> fst ` set (categories t) \<Longrightarrow>
       active_threads (get_category n t) = count (image_mset kind_of (running t)) (cat_kind n)"
    using act [of batch_kind] act [of reply_kind] act [of "cat_kind _"] by (simp_all add: load_def)
  ultimately show ?thesis using inv(2) unfolding queue_inv_def by blast
qed

theorem pool_counters_exact_witness:
  "''c'' \<in> fst ` set (categories example_busy) \<and>
   active_threads (get_category ''c'' example_busy) = count (image_mset kind_of (running example_busy)) (cat_kind ''c'')"
proof -
  have "''c'' \<in> fst ` set (categories example_busy)"
    by (simp add: example_busy_def example_pool_def example_config_def dispatch_command_def enqueue_pending_def)
  with pool_counters_exact [OF example_busy_reachable] show ?thesis by blast
qed


lemma inv_max: "all_inv t \<Longrightarrow> max_workers t \<noteq> 0"
  using inv_positive [of t] by (auto simp: all_inv_def)





text \<open>C21: a reserved thread is always available. Whatever the load of the pool, a command whose category runs
  fewer commands than it has reserved threads is handed to a worker at once (unless it is a request without
  a reply tag), within the bounds of the pool.\<close>

theorem reserved_thread_available:
  assumes "reachable_pool threads s" "n \<in> fst ` set (categories s)"
    and "active_threads (get_category n s) < reserved_threads (get_category n s)" "\<not> (snd cb \<and> data = [])"
  shows "\<exists>t. dispatch_command n command data cb conn acc remote s = (True, t)
    \<and> running t = add_mset (command_work \<lparr>pc_cat = n, pc_command = command, pc_data_parts = data,
        pc_callback = pending_cmd cb, pc_conn = conn, pc_access = acc, pc_remote = remote\<rparr>) (running s)
    \<and> active_workers s < max_workers s \<and> length (workers t) \<le> worker_sockets t"
proof -
  have inv: "all_inv s" using assms(1) by (rule reachable_inv)
  have core: "core_inv s" using inv by (simp add: all_inv_def pool_inv_def)
  let ?t = "snd (dispatch_command n command data cb conn acc remote s)"
  have free: "\<not> no_free_worker n s" using assms(3) by (simp add: no_free_worker_def)
  then have "active_workers s < max_workers s"
    using admits_below_max [OF core, of "cat_kind n"] admits_command [OF core assms(2)] assms(2) by simp
  moreover have "dispatch_command n command data cb conn acc remote s = (True, ?t)"
    using free assms(4) by (simp add: dispatch_command_def)
  moreover have "running ?t = add_mset (command_work \<lparr>pc_cat = n, pc_command = command, pc_data_parts = data,
      pc_callback = pending_cmd cb, pc_conn = conn, pc_access = acc, pc_remote = remote\<rparr>) (running s)"
    using free assms(4) start_worker_effect [OF core_inv_shape [OF core] loads_intros(4)]
    by (simp add: dispatch_command_def)
  moreover have "all_inv ?t" by (rule pool_step_inv [OF pool_step.command [OF assms(2)] inv])
  then have "length (workers ?t) \<le> worker_sockets ?t" by (rule inv_bounds)
  ultimately show ?thesis by blast
qed

theorem reserved_thread_available_witness:
  "\<exists>t. dispatch_command ''c'' ''c.x'' [''tag''] (5, True) default_conn default_access [] example_pool = (True, t)
    \<and> length (workers t) \<le> worker_sockets t"
proof -
  have "''c'' \<in> fst ` set (categories example_pool)"
    "active_threads (get_category ''c'' example_pool) < reserved_threads (get_category ''c'' example_pool)"
    by (simp_all add: example_pool_def example_config_def get_category_def mk_category_def)
  moreover have "\<not> (snd (5::nat, True) \<and> [''tag''] = [])" by simp
  ultimately show ?thesis using reserved_thread_available [OF example_pool_reachable] by blast
qed

text \<open>C38: the bounds do not hold after \<^verbatim>\<open>QUIT\<close>. Once \<^verbatim>\<open>max_workers\<close> and \<^verbatim>\<open>idle_worker_count\<close> have been set to
  zero, a command whose category has a reserved thread left still starts a worker, and since no worker
  counts as idle it is a new one. If all workers had been created, its index is the number of
  worker sockets: \<^verbatim>\<open>workers\<close> grows beyond its reserved capacity (which moves the \<^verbatim>\<open>run_info\<close> of running
  workers) and the new thread indexes \<^verbatim>\<open>worker_sockets\<close> out of range.\<close>

theorem quit_overruns_sockets:
  assumes "reachable_pool threads s" "length (workers s) = worker_sockets s"
    and "active_threads (get_category n s) < reserved_threads (get_category n s)" "\<not> (snd cb \<and> data = [])"
  shows "\<exists>t. dispatch_command n command data cb conn acc remote (quit_workers s) = (True, t)
    \<and> length (workers t) = worker_sockets t + 1 \<and> joinable (workers t ! worker_sockets t)"
proof -
  let ?q = "quit_workers s"
  have free: "\<not> no_free_worker n ?q" using assms(3) by (simp add: no_free_worker_def quit_workers_def get_category_def)
  have idle: "idle_worker_count ?q = 0" "workers ?q = workers s" "worker_sockets ?q = worker_sockets s"
    by (simp_all add: quit_workers_def)
  let ?t = "start_worker (load_command n command conn acc remote data cb) ?q"
  have "length (workers ?t) = worker_sockets s + 1" "joinable (workers ?t ! worker_sockets s)"
    using start_worker_new [OF idle(1) loads_intros(4)] assms(2) by (simp_all add: idle nth_append)
  then show ?thesis
    using free assms(4) by (simp add: dispatch_command_def idle)
qed

text \<open>Two threads; a command of \<open>d\<close> occupies the general one, one of \<open>c\<close> has come and gone.\<close>

definition full_config :: pool where
  "full_config = (pool_init 1)\<lparr>categories := [(''c'', mk_category default_access 1 0), (''d'', mk_category default_access 0 0)],
     batch_jobs_reserved := 0, reply_jobs_reserved := 0\<rparr>"

definition full_pool :: pool where
  "full_pool = full_config\<lparr>started := True, max_workers := 2, idle_workers := [0, 0], worker_sockets := 2\<rparr>"

definition dispatch_x :: "string \<Rightarrow> pool \<Rightarrow> pool" where
  "dispatch_x n s = snd (dispatch_command n ''x'' [] (5, False) default_conn default_access [] s)"

definition full_after :: pool where
  "full_after = fst (proxy_worker_message [routing_id CHR ''w'' 1, ''RAN''] (dispatch_x ''c'' (dispatch_x ''d'' full_pool)))"

lemma full_pool_reachable: "reachable_pool 1 full_pool"
proof -
  let ?c = "[(''c'', mk_category default_access 1 0)]" and ?d = "[(''d'', mk_category default_access 0 0)]"
  let ?s1 = "(pool_init 1)\<lparr>categories := ?c\<rparr>" let ?s2 = "?s1\<lparr>categories := ?c @ ?d\<rparr>"
  let ?s3 = "?s2\<lparr>batch_jobs_reserved := 0\<rparr>"
  have "config_step (pool_init 1) ?s1"
    by (rule config_step.category [of "''c''" default_access 1 0])
      (simp add: add_category_Inr pool_init_def MAX_CATEGORY_LENGTH_def)
  moreover have "config_step ?s1 ?s2"
    by (rule config_step.category [of "''d''" default_access 0 0])
      (simp add: add_category_Inr pool_init_def MAX_CATEGORY_LENGTH_def)
  moreover have "config_step ?s2 ?s3"
    by (rule config_step.batch_threads [of 0]) (simp add: set_batch_threads_def pool_init_def)
  moreover have "config_step ?s3 full_config"
    by (rule config_step.reply_threads [of 0]) (simp add: set_reply_threads_def pool_init_def full_config_def)
  ultimately have "config_step\<^sup>*\<^sup>* (pool_init 1) full_config"
    by (meson converse_rtranclp_into_rtranclp rtranclp.rtrancl_refl)
  moreover have "start_pool full_config = Inr full_pool"
    by (simp add: start_pool_def init_workers_def size_pool_def Let_def full_pool_def full_config_def pool_init_def
        mk_category_def eval_nat_numeral)
  moreover have "max_workers full_pool < 2 ^ 31" "length (tagged_workers full_pool) < 2 ^ 31"
    by (simp_all add: full_pool_def full_config_def pool_init_def)
  ultimately show ?thesis unfolding reachable_pool_def by blast
qed

lemma dispatch_x_reachable: "reachable_pool k s \<Longrightarrow> n \<in> fst ` set (categories s) \<Longrightarrow> reachable_pool k (dispatch_x n s)"
  unfolding dispatch_x_def by (rule reachable_step [OF _ pool_step.command])

lemmas full_eval = full_pool_def full_config_def pool_init_def mk_category_def dispatch_x_def dispatch_command_def
  no_free_worker_def get_category_def active_workers_def on_category_def upd_category_def start_worker_def
  get_idle_worker_def Let_def proxy_run_worker_def load_command_def run_reset_def new_run_info_def inc32_def

lemma full_busy:
  "categories (dispatch_x ''c'' (dispatch_x ''d'' full_pool)) =
     [(''c'', (mk_category default_access 1 0)\<lparr>active_threads := 1\<rparr>), (''d'', (mk_category default_access 0 0)\<lparr>active_threads := 1\<rparr>)]"
  "length (workers (dispatch_x ''c'' (dispatch_x ''d'' full_pool))) = 2"
  "idle_worker_count (dispatch_x ''c'' (dispatch_x ''d'' full_pool)) = 0"
  "max_workers (dispatch_x ''c'' (dispatch_x ''d'' full_pool)) = 2"
  "worker_sockets (dispatch_x ''c'' (dispatch_x ''d'' full_pool)) = 2"
  "is_batch_job (workers (dispatch_x ''c'' (dispatch_x ''d'' full_pool)) ! 1) = False"
  "ri_cat (workers (dispatch_x ''c'' (dispatch_x ''d'' full_pool)) ! 1) = ''c''"
  by (simp_all add: full_eval)


lemma full_after_reachable: "reachable_pool 1 full_after"
proof -
  let ?s = "dispatch_x ''c'' (dispatch_x ''d'' full_pool)"
  have "''d'' \<in> fst ` set (categories full_pool)" by (simp add: full_pool_def full_config_def)
  then have "reachable_pool 1 (dispatch_x ''d'' full_pool)" by (rule dispatch_x_reachable [OF full_pool_reachable])
  moreover have "''c'' \<in> fst ` set (categories (dispatch_x ''d'' full_pool))" by (simp add: full_eval)
  ultimately have "reachable_pool 1 ?s" by (rule dispatch_x_reachable)
  moreover have "1 \<in> busy ?s" by (simp add: busy_def idle_set_def full_busy)
  ultimately show ?thesis unfolding full_after_def by (rule reachable_step [OF _ pool_step.ran])
qed

lemma full_after_state:
  "categories full_after = [(''c'', mk_category default_access 1 0), (''d'', (mk_category default_access 0 0)\<lparr>active_threads := 1\<rparr>)]"
  "length (workers full_after) = 2" "worker_sockets full_after = 2"
proof -
  have eq: "full_after = fst (proxy_ran False 1 (routing_id CHR ''w'' 1) (dispatch_x ''c'' (dispatch_x ''d'' full_pool)))"
    unfolding full_after_def by (subst worker_message_ran) (simp_all add: full_busy)
  show "categories full_after = [(''c'', mk_category default_access 1 0), (''d'', (mk_category default_access 0 0)\<lparr>active_threads := 1\<rparr>)]"
    "length (workers full_after) = 2" "worker_sockets full_after = 2"
    by (simp_all add: eq proxy_ran_def Let_def full_busy full_busy(6,7) [simplified])
      (simp add: on_category_def full_busy upd_category_def dec32_def mk_category_def)
qed

theorem quit_overruns_sockets_witness:
  "\<exists>t. dispatch_command ''c'' ''c.x'' [] (5, False) default_conn default_access [] (quit_workers full_after) = (True, t)
    \<and> length (workers t) = 3 \<and> worker_sockets t = 2"
proof -
  have "length (workers full_after) = worker_sockets full_after"
    "active_threads (get_category ''c'' full_after) < reserved_threads (get_category ''c'' full_after)"
    by (simp_all add: full_after_state get_category_def mk_category_def)
  moreover have "\<not> (snd (5 :: nat, False) \<and> [] = ([] :: string list))" by simp
  ultimately obtain t where t: "dispatch_command ''c'' ''c.x'' [] (5, False) default_conn default_access [] (quit_workers full_after) = (True, t)"
    "length (workers t) = worker_sockets t + 1"
    using quit_overruns_sockets [OF full_after_reachable, of "''c''" "(5, False)" "[]"] by blast
  then have "t = snd (dispatch_command ''c'' ''c.x'' [] (5, False) default_conn default_access [] (quit_workers full_after))" by simp
  then have "worker_sockets t = 2"
    by (simp add: dispatch_command_def enqueue_pending_def quit_workers_def full_after_state)
  with t show ?thesis by auto
qed

end
