(* ===== verification/Pool_Batches.thy ===== *)
theory Pool_Batches
  imports Pool_Inv
begin

text \<open>
  The life of batch objects: \<^verbatim>\<open>detail::Batch*\<close> pointers are shared between the proxy's queues, the workers'
  \<^verbatim>\<open>run_info\<close> and the delete statements of \<^verbatim>\<open>proxy_worker_message\<close>. The invariant \<open>heap_ok\<close> relates the store of
  objects to the multiset of their uses, every operation of the pool preserves it, and so no deleted object
  is ever used.
\<close>

section \<open>Batches and their jobs\<close>

text \<open>
  A pair of an address and a job number that is queued or running stands for one use of the object. For
  every object, the jobs that are not finished are there, each once; then at most one completion; an object
  that has not been handed to the proxy yet is in no queue; and nothing refers to a deleted object.
\<close>

definition uses :: "nat \<Rightarrow> batch_job multiset \<Rightarrow> int multiset" where
  "uses p T = image_mset snd (filter_mset (\<lambda>bj. fst bj = p) T)"

definition obj_state_ok :: "batch_obj \<Rightarrow> int multiset \<Rightarrow> bool" where
  "obj_state_ok b U \<longleftrightarrow>
     (obj_ok b \<and> 0 < obj_remaining b \<and> (U = {#} \<and> obj_remaining b = fst (obj_size b)
        \<or> size U = obj_remaining b \<and> U \<subseteq># image_mset int (mset [0..<fst (obj_size b)])))
     \<or> U = {#-1#} \<and> fst (obj_last b) = batch_complete"

definition heap_ok :: "(nat \<Rightarrow> batch_obj option) \<Rightarrow> batch_job multiset \<Rightarrow> bool" where
  "heap_ok h T \<longleftrightarrow> (\<forall>p. case h p of None \<Rightarrow> uses p T = {#} | Some b \<Rightarrow> obj_state_ok b (uses p T))"

lemma uses_simps [simp]:
  "uses p {#} = {#}" "uses p (T + U) = uses p T + uses p U"
  "uses p (add_mset (q, j) T) = (if q = p then add_mset j (uses p T) else uses p T)"
  by (auto simp: uses_def)

lemma uses_image [simp]: "uses p (image_mset (\<lambda>i. (q, f i)) M) = (if p = q then image_mset f M else {#})"
  by (induction M) auto

lemma heap_ok_case: "heap_ok h T \<Longrightarrow> case h p of None \<Rightarrow> uses p T = {#} | Some b \<Rightarrow> obj_state_ok b (uses p T)"
  unfolding heap_ok_def by (erule spec)

lemma heap_ok_at: "heap_ok h T \<Longrightarrow> h p = Some b \<Longrightarrow> obj_state_ok b (uses p T)"
  and heap_ok_None: "heap_ok h T \<Longrightarrow> h p = None \<Longrightarrow> uses p T = {#}"
  using heap_ok_case [of h T p] by simp_all

lemma heap_ok_live: "heap_ok h T \<Longrightarrow> (p, j) \<in># T \<Longrightarrow> \<exists>b. h p = Some b"
proof (rule ccontr)
  assume *: "heap_ok h T" "(p, j) \<in># T" "\<nexists>b. h p = Some b"
  then have "uses p T = {#}" by (intro heap_ok_None [of h]) auto
  with *(2) show False by (auto simp: uses_def filter_mset_eq_conv)
qed

lemma heap_ok_upd:
  assumes "heap_ok h T" "\<And>q. q \<noteq> p \<Longrightarrow> uses q T' = uses q T"
    "case v of None \<Rightarrow> uses p T' = {#} | Some b \<Rightarrow> obj_state_ok b (uses p T')"
  shows "heap_ok (h(p := v)) T'"
  unfolding heap_ok_def
proof
  fix q
  show "case (h(p := v)) q of None \<Rightarrow> uses q T' = {#} | Some b \<Rightarrow> obj_state_ok b (uses q T')"
  proof (cases "q = p")
    case True
    with assms(3) show ?thesis by (cases v) simp_all
  next
    case False
    with heap_ok_case [OF assms(1), of q] assms(2) [OF False] show ?thesis by (cases "h q") simp_all
  qed
qed

lemma heap_ok_new:
  assumes "heap_ok h T" "h p = None" "obj_ok b" "0 < obj_remaining b" "obj_remaining b = fst (obj_size b)"
  shows "heap_ok (h(p \<mapsto> b)) T"
proof (rule heap_ok_upd [OF assms(1)])
  have "uses p T = {#}" using assms(1,2) by (rule heap_ok_None)
  then show "case Some b of None \<Rightarrow> uses p T = {#} | Some b \<Rightarrow> obj_state_ok b (uses p T)"
    using assms by (simp add: obj_state_ok_def)
qed simp

lemma heap_ok_submit:
  assumes "heap_ok h T" "h p = Some b" "uses p T = {#}"
  shows "heap_ok h (T + mset (map (\<lambda>i. (p, int i)) [0..<fst (obj_size b)]))"
proof -
  have "obj_state_ok b {#}" using heap_ok_at [OF assms(1,2)] assms(3) by simp
  then have "obj_state_ok b (image_mset int (mset [0..<fst (obj_size b)]))"
    by (auto simp: obj_state_ok_def)
  then have "heap_ok (h(p := Some b)) (T + mset (map (\<lambda>i. (p, int i)) [0..<fst (obj_size b)]))"
    using assms(1,3) by (intro heap_ok_upd [OF assms(1)]) simp_all
  moreover have "h(p := Some b) = h" using assms(2) by (simp add: fun_upd_idem)
  ultimately show ?thesis by simp
qed

text \<open>A running job is a job of its object.\<close>

lemma heap_ok_job:
  assumes "heap_ok h (add_mset (p, j) T)" "h p = Some b" "j \<noteq> -1"
  shows "obj_ok b" "0 \<le> j" "nat j < fst (obj_size b)" "obj_remaining b = Suc (size (uses p T))"
    "add_mset j (uses p T) \<subseteq># image_mset int (mset [0..<fst (obj_size b)])"
proof -
  have "obj_state_ok b (add_mset j (uses p T))" using heap_ok_at [OF assms(1,2)] by simp
  then have *: "obj_ok b" "size (add_mset j (uses p T)) = obj_remaining b"
    and sub: "add_mset j (uses p T) \<subseteq># image_mset int (mset [0..<fst (obj_size b)])"
    using assms(3) by (auto simp: obj_state_ok_def)
  show "obj_ok b" "obj_remaining b = Suc (size (uses p T))" using * by simp_all
  show "add_mset j (uses p T) \<subseteq># image_mset int (mset [0..<fst (obj_size b)])" by fact
  have "j \<in># image_mset int (mset [0..<fst (obj_size b)])" using mset_subset_eqD [OF sub, of j] by simp
  then show "0 \<le> j" "nat j < fst (obj_size b)" by auto
qed

lemma obj_finished_keeps:
  "obj_job_finished b = (b', r) \<Longrightarrow> obj_last b' = obj_last b \<and> obj_threads b' = obj_threads b"
  by (cases b) (auto simp: case_prod_beta batch_job_finished_def job_job_finished_def Let_def batch_last_def
      batch_threads_def split: if_splits)

text \<open>The three outcomes of \<^verbatim>\<open>job_finished\<close>.\<close>

lemma heap_ok_finished:
  assumes ok: "heap_ok h (add_mset (p, j) T)" and b: "h p = Some b" "j \<noteq> -1" and fin: "obj_job_finished b = (b', st, th)"
  shows "st = batch_running \<Longrightarrow> heap_ok (h(p \<mapsto> b')) T"
    and "st = batch_complete \<Longrightarrow> heap_ok (h(p \<mapsto> b')) (add_mset (p, -1) T)"
    and "st \<noteq> batch_running \<Longrightarrow> heap_ok (h(p := None)) T \<and> uses p T = {#}"
proof -
  note job = heap_ok_job [OF ok b]
  have others: "uses q T = uses q (add_mset (p, j) T)" if "q \<noteq> p" for q using that by simp
  have last: "uses p T = {#}" if "st \<noteq> batch_running"
  proof (rule ccontr)
    assume "uses p T \<noteq> {#}"
    then have "1 < obj_remaining b" using job(4) by (simp add: nonempty_has_size)
    from oi.not_last [OF job(1) this fin] that show False by simp
  qed
  show "heap_ok (h(p := None)) T \<and> uses p T = {#}" if "st \<noteq> batch_running"
    using last [OF that] others by (auto intro!: heap_ok_upd [OF ok])
  have lst: "obj_last b' = (st, th)" if "st \<noteq> batch_running"
  proof -
    have "obj_remaining b = 1" using last [OF that] job(4) by simp
    from oi.the_last [OF job(1) this] obj_finished_keeps [OF fin] fin show ?thesis by simp
  qed
  show "heap_ok (h(p \<mapsto> b')) (add_mset (p, -1) T)" if "st = batch_complete"
    using last lst that others by (intro heap_ok_upd [OF ok]) (simp_all add: obj_state_ok_def)
  show "heap_ok (h(p \<mapsto> b')) T" if run: "st = batch_running"
  proof (rule heap_ok_upd [OF ok others])
    have "obj_remaining b \<noteq> 1"
    proof
      assume "obj_remaining b = 1"
      from oi.the_last [OF job(1) this] have "obj_last b = (st, th)" using fin by simp
      with oi.last_not_running [OF job(1)] run show False by simp
    qed
    then have r: "1 < obj_remaining b" using job(4) by (cases "size (uses p T)") simp_all
    note nl = oi.not_last [OF job(1) r fin]
    have "uses p T \<subseteq># image_mset int (mset [0..<fst (obj_size b')])"
      using job(5) nl subset_mset.order_trans [of "uses p T" "add_mset j (uses p T)"] by simp
    then show "case Some b' of None \<Rightarrow> uses p T = {#} | Some b \<Rightarrow> obj_state_ok b (uses p T)"
      using nl job(4) r by (simp add: obj_state_ok_def)
  qed
qed

lemma heap_ok_completed:
  assumes "heap_ok h (add_mset (p, -1) T)" "h p = Some b"
  shows "heap_ok (h(p := None)) T"
proof (rule heap_ok_upd [OF assms(1)])
  have "obj_state_ok b (add_mset (-1) (uses p T))" using heap_ok_at [OF assms] by simp
  moreover have "\<not> add_mset (-1) (uses p T) \<subseteq># image_mset int (mset [0..<fst (obj_size b)])"
    using mset_subset_eqD [of "add_mset (-1) (uses p T)" "image_mset int (mset [0..<fst (obj_size b)])" "-1"] by auto
  ultimately show "case None of None \<Rightarrow> uses p T = {#} | Some b \<Rightarrow> obj_state_ok b (uses p T)"
    by (auto simp: obj_state_ok_def)
qed simp


section \<open>The jobs of a pool\<close>

fun work_jobs :: "work \<Rightarrow> batch_job multiset" where
  "work_jobs (batch_work bj) = {#bj#}"
| "work_jobs (reply_work bj) = {#bj#}"
| "work_jobs (command_work p) = {#}"

definition tagged_jobs :: "tagged_worker \<Rightarrow> batch_job multiset" where
  "tagged_jobs t = mset (tw_queue t)
     + (if tw_busy t then {#(run_ptr (tw_run t), batch_jobno (tw_run t))#} else {#})"

definition pool_jobs :: "'a pool_scheme \<Rightarrow> batch_job multiset" where
  "pool_jobs s = mset (batch_jobs s) + mset (reply_jobs s) + \<Sum>\<^sub># (image_mset work_jobs (running s))
     + sum_list (map tagged_jobs (tagged_workers s))"

text \<open>The threads that an object names exist.\<close>

definition threads_ok :: "nat \<Rightarrow> batch_obj \<Rightarrow> bool" where
  "threads_ok n b \<longleftrightarrow> snd (obj_last b) \<le> int n \<and> (\<forall>t \<in> set (obj_threads b). t \<le> int n)"

definition batches_ok :: "'a pool_scheme \<Rightarrow> bool" where
  "batches_ok s \<longleftrightarrow> heap_ok (heap s) (pool_jobs s) \<and> (\<forall>p \<ge> next_ptr s. heap s p = None)
     \<and> (\<forall>b \<in> ran (heap s). threads_ok (length (tagged_workers s)) b)"

lemma tagged_jobs_start [simp]: "tagged_jobs (start_tagged t) = tagged_jobs t"
proof (cases "\<not> tw_busy t \<and> tw_queue t \<noteq> []")
  case True
  then obtain bj q where "tw_queue t = bj # q" by (cases "tw_queue t") auto
  with True show ?thesis
    by (simp add: tagged_jobs_def start_tagged_def proxy_run_worker_def load_batch_def run_reset_def run_ptr_def)
qed (auto simp: start_tagged_def)

lemma sum_mset_works [simp]:
  "\<Sum>\<^sub># (image_mset work_jobs (image_mset batch_work M)) = M"
  "\<Sum>\<^sub># (image_mset work_jobs (image_mset reply_work M)) = M"
  "\<Sum>\<^sub># (image_mset work_jobs (image_mset command_work N)) = {#}"
  by (induction M, simp_all)

lemma process_queue_jobs:
  assumes "pool_inv s" "max_workers s \<noteq> 0"
  shows "pool_jobs (proxy_process_queue s) = pool_jobs s"
proof -
  from process_queue_effect [OF assms refl] obtain bs rs cs where
    "batch_jobs s = bs @ batch_jobs (proxy_process_queue s)" "reply_jobs s = rs @ reply_jobs (proxy_process_queue s)"
    "running (proxy_process_queue s) = running s + image_mset batch_work (mset bs) + image_mset reply_work (mset rs)
        + image_mset command_work (mset cs)"
    "tagged_workers (proxy_process_queue s) = map start_tagged (tagged_workers s)"
    by (elim exE conjE)
  then show ?thesis by (simp add: pool_jobs_def comp_def)
qed


lemma run_batch_jobs_heap [simp]:
  "heap (proxy_run_batch_jobs reply s) = heap s \<and> next_ptr (proxy_run_batch_jobs reply s) = next_ptr s"
proof (induction reply s rule: proxy_run_batch_jobs.induct)
  case (1 reply s)
  have "heap (run_batch_job reply s) = heap s" "next_ptr (run_batch_job reply s) = next_ptr s"
    by (simp_all add: run_batch_job_def pop_job_def)
  with 1 show ?case by (subst (1 2) proxy_run_batch_jobs.simps) simp
qed

lemma run_pending_heap:
  "run_pending ps s = (kept, s') \<Longrightarrow> heap s' = heap s \<and> next_ptr s' = next_ptr s"
proof (induction ps s arbitrary: kept s' rule: run_pending.induct)
  case (2 p ps s)
  have "heap (run_pending_command p s) = heap s" "next_ptr (run_pending_command p s) = next_ptr s"
    by (simp_all add: run_pending_command_def)
  with 2 show ?case by (auto split: if_splits prod.splits)
qed simp

lemma fold_tagged_heap [simp]:
  "heap (fold run_tagged xs s) = heap s \<and> next_ptr (fold run_tagged xs s) = next_ptr s"
proof -
  obtain t m where "fold run_tagged xs s = s\<lparr>tagged_workers := t, to_workers := m\<rparr>"
    using run_tagged_fold_upd [of xs s] by (elim exE)
  then show ?thesis by simp
qed

lemma process_queue_heap [simp]:
  "heap (proxy_process_queue s) = heap s \<and> next_ptr (proxy_process_queue s) = next_ptr s"
  by (simp add: proxy_process_queue_def Let_def case_prod_beta run_pending_heap [OF surjective_pairing])

lemma process_queue_length:
  "all_inv s \<Longrightarrow> length (tagged_workers (proxy_process_queue s)) = length (tagged_workers s)"
  using process_queue_effect [of s, OF _ _ refl] inv_max [of s] by (auto simp: all_inv_def)

lemma process_queue_batches: "all_inv s \<Longrightarrow> batches_ok s \<Longrightarrow> batches_ok (proxy_process_queue s)"
  using process_queue_jobs [of s] inv_max [of s] process_queue_length [of s] by (simp add: batches_ok_def all_inv_def)

lemma start_command_jobs:
  "shape_ok s \<Longrightarrow> loads f (command_work p) \<Longrightarrow> pool_jobs (start_worker f s) = pool_jobs s"
  using start_worker_effect [of s f "command_work p"] by (simp add: pool_jobs_def)

lemma pool_jobs_on [simp]: "pool_jobs (on_category n f s) = pool_jobs s"
  by (simp add: pool_jobs_def)

lemma enqueue_jobs [simp]: "pool_jobs (enqueue_pending p s) = pool_jobs s" "heap (enqueue_pending p s) = heap s"
  "next_ptr (enqueue_pending p s) = next_ptr s" "tagged_workers (enqueue_pending p s) = tagged_workers s"
  by (simp_all add: enqueue_pending_def) (simp add: pool_jobs_def)

lemma dispatch_batches:
  "shape_ok s \<Longrightarrow> batches_ok s \<Longrightarrow> batches_ok (snd (dispatch_command n command data cb conn acc remote s))"
  by (simp add: batches_ok_def dispatch_command_def start_command_jobs [OF _ loads_intros(4)])

lemma inject_batches: "shape_ok s \<Longrightarrow> batches_ok s \<Longrightarrow> batches_ok (proxy_inject_task t s)"
  by (simp add: batches_ok_def proxy_inject_task_def start_command_jobs [OF _ loads_intros(5)])

text \<open>New objects.\<close>

definition fresh_obj :: "'a pool_scheme \<Rightarrow> batch_obj \<Rightarrow> bool" where
  "fresh_obj s b \<longleftrightarrow> obj_ok b \<and> 0 < obj_remaining b \<and> obj_remaining b = fst (obj_size b)
     \<and> threads_ok (length (tagged_workers s)) b"

lemma alloc_batches: "batches_ok s \<Longrightarrow> fresh_obj s b \<Longrightarrow> batches_ok (snd (alloc b s))"
proof -
  assume *: "batches_ok s" "fresh_obj s b"
  have "pool_jobs (snd (alloc b s)) = pool_jobs s" by (simp add: alloc_def pool_jobs_def running_def busy_def idle_set_def)
  with * show ?thesis
    using heap_ok_new [of "heap s" "pool_jobs s" "next_ptr s" b]
    by (auto simp: batches_ok_def alloc_def fresh_obj_def ran_def)
qed

lemma schedule_jobs: "pool_jobs (proxy_schedule_reply_job f s) = add_mset (next_ptr s, 0) (pool_jobs s)"
  by (simp add: proxy_schedule_reply_job_def alloc_def pool_jobs_def running_def busy_def idle_set_def)

lemma reply_batches: "batches_ok s \<Longrightarrow> batches_ok (proxy_schedule_reply_job f s)"
proof -
  assume ok: "batches_ok s"
  let ?b = "JobObj (new_job_in f 0)" and ?p = "next_ptr s"
  have n: "obj_ok ?b" "0 < obj_remaining ?b" "obj_remaining ?b = fst (obj_size ?b)" "fst (obj_size ?b) = 1"
    by (simp_all add: job_size_def)
  have new: "heap_ok ((heap s)(?p \<mapsto> ?b)) (pool_jobs s)"
    using ok n by (intro heap_ok_new) (simp_all add: batches_ok_def)
  have "uses ?p (pool_jobs s) = {#}" using ok heap_ok_None [of "heap s" "pool_jobs s" ?p] by (simp add: batches_ok_def)
  from heap_ok_submit [OF new _ this, of ?b] n(4)
  have "heap_ok ((heap s)(?p \<mapsto> ?b)) (add_mset (?p, 0) (pool_jobs s))" by simp
  with schedule_jobs [of f s] show ?thesis
    using ok by (auto simp: batches_ok_def proxy_schedule_reply_job_def alloc_def ran_def threads_ok_def new_job_in_def job_threads_def)
qed


lemma sum_tagged_update:
  "i < length ts \<Longrightarrow> tagged_jobs t + M = tagged_jobs (ts ! i) + N \<Longrightarrow>
    sum_list (map tagged_jobs (ts[i := t])) + M = sum_list (map tagged_jobs ts) + N"
proof (induction ts arbitrary: i)
  case (Cons x ts)
  show ?case
  proof (cases i)
    case 0
    with Cons.prems show ?thesis by (simp add: ac_simps)
  next
    case (Suc j)
    with Cons.IH [of j] Cons.prems show ?thesis by (simp add: add.assoc)
  qed
qed simp

lemma push_tagged_jobs:
  assumes "i < length (tagged_workers s)"
  shows "pool_jobs (push_tagged i bj s) = add_mset bj (pool_jobs s)"
proof -
  have "sum_list (map tagged_jobs (tagged_workers (push_tagged i bj s))) = add_mset bj (sum_list (map tagged_jobs (tagged_workers s)))"
    using sum_tagged_update [OF assms, of "(tagged_workers s ! i)\<lparr>tw_queue := tw_queue (tagged_workers s ! i) @ [bj]\<rparr>" "{#}" "{#bj#}"]
    by (simp add: push_tagged_def tagged_jobs_def)
  then show ?thesis by (simp add: pool_jobs_def push_tagged_def)
qed

lemma push_job_jobs: "thread \<le> int (length (tagged_workers s)) \<Longrightarrow> pool_jobs (push_job thread bj s) = add_mset bj (pool_jobs s)"
  by (cases "0 < thread") (simp_all add: push_job_def push_tagged_jobs, simp add: pool_jobs_def)

lemma push_job_keeps [simp]:
  "length (tagged_workers (push_job thread bj s)) = length (tagged_workers s)" "heap (push_job thread bj s) = heap s"
  "next_ptr (push_job thread bj s) = next_ptr s"
  by (simp_all add: push_job_def push_tagged_def)

lemma fold_push_job:
  "(\<And>i. i \<in> set xs \<Longrightarrow> f i \<le> int (length (tagged_workers s))) \<Longrightarrow>
    pool_jobs (fold (\<lambda>i. push_job (f i) (g i)) xs s) = pool_jobs s + image_mset g (mset xs)
    \<and> length (tagged_workers (fold (\<lambda>i. push_job (f i) (g i)) xs s)) = length (tagged_workers s)
    \<and> heap (fold (\<lambda>i. push_job (f i) (g i)) xs s) = heap s
    \<and> next_ptr (fold (\<lambda>i. push_job (f i) (g i)) xs s) = next_ptr s"
  by (induction xs arbitrary: s) (simp_all add: push_job_jobs)

lemma proxy_batch_jobs:
  assumes ok: "batches_ok s" and b: "heap s ptr = Some b" and new: "uses ptr (pool_jobs s) = {#}"
  shows "pool_jobs (proxy_batch ptr s) = pool_jobs s + image_mset (\<lambda>i. (ptr, int i)) (mset [0..<fst (obj_size b)])
    \<and> heap (proxy_batch ptr s) = heap s \<and> next_ptr (proxy_batch ptr s) = next_ptr s
    \<and> length (tagged_workers (proxy_batch ptr s)) = length (tagged_workers s)"
proof -
  let ?n = "fst (obj_size b)"
  have th: "threads_ok (length (tagged_workers s)) b" using ok b by (auto simp: batches_ok_def ran_def)
  have oko: "obj_ok b"
    using heap_ok_at [of "heap s" "pool_jobs s" ptr b] ok b new by (auto simp: batches_ok_def obj_state_ok_def)
  have t: "obj_threads b ! i \<le> int (length (tagged_workers s))" if "i \<in> set [0..<?n]" for i
    using th that oi.threads_length [OF oko] by (simp add: threads_ok_def)
  show ?thesis
  proof (cases "snd (obj_size b)")
    case False
    then show ?thesis using b by (simp add: proxy_batch_def case_prod_beta pool_jobs_def running_def busy_def idle_set_def)
  next
    case True
    note fold = fold_push_job [of "[0..<?n]" "\<lambda>i. obj_threads b ! i" s "\<lambda>i. (ptr, int i)", OF t]
    have "pool_jobs (u\<lparr>proxy_skip_one_poll := x\<rparr>) = pool_jobs u" for u :: "'a pool_scheme" and x
      by (simp add: pool_jobs_def running_def busy_def idle_set_def)
    with True b fold show ?thesis by (simp add: proxy_batch_def case_prod_beta)
  qed
qed

lemma proxy_batch_batches:
  assumes "batches_ok s" "heap s ptr = Some b" "uses ptr (pool_jobs s) = {#}"
  shows "batches_ok (proxy_batch ptr s)"
  using proxy_batch_jobs [OF assms] heap_ok_submit [of "heap s" "pool_jobs s" ptr b] assms by (simp add: batches_ok_def)


text \<open>Finished jobs.\<close>

lemma finished_threads:
  "threads_ok n b \<Longrightarrow> obj_job_finished b = (b', r) \<Longrightarrow> threads_ok n b'"
  using obj_finished_keeps [of b b' r] by (simp add: threads_ok_def)

lemma finished_complete:
  "heap_ok h (add_mset (p, j) T) \<Longrightarrow> h p = Some b \<Longrightarrow> j \<noteq> -1 \<Longrightarrow> obj_job_finished b = (b', batch_complete, th) \<Longrightarrow>
    obj_last b = (batch_complete, th)"
proof -
  assume *: "heap_ok h (add_mset (p, j) T)" "h p = Some b" "j \<noteq> -1" "obj_job_finished b = (b', batch_complete, th)"
  note job = heap_ok_job [OF *(1-3)]
  have "uses p T = {#}" using heap_ok_finished(3) [OF *] by simp
  then have "obj_remaining b = 1" using job(4) by simp
  from oi.the_last [OF job(1) this] *(4) show ?thesis by simp
qed

lemma ran_upd_None: "ran (h(p := None)) \<subseteq> ran h"
  by (auto simp: ran_def)

lemma batch_ran_batches:
  assumes ok: "heap_ok (heap s) (add_mset (p, j) T)" and th: "\<forall>b \<in> ran (heap s). threads_ok (length (tagged_workers s)) b"
    and r: "to_run r = run_batch p" "batch_jobno r = j" and u: "u = fst (batch_ran r s)"
  shows "\<exists>X. heap_ok (heap u) (X + T) \<and> pool_jobs u = X + pool_jobs s \<and> next_ptr u = next_ptr s
    \<and> length (tagged_workers u) = length (tagged_workers s) \<and> (\<forall>q. heap s q = None \<longrightarrow> heap u q = None)
    \<and> (\<forall>b \<in> ran (heap u). threads_ok (length (tagged_workers s)) b) \<and> set_mset X \<subseteq> {(p, -1)}"
proof -
  obtain b where b: "heap s p = Some b" using heap_ok_live [OF ok, of p j] by auto
  have hj: "pool_jobs (s\<lparr>heap := h\<rparr>) = pool_jobs s" for h by (simp add: pool_jobs_def running_def busy_def idle_set_def)
  have del: ?thesis if "u = s\<lparr>heap := (heap s)(p := None)\<rparr>" "heap_ok ((heap s)(p := None)) T"
    using that th ran_upd_None [of "heap s" p] by (intro exI [of _ "{#}"]) (auto simp: hj)
  show ?thesis
  proof (cases "j = -1")
    case True
    with heap_ok_completed [of "heap s" p T b] ok b r u show ?thesis by (intro del) (simp_all add: batch_ran_def)
  next
    case False
    obtain b' st thr where fin: "obj_job_finished b = (b', st, thr)" by (cases "obj_job_finished b")
    note f = heap_ok_finished [OF ok b False fin]
    have thb: "threads_ok (length (tagged_workers s)) b" using th b by (auto simp: ran_def)
    then have th': "\<forall>x \<in> ran ((heap s)(p \<mapsto> b')). threads_ok (length (tagged_workers s)) x"
      using th finished_threads [OF _ fin] by (auto simp: ran_def)
    define s1 where "s1 = s\<lparr>heap := (heap s)(p \<mapsto> b')\<rparr>"
    have s1: "pool_jobs s1 = pool_jobs s" "heap s1 = (heap s)(p \<mapsto> b')" "tagged_workers s1 = tagged_workers s"
      "next_ptr s1 = next_ptr s" by (simp_all add: s1_def hj)
    show ?thesis
    proof (cases st)
      case batch_running
      then have "u = s1" using u r b fin False by (simp add: batch_ran_def s1_def)
      with f(1) batch_running s1 th' b show ?thesis by (intro exI [of _ "{#}"]) auto
    next
      case batch_done
      with u r b fin False f(3) show ?thesis by (intro del) (simp_all add: batch_ran_def)
    next
      case batch_complete
      show ?thesis
      proof (cases "thr = -1")
        case True
        with batch_complete u r b fin False f(3) show ?thesis by (intro del) (simp_all add: batch_ran_def)
      next
        case inline: False
        have "thr \<le> int (length (tagged_workers s))"
          using finished_complete [OF ok b False] fin batch_complete thb by (auto simp: threads_ok_def)
        then have "pool_jobs u = add_mset (p, -1) (pool_jobs s1) \<and> heap u = heap s1 \<and> next_ptr u = next_ptr s1
            \<and> length (tagged_workers u) = length (tagged_workers s1)"
          using u r b fin False batch_complete inline push_tagged_jobs [of "nat (thr - 1)" s1 "(p, -1)"] s1(3)
          by (simp add: batch_ran_def flip: s1_def) (simp add: pool_jobs_def push_tagged_def)
        with f(2) batch_complete s1 th' b show ?thesis by (intro exI [of _ "{#(p, -1)#}"]) auto
      qed
    qed
  qed
qed


lemma push_idle_jobs:
  assumes "shape_ok s" "i \<in> busy s" "idle_worker_count s < length (idle_workers s)"
  shows "pool_jobs s = work_jobs (unload (workers s ! i)) + pool_jobs (push_idle i s)"
  using push_idle_effect(2) [OF assms] by (simp add: pool_jobs_def push_idle_def)

lemma batch_ran_keeps [simp]:
  "workers (fst (batch_ran r s)) = workers s" "idle_workers (fst (batch_ran r s)) = idle_workers s"
  "idle_worker_count (fst (batch_ran r s)) = idle_worker_count s" "max_workers (fst (batch_ran r s)) = max_workers s"
  "busy (fst (batch_ran r s)) = busy s" "shape_ok (fst (batch_ran r s)) = shape_ok s"
proof -
  obtain h b q t where u: "fst (batch_ran r s) = s\<lparr>heap := h, batch_jobs := b, reply_jobs := q, tagged_workers := t\<rparr>"
    using batch_ran_upd [of r s] by (elim exE)
  show "workers (fst (batch_ran r s)) = workers s" "idle_workers (fst (batch_ran r s)) = idle_workers s"
    "idle_worker_count (fst (batch_ran r s)) = idle_worker_count s" "max_workers (fst (batch_ran r s)) = max_workers s"
    "busy (fst (batch_ran r s)) = busy s" "shape_ok (fst (batch_ran r s)) = shape_ok s"
    unfolding u by (simp_all add: busy_def idle_set_def shape_ok_def)
qed

lemma discharge_jobs [simp]: "pool_jobs (discharge k s) = pool_jobs s" "heap (discharge k s) = heap s"
  "next_ptr (discharge k s) = next_ptr s"
  by (simp_all add: discharge_def pool_jobs_def running_def busy_def idle_set_def split: kind.splits)

lemma work_jobs_unload:
  "work_jobs (unload r) = (if is_batch_job r then {#(run_ptr r, batch_jobno r)#} else {#})"
  by (simp add: unload_def)

lemma push_idle_heap [simp]: "heap (push_idle i s) = heap s" "next_ptr (push_idle i s) = next_ptr s"
  by (simp_all add: push_idle_def)

text \<open>
  What the end of a job does to the objects, and the completion function that the proxy then calls: nothing for a command,
  the end of the job \<open>(p, j)\<close> otherwise.
\<close>

definition ran_effect :: "'a pool_scheme \<Rightarrow> 'a pool_scheme \<times> (completion_fn \<times> job_result list) option \<Rightarrow> bool" where
  "ran_effect s R \<longleftrightarrow> heap (fst R) = heap s \<and> pool_jobs (fst R) = pool_jobs s \<and> snd R = None
     \<or> (\<exists>p j r T X. \<exists>d :: 'a pool_scheme. pool_jobs s = add_mset (p, j) T \<and> pool_jobs (fst R) = X + T \<and> set_mset X \<subseteq> {(p, -1)}
         \<and> to_run r = run_batch p \<and> batch_jobno r = j \<and> heap d = heap s
         \<and> heap (fst R) = heap (fst (batch_ran r d)) \<and> snd R = snd (batch_ran r d))"

lemma ran_effectI:
  fixes s s' d :: "'a pool_scheme"
  assumes "pool_jobs s = add_mset (p, j) T" "pool_jobs s' = X + T" "set_mset X \<subseteq> {(p, -1)}" "to_run r = run_batch p" "batch_jobno r = j"
    "heap d = heap s" "heap s' = heap (fst (batch_ran r d))" "c = snd (batch_ran r d)"
  shows "ran_effect s (s', c)"
  unfolding ran_effect_def fst_conv snd_conv using assms by blast

lemma proxy_ran_effect:
  assumes inv: "all_inv s" and ok: "batches_ok s" and i: "i \<in> busy s"
  shows "batches_ok (fst (proxy_ran False i route s)) \<and> ran_effect s (proxy_ran False i route s)"
proof -
  let ?r = "workers s ! i" let ?d = "discharge (kind_of (unload ?r)) s"
  have core: "core_inv s" using inv by (simp add: all_inv_def pool_inv_def)
  have sh: "shape_ok ?d" "i \<in> busy ?d" "idle_worker_count ?d < length (idle_workers ?d)"
    using core_inv_shape [OF core] i idle_room [OF core i] by simp_all
  show ?thesis
  proof (cases "is_batch_job ?r")
    case False
    then have "proxy_ran False i route s = (push_idle i ?d, None)"
      using inv_max [OF inv] by (simp add: proxy_ran_def Let_def kind_of_unload discharge_def push_idle_def)
    moreover have "pool_jobs (push_idle i ?d) = pool_jobs s"
      using push_idle_jobs [OF sh] False by (simp add: work_jobs_unload)
    ultimately show ?thesis using ok by (simp add: batches_ok_def ran_effect_def)
  next
    case True
    let ?u = "fst (batch_ran ?r ?d)" let ?p = "run_ptr ?r" and ?T = "pool_jobs (push_idle i ?d)"
    have eq: "proxy_ran False i route s = (push_idle i ?u, snd (batch_ran ?r ?d))"
      using True inv_max [OF inv] by (simp add: proxy_ran_def Let_def kind_of_unload discharge_def push_idle_def case_prod_beta)
    have "worker_ok i ?r" using core_inv_shape [OF core] i by (simp add: shape_ok_def busy_def)
    then have r: "to_run ?r = run_batch ?p" using True by (simp add: worker_ok_def)
    have jobs: "pool_jobs s = add_mset (?p, batch_jobno ?r) ?T"
      using push_idle_jobs [OF sh] True by (simp add: work_jobs_unload)
    have hp: "heap_ok (heap ?d) (add_mset (?p, batch_jobno ?r) ?T)" "\<forall>b \<in> ran (heap ?d). threads_ok (length (tagged_workers ?d)) b"
      using ok jobs by (simp_all add: batches_ok_def)
    from batch_ran_batches [OF hp r refl refl] obtain X where
      X: "heap_ok (heap ?u) (X + ?T)" "pool_jobs ?u = X + pool_jobs ?d" "next_ptr ?u = next_ptr ?d"
        "length (tagged_workers ?u) = length (tagged_workers ?d)" "\<forall>q. heap ?d q = None \<longrightarrow> heap ?u q = None"
        "\<forall>b \<in> ran (heap ?u). threads_ok (length (tagged_workers ?d)) b" "set_mset X \<subseteq> {(?p, -1)}"
      by (elim exE conjE)
    have "pool_jobs ?u = add_mset (?p, batch_jobno ?r) (pool_jobs (push_idle i ?u))"
      using push_idle_jobs [of ?u i] sh True by (simp add: work_jobs_unload)
    with X(2) jobs have after: "pool_jobs (push_idle i ?u) = X + ?T" by simp
    have "ran_effect s (push_idle i ?u, snd (batch_ran ?r ?d))"
      by (rule ran_effectI [OF jobs after X(7) r refl]) simp_all
    with after X ok show ?thesis unfolding eq by (simp add: batches_ok_def)
  qed
qed

lemma proxy_ran_tagged_effect:
  assumes inv: "all_inv s" and ok: "batches_ok s" and i: "i < length (tagged_workers s)" "tw_busy (tagged_workers s ! i)"
  shows "batches_ok (fst (proxy_ran True (Suc i) route s)) \<and> ran_effect s (proxy_ran True (Suc i) route s)"
proof -
  let ?t = "tagged_workers s ! i" let ?d = "s\<lparr>tagged_workers := (tagged_workers s)[i := ?t\<lparr>tw_busy := False\<rparr>]\<rparr>"
  let ?r = "tw_run ?t" let ?p = "run_ptr ?r" let ?u = "fst (batch_ran ?r ?d)"
  have "tagged_ok i ?t" using inv i by (simp add: all_inv_def tagged_inv_def)
  then have r: "is_batch_job ?r" "to_run ?r = run_batch ?p" using i by (auto simp: tagged_ok_def run_ptr_def)
  have eq: "proxy_ran True (Suc i) route s = (?u, snd (batch_ran ?r ?d))"
    using r(1) inv_max [OF inv] by (simp add: proxy_ran_def Let_def case_prod_beta)
  have "sum_list (map tagged_jobs ((tagged_workers s)[i := ?t\<lparr>tw_busy := False\<rparr>])) + {#(?p, batch_jobno ?r)#}
      = sum_list (map tagged_jobs (tagged_workers s)) + {#}"
    using i by (intro sum_tagged_update) (simp_all add: tagged_jobs_def)
  then have jobs: "pool_jobs s = add_mset (?p, batch_jobno ?r) (pool_jobs ?d)" by (simp add: pool_jobs_def)
  have hp: "heap_ok (heap ?d) (add_mset (?p, batch_jobno ?r) (pool_jobs ?d))"
    "\<forall>b \<in> ran (heap ?d). threads_ok (length (tagged_workers ?d)) b"
    using ok jobs by (simp_all add: batches_ok_def)
  from batch_ran_batches [OF hp r(2) refl refl] obtain X where
    X: "heap_ok (heap ?u) (X + pool_jobs ?d)" "pool_jobs ?u = X + pool_jobs ?d" "next_ptr ?u = next_ptr ?d"
      "length (tagged_workers ?u) = length (tagged_workers ?d)" "\<forall>q. heap ?d q = None \<longrightarrow> heap ?u q = None"
      "\<forall>b \<in> ran (heap ?u). threads_ok (length (tagged_workers ?d)) b" "set_mset X \<subseteq> {(?p, -1)}"
    by (elim exE conjE)
  have "ran_effect s (?u, snd (batch_ran ?r ?d))"
    by (rule ran_effectI [OF jobs X(2,7) r(2) refl]) simp_all
  with X ok show ?thesis unfolding eq by (simp add: batches_ok_def)
qed


section \<open>Steps\<close>

text \<open>
  The steps of \<open>pool_step\<close>, where an object is handed to the proxy once, together with what the
  worker threads do to the objects: they run jobs and completion functions.
\<close>

inductive job_step :: "(task \<Rightarrow> exn + nat option) \<Rightarrow> 'a pool_scheme \<Rightarrow> 'a pool_scheme \<Rightarrow> bool" for exec where
  command: "n \<in> fst ` set (categories s) \<Longrightarrow>
    job_step exec s (snd (dispatch_command n command data cb conn acc remote s))"
| inject: "inj_cat t \<in> fst ` set (categories s) \<Longrightarrow> job_step exec s (proxy_inject_task t s)"
| alloc: "fresh_obj s b \<Longrightarrow> job_step exec s (snd (alloc b s))"
| batch: "heap s p = Some b \<Longrightarrow> uses p (pool_jobs s) = {#} \<Longrightarrow> job_step exec s (proxy_batch p s)"
| reply: "job_step exec s (proxy_schedule_reply_job f s)"
| process: "job_step exec s (proxy_process_queue s)"
| run: "(p, int j) \<in># pool_jobs s \<Longrightarrow> heap s p = Some b \<Longrightarrow>
    job_step exec s (s\<lparr>heap := (heap s)(p \<mapsto> obj_run_job exec j b)\<rparr>)"
| completion: "(p, -1) \<in># pool_jobs s \<Longrightarrow> heap s p = Some b \<Longrightarrow>
    job_step exec s (s\<lparr>heap := (heap s)(p \<mapsto> snd (obj_job_completion b))\<rparr>)"
| ran: "i \<in> busy s \<Longrightarrow> job_step exec s (fst (proxy_worker_message [routing_id CHR ''w'' i, ''RAN''] s))"
| tagged_ran: "i < length (tagged_workers s) \<Longrightarrow> tw_busy (tagged_workers s ! i) \<Longrightarrow>
    job_step exec s (fst (proxy_worker_message [routing_id CHR ''t'' (Suc i), ''RAN''] s))"

lemma obj_run_job_keeps [simp]:
  "obj_ok (obj_run_job exec j b) = obj_ok b" "obj_remaining (obj_run_job exec j b) = obj_remaining b"
  "obj_size (obj_run_job exec j b) = obj_size b" "obj_last (obj_run_job exec j b) = obj_last b"
  "obj_threads (obj_run_job exec j b) = obj_threads b"
  by (cases b; simp add: batch_ok_def batch_run_job_def batch_size_def batch_last_def batch_threads_def Let_def split: sum.splits)+

lemma obj_completion_keeps [simp]:
  "obj_last (snd (obj_job_completion b)) = obj_last b" "obj_threads (snd (obj_job_completion b)) = obj_threads b"
  by (cases b; simp add: batch_job_completion_def batch_last_def batch_threads_def case_prod_beta)+

lemma heap_replace:
  assumes "batches_ok s" "heap s p = Some b" "obj_last b' = obj_last b" "obj_threads b' = obj_threads b"
    and "obj_state_ok b' (uses p (pool_jobs s))"
  shows "batches_ok (s\<lparr>heap := (heap s)(p \<mapsto> b')\<rparr>)"
proof -
  have "pool_jobs (s\<lparr>heap := h\<rparr>) = pool_jobs s" for h by (simp add: pool_jobs_def running_def busy_def idle_set_def)
  moreover have "heap_ok ((heap s)(p \<mapsto> b')) (pool_jobs s)"
    using assms(1,5) by (intro heap_ok_upd [of "heap s"]) (simp_all add: batches_ok_def)
  moreover have "threads_ok (length (tagged_workers s)) b'"
    using assms(1-4) by (auto simp: batches_ok_def threads_ok_def ran_def)
  moreover have "p < next_ptr s" using assms(1,2) by (metis batches_ok_def not_le option.distinct(1))
  ultimately show ?thesis using assms(1) by (auto simp: batches_ok_def ran_def)
qed

lemma all_inv_shape: "all_inv s \<Longrightarrow> shape_ok s"
  by (simp add: all_inv_def pool_inv_shape)

lemma job_step_ok:
  assumes "job_step exec s s'" "all_inv s" "batches_ok s"
  shows "all_inv s' \<and> batches_ok s'"
  using assms
proof (induction rule: job_step.induct)
  case (command n s command data cb conn acc remote)
  then show ?case by (simp add: pool_step_inv [OF pool_step.command] dispatch_batches all_inv_shape)
next
  case (inject t s)
  then show ?case by (simp add: pool_step_inv [OF pool_step.inject] inject_batches all_inv_shape)
next
  case (alloc s b)
  then show ?case by (simp add: pool_step_inv [OF _ \<open>all_inv s\<close>] pool_step.alloc alloc_batches)
next
  case (batch s p b)
  then show ?case using proxy_batch_batches proxy_batch_all by blast
next
  case (reply s f)
  then show ?case by (simp add: pool_step_inv [OF _ \<open>all_inv s\<close>] pool_step.reply reply_batches)
next
  case (process s)
  then show ?case by (simp add: process_queue_all process_queue_batches)
next
  case (run p j s b)
  have "obj_state_ok b (uses p (pool_jobs s))" using run heap_ok_at [of "heap s"] by (simp add: batches_ok_def)
  then have "batches_ok (s\<lparr>heap := (heap s)(p \<mapsto> obj_run_job exec j b)\<rparr>)"
    using run by (intro heap_replace [of s p b]) (simp_all add: obj_state_ok_def)
  with run show ?case by simp
next
  case (completion p s b)
  have st: "obj_state_ok b (uses p (pool_jobs s))" using completion heap_ok_at [of "heap s"] by (simp add: batches_ok_def)
  have "-1 \<in># uses p (pool_jobs s)" using completion(1) by (force simp: uses_def)
  then have "\<not> uses p (pool_jobs s) \<subseteq># image_mset int (mset [0..<fst (obj_size b)])"
    using mset_subset_eqD [of "uses p (pool_jobs s)" "image_mset int (mset [0..<fst (obj_size b)])" "-1"] by auto
  with st \<open>-1 \<in># uses p (pool_jobs s)\<close> have "obj_state_ok (snd (obj_job_completion b)) (uses p (pool_jobs s))"
    by (auto simp: obj_state_ok_def)
  with completion have "batches_ok (s\<lparr>heap := (heap s)(p \<mapsto> snd (obj_job_completion b))\<rparr>)"
    by (intro heap_replace [of s p b]) simp_all
  with completion show ?case by simp
next
  case (ran i s)
  then have "length (workers s) < 2 ^ 32" "i < length (workers s)"
    by (auto simp: all_inv_def pool_inv_def core_inv_def busy_def)
  with ran show ?case by (simp add: worker_message_ran proxy_ran_all proxy_ran_effect)
next
  case (tagged_ran i s)
  then have "length (tagged_workers s) < 2 ^ 32" by (simp add: all_inv_def)
  with tagged_ran show ?case by (simp add: tagged_message_ran proxy_ran_tagged_all proxy_ran_tagged_effect)
qed


definition reachable_jobs :: "(task \<Rightarrow> exn + nat option) \<Rightarrow> nat \<Rightarrow> pool \<Rightarrow> bool" where
  "reachable_jobs exec threads t \<longleftrightarrow> (\<exists>s0 s. config_step\<^sup>*\<^sup>* (pool_init threads) s0 \<and> start_pool s0 = Inr s
     \<and> max_workers s < 2 ^ 31 \<and> length (tagged_workers s) < 2 ^ 31 \<and> (job_step exec)\<^sup>*\<^sup>* s t)"

lemma sum_list_empty: "\<forall>x \<in> set xs. f x = {#} \<Longrightarrow> sum_list (map f xs) = {#}"
  by (induction xs) simp_all

lemma start_pool_batches:
  assumes "configured s0" "start_pool s0 = Inr s" "max_workers s < 2 ^ 31"
  shows "batches_ok s"
proof -
  have "running s = {#}" using start_pool_inv [OF assms] by simp
  moreover have c: "batch_jobs s = []" "reply_jobs s = []" "heap s = Map.empty" "tagged_workers s = tagged_workers s0"
    using assms(1,2) by (auto simp: start_pool_def init_workers_def Let_def configured_def split: if_splits)
  moreover have "sum_list (map tagged_jobs (tagged_workers s0)) = {#}"
    using assms(1) by (intro sum_list_empty) (simp add: configured_def tagged_jobs_def)
  ultimately have "pool_jobs s = {#}" by (simp add: pool_jobs_def)
  with c show ?thesis by (simp add: batches_ok_def heap_ok_def)
qed

lemma job_steps_ok: "(job_step exec)\<^sup>*\<^sup>* s t \<Longrightarrow> all_inv s \<and> batches_ok s \<Longrightarrow> all_inv t \<and> batches_ok t"
  by (induction rule: rtranclp_induct) (auto dest: job_step_ok)

lemma reachable_jobs_ok:
  assumes "reachable_jobs exec threads t"
  shows "all_inv t" "batches_ok t"
proof -
  from assms obtain s0 s where *: "config_step\<^sup>*\<^sup>* (pool_init threads) s0" "start_pool s0 = Inr s"
    "max_workers s < 2 ^ 31" "length (tagged_workers s) < 2 ^ 31" "(job_step exec)\<^sup>*\<^sup>* s t"
    unfolding reachable_jobs_def by (elim exE conjE)
  have c: "configured s0" by (rule configured_steps [OF *(1)])
  have "all_inv s \<and> batches_ok s"
    using start_pool_inv [OF c *(2,3)] start_pool_batches [OF c *(2,3)] *(4) by (simp add: all_inv_def)
  from job_steps_ok [OF *(5) this] show "all_inv t" "batches_ok t" by simp_all
qed

lemma count_uses: "count (uses p T) j = count T (p, j)"
  by (induction T) (auto split: if_splits)


section \<open>Properties\<close>

text \<open>C3: no use after free and no double use of a batch. In every reachable state, every job or completion
  that is queued or that a worker runs refers to an object that has not been deleted; it is there once; a job
  number is valid for the object and the object's count of outstanding jobs is the number of its jobs that
  are queued or running; a completion is the only remaining use of its object, which has a completion
  function; and the threads named by the object exist.\<close>

theorem batch_objects_safe:
  assumes "reachable_jobs exec threads t" "(p, j) \<in># pool_jobs t"
  shows "\<exists>b. heap t p = Some b \<and> count (pool_jobs t) (p, j) = 1 \<and> threads_ok (length (tagged_workers t)) b
    \<and> (if j = -1 then uses p (pool_jobs t) = {#-1#} \<and> fst (obj_last b) = batch_complete
       else 0 \<le> j \<and> nat j < fst (obj_size b) \<and> obj_remaining b = size (uses p (pool_jobs t)))"
proof -
  let ?T = "pool_jobs t"
  have ok: "batches_ok t" using assms(1) by (rule reachable_jobs_ok)
  then have h: "heap_ok (heap t) ?T" by (simp add: batches_ok_def)
  obtain b where b: "heap t p = Some b" using heap_ok_live [OF h assms(2)] by (elim exE)
  have th: "threads_ok (length (tagged_workers t)) b" using ok b by (auto simp: batches_ok_def ran_def)
  have st: "obj_state_ok b (uses p ?T)" by (rule heap_ok_at [OF h b])
  have ju: "j \<in># uses p ?T" using assms(2) by (simp add: count_uses flip: count_greater_zero_iff)
  have ct: "count ?T (p, j) = count (uses p ?T) j" by (simp add: count_uses)
  show ?thesis
  proof (cases "uses p ?T = {#-1#}")
    case True
    moreover from this have "fst (obj_last b) = batch_complete"
      using st mset_subset_eqD [of "{#-1#}" "image_mset int (mset [0..<fst (obj_size b)])" "-1"]
      by (auto simp: obj_state_ok_def)
    ultimately show ?thesis using b th ju ct by auto
  next
    case False
    with st ju have s: "size (uses p ?T) = obj_remaining b" "uses p ?T \<subseteq># image_mset int (mset [0..<fst (obj_size b)])"
      by (auto simp: obj_state_ok_def)
    have "count (uses p ?T) j \<le> count (image_mset int (mset [0..<fst (obj_size b)])) j"
      by (rule mset_subset_eq_count [OF s(2)])
    also have "\<dots> \<le> 1" 
      using distinct_count_atmost_1 [THEN iffD1, of "map int [0..<fst (obj_size b)]"] by (simp add: distinct_map)
    finally have "count ?T (p, j) = 1" using ju ct by (simp add: le_Suc_eq count_eq_zero_iff)
    moreover have "j \<in># image_mset int (mset [0..<fst (obj_size b)])" by (rule mset_subset_eqD [OF s(2) ju])
    ultimately show ?thesis using b th s(1) by auto
  qed
qed


theorem batch_objects_safe_witness:
  "\<exists>t b. reachable_jobs (\<lambda>f. Inr None) 1 t \<and> (1, 0) \<in># pool_jobs t \<and> heap t 1 = Some b \<and> fst (obj_size b) = 1"
proof -
  let ?exec = "\<lambda>f :: task. Inr None :: exn + nat option"
  let ?t = "proxy_schedule_reply_job (user_task 3) example_pool"
  have "(job_step ?exec)\<^sup>*\<^sup>* example_pool ?t" by (intro r_into_rtranclp job_step.reply)
  then have r: "reachable_jobs ?exec 1 ?t" unfolding reachable_jobs_def using example_started by blast
  have j: "(1, 0) \<in># pool_jobs ?t"
    by (simp add: pool_jobs_def proxy_schedule_reply_job_def alloc_def example_pool_def example_config_def pool_init_def)
  from batch_objects_safe [OF r j] obtain b where "heap ?t 1 = Some b" by (elim exE conjE)
  moreover have "heap ?t 1 = Some (JobObj (new_job_in (user_task 3) 0))"
    by (simp add: proxy_schedule_reply_job_def alloc_def example_pool_def example_config_def pool_init_def)
  ultimately have "heap ?t 1 = Some b \<and> fst (obj_size b) = 1" by (auto simp: job_size_def)
  with r j show ?thesis by blast
qed

end
