(* ===== verification/Workers.thy ===== *)
theory Workers
  imports Pool_Batches
begin

text \<open>
  The worker threads (\<^verbatim>\<open>worker_thread\<close> and \<^verbatim>\<open>worker_wait_for\<close> of \<^verbatim>\<open>oxenmq/worker.cpp\<close>) and their protocol with the
  proxy: the messages in flight in both directions, the start of tagged threads
  (\<^verbatim>\<open>proxy_loop_init\<close>), and shutdown. The steps of the whole system interleave the proxy and the
  workers arbitrarily.
\<close>

section \<open>Running a job\<close>

text \<open>The \<^verbatim>\<open>Message\<close> object of a worker thread, which is reused for all of the thread's commands.\<close>

record message =
  msg_conn :: connection_id
  msg_access :: access
  msg_remote :: string
  msg_reply_tag :: string
  msg_data :: "string list"

definition message_init :: message where
  "message_init = \<lparr>msg_conn = conn_of_id 0, msg_access = default_access, msg_remote = [], msg_reply_tag = [], msg_data = []\<rparr>"

text \<open>
  What the thread calls. \<open>act_undefined\<close> is an access outside of an object (a null pointer to a
  command, the first element of an empty vector), \<open>act_none\<close> stands for calls that end in a caught
  exception (\<^verbatim>\<open>std::bad_variant_access\<close>, \<^verbatim>\<open>std::bad_function_call\<close>) or that do nothing.
\<close>

datatype action = act_job nat nat | act_completion nat | act_injected nat | act_command nat message
  | act_none | act_undefined

text \<open>The body of the loop of \<^verbatim>\<open>worker_thread\<close>: the call, the \<^verbatim>\<open>run_info\<close> and the message afterwards.\<close>

definition command_message :: "run_info \<Rightarrow> bool \<Rightarrow> message \<Rightarrow> message option" where
  "command_message r is_request m =
     (let m = m\<lparr>msg_conn := ri_conn r, msg_access := ri_access r, msg_remote := ri_remote r, msg_data := []\<rparr> in
      if is_request then
        (case ri_data_parts r of
           [] \<Rightarrow> None
         | tag # data \<Rightarrow> Some (m\<lparr>msg_reply_tag := tag, msg_data := data\<rparr>))
      else Some (m\<lparr>msg_data := ri_data_parts r\<rparr>))"

definition worker_body :: "run_info \<Rightarrow> message \<Rightarrow> action \<times> run_info \<times> message" where
  "worker_body r m =
     (if is_batch_job r then
        (case to_run r of
           run_batch p \<Rightarrow>
             (if 0 \<le> batch_jobno r then act_job p (nat (batch_jobno r))
              else if batch_jobno r = -1 then act_completion p else act_none, r, m)
         | _ \<Rightarrow> (act_none, r, m))
      else if is_injected r then
        (case to_run r of
           run_injected (Some f) \<Rightarrow> (act_injected f, r\<lparr>to_run := run_injected None\<rparr>, m)
         | _ \<Rightarrow> (act_none, r, m))
      else
        (let r' = r\<lparr>ri_remote := []\<rparr> in
         case to_run r of
           run_command (f, is_request) \<Rightarrow>
             (case command_message r is_request m of
                None \<Rightarrow> (act_undefined, r', m)
              | Some m' \<Rightarrow> (act_command f m', r', m'))
         | run_null \<Rightarrow> (act_undefined, r', m)
         | _ \<Rightarrow> (act_none, r', m)))"

text \<open>
  \<^verbatim>\<open>worker_wait_for\<close> on the messages that arrive: it skips what it does not expect, and returns true for
  the expected command or false after \<^verbatim>\<open>QUIT\<close>, which it answers with \<^verbatim>\<open>QUITTING\<close>; \<open>None\<close> while it has to wait
  for more messages. The second component are the messages it leaves.
\<close>

fun worker_wait_for :: "string \<Rightarrow> string list list \<Rightarrow> (bool \<times> string list list) option" where
  "worker_wait_for expect [] = None"
| "worker_wait_for expect (parts # rest) =
     (if length parts \<noteq> 1 then worker_wait_for expect rest
      else if parts ! 0 = expect then Some (True, rest)
      else if parts ! 0 = ''QUIT'' then Some (False, rest)
      else worker_wait_for expect rest)"


section \<open>Tagged threads\<close>

text \<open>
  \<^verbatim>\<open>proxy_loop_init\<close> waits for \<^verbatim>\<open>STARTING\<close> from every tagged thread: the messages are consumed until no
  thread is waited for, and \<open>None\<close> means that it still waits. Then every thread is sent \<^verbatim>\<open>START\<close>.
\<close>

fun await_tagged :: "string list \<Rightarrow> string list list \<Rightarrow> string list list option" where
  "await_tagged [] msgs = Some msgs"
| "await_tagged waiting [] = None"
| "await_tagged waiting (parts # msgs) =
     (if length parts \<noteq> 2 \<or> parts ! 1 \<noteq> ''STARTING'' then await_tagged waiting msgs
      else await_tagged (removeAll (parts ! 0) waiting) msgs)"

definition start_tagged_workers :: "'a pool_scheme \<Rightarrow> 'a pool_scheme" where
  "start_tagged_workers s =
     s\<lparr>to_workers := to_workers s @ map (\<lambda>t. (worker_routing_id (tw_run t), ''START'')) (tagged_workers s)\<rparr>"


section \<open>The system\<close>

datatype thread_state = th_starting | th_waiting | th_running | th_gone

datatype worker_name = General nat | Tagged nat

record sys =
  sys_pool :: pool
  sys_threads :: "worker_name \<Rightarrow> thread_state"
  sys_inbox :: "(string \<times> string) list"

fun route_of :: "worker_name \<Rightarrow> string" where
  "route_of (General i) = routing_id CHR ''w'' i"
| "route_of (Tagged i) = routing_id CHR ''t'' (Suc i)"

fun has_worker :: "'a pool_scheme \<Rightarrow> worker_name \<Rightarrow> bool" where
  "has_worker s (General i) = (i < length (workers s))"
| "has_worker s (Tagged i) = (i < length (tagged_workers s))"

fun run_of :: "'a pool_scheme \<Rightarrow> worker_name \<Rightarrow> run_info" where
  "run_of s (General i) = workers s ! i"
| "run_of s (Tagged i) = tw_run (tagged_workers s ! i)"

fun set_run :: "worker_name \<Rightarrow> run_info \<Rightarrow> 'a pool_scheme \<Rightarrow> 'a pool_scheme" where
  "set_run (General i) r s = s\<lparr>workers := (workers s)[i := r]\<rparr>"
| "set_run (Tagged i) r s = s\<lparr>tagged_workers := (tagged_workers s)[i := (tagged_workers s ! i)\<lparr>tw_run := r\<rparr>]\<rparr>"

text \<open>The messages in flight to one worker and from one worker, oldest first.\<close>

definition msgs_of :: "worker_name \<Rightarrow> (string \<times> string) list \<Rightarrow> string list" where
  "msgs_of w ms = map snd (filter (\<lambda>m. fst m = route_of w) ms)"

definition take_msg :: "worker_name \<Rightarrow> (string \<times> string) list \<Rightarrow> (string \<times> string) list" where
  "take_msg w ms = (case dropWhile (\<lambda>m. fst m \<noteq> route_of w) ms of
     [] \<Rightarrow> ms | m # rest \<Rightarrow> takeWhile (\<lambda>m. fst m \<noteq> route_of w) ms @ rest)"

text \<open>
  The operations of the proxy between two messages from workers. A worker that appears in \<^verbatim>\<open>workers\<close> has a
  thread that starts with its first job.
\<close>

inductive proxy_op :: "pool \<Rightarrow> pool \<Rightarrow> bool" where
  command: "n \<in> fst ` set (categories s) \<Longrightarrow>
    proxy_op s (snd (dispatch_command n command data cb conn acc remote s))"
| inject: "inj_cat t \<in> fst ` set (categories s) \<Longrightarrow> proxy_op s (proxy_inject_task t s)"
| alloc: "proxy_op s (snd (alloc b s))"
| batch: "proxy_op s (proxy_batch ptr s)"
| reply: "proxy_op s (proxy_schedule_reply_job f s)"
| process: "proxy_op s (proxy_process_queue s)"

definition spawn :: "pool \<Rightarrow> (worker_name \<Rightarrow> thread_state) \<Rightarrow> worker_name \<Rightarrow> thread_state" where
  "spawn s threads w = (if has_worker s w then threads w else th_running)"

text \<open>The proxy takes a message from a worker, or a worker thread makes a step.\<close>

inductive thread_step :: "sys \<Rightarrow> sys \<Rightarrow> bool" where
  message: "sys_inbox S = (r, cmd) # rest \<Longrightarrow>
    thread_step S (S\<lparr>sys_pool := fst (proxy_worker_message [r, cmd] (sys_pool S)), sys_inbox := rest\<rparr>)"
| started: "has_worker (sys_pool S) w \<Longrightarrow> sys_threads S w = th_starting \<Longrightarrow>
    msgs_of w (to_workers (sys_pool S)) = ''START'' # ms \<Longrightarrow>
    thread_step S (S\<lparr>sys_pool := (sys_pool S)\<lparr>to_workers := take_msg w (to_workers (sys_pool S))\<rparr>,
      sys_threads := (sys_threads S)(w := th_waiting)\<rparr>)"
| run: "has_worker (sys_pool S) w \<Longrightarrow> sys_threads S w = th_waiting \<Longrightarrow>
    msgs_of w (to_workers (sys_pool S)) = ''RUN'' # ms \<Longrightarrow>
    thread_step S (S\<lparr>sys_pool := (sys_pool S)\<lparr>to_workers := take_msg w (to_workers (sys_pool S))\<rparr>,
      sys_threads := (sys_threads S)(w := th_running)\<rparr>)"
| quit: "has_worker (sys_pool S) w \<Longrightarrow> sys_threads S w = th_waiting \<Longrightarrow>
    msgs_of w (to_workers (sys_pool S)) = ''QUIT'' # ms \<Longrightarrow>
    thread_step S (S\<lparr>sys_pool := (sys_pool S)\<lparr>to_workers := take_msg w (to_workers (sys_pool S))\<rparr>,
      sys_threads := (sys_threads S)(w := th_gone), sys_inbox := sys_inbox S @ [(route_of w, ''QUITTING'')]\<rparr>)"
| work: "has_worker (sys_pool S) w \<Longrightarrow> sys_threads S w = th_running \<Longrightarrow>
    thread_step S (S\<lparr>sys_pool := set_run w (fst (snd (worker_body (run_of (sys_pool S) w) m))) (sys_pool S),
      sys_threads := (sys_threads S)(w := th_waiting), sys_inbox := sys_inbox S @ [(route_of w, ''RAN'')]\<rparr>)"

inductive sys_step :: "sys \<Rightarrow> sys \<Rightarrow> bool" where
  proxy: "proxy_op (sys_pool S) s \<Longrightarrow>
    sys_step S (S\<lparr>sys_pool := s, sys_threads := spawn (sys_pool S) (sys_threads S)\<rparr>)"
| thread: "thread_step S S' \<Longrightarrow> sys_step S S'"

definition sys_start :: "pool \<Rightarrow> sys" where
  "sys_start s = \<lparr>sys_pool = start_tagged_workers s,
     sys_threads = (\<lambda>w. case w of Tagged i \<Rightarrow> th_starting | General i \<Rightarrow> th_running), sys_inbox = []\<rparr>"

definition reachable_sys :: "nat \<Rightarrow> sys \<Rightarrow> bool" where
  "reachable_sys threads S \<longleftrightarrow> (\<exists>s0 s. config_step\<^sup>*\<^sup>* (pool_init threads) s0 \<and> start_pool s0 = Inr s
     \<and> max_workers s < 2 ^ 31 \<and> length (tagged_workers s) < 2 ^ 31 \<and> sys_step\<^sup>*\<^sup>* (sys_start s) S)"


section \<open>What the proxy does to the workers\<close>

fun is_busy :: "'a pool_scheme \<Rightarrow> worker_name \<Rightarrow> bool" where
  "is_busy s (General i) = (i \<in> busy s)"
| "is_busy s (Tagged i) = tw_busy (tagged_workers s ! i)"

abbreviation msgs_to :: "'a pool_scheme \<Rightarrow> worker_name \<Rightarrow> string list" where
  "msgs_to s w \<equiv> msgs_of w (to_workers s)"

text \<open>
  Between two messages from workers the proxy leaves busy workers alone; an idle worker that it gives a
  job gets one \<^verbatim>\<open>RUN\<close>; and a new worker is busy from the start.
\<close>

definition grows_at :: "'a pool_scheme \<Rightarrow> 'a pool_scheme \<Rightarrow> worker_name \<Rightarrow> bool" where
  "grows_at s s' w \<longleftrightarrow>
     (if has_worker s w then has_worker s' w \<and>
        (if is_busy s w then is_busy s' w \<and> msgs_to s' w = msgs_to s w \<and> run_of s' w = run_of s w
         else if is_busy s' w then msgs_to s' w = msgs_to s w @ [''RUN''] else msgs_to s' w = msgs_to s w)
      else msgs_to s' w = msgs_to s w \<and> (has_worker s' w \<longrightarrow> is_busy s' w))"

fun small :: "worker_name \<Rightarrow> bool" where
  "small (General i) = (i < 2 ^ 31)"
| "small (Tagged i) = (i < 2 ^ 31)"

definition grows :: "'a pool_scheme \<Rightarrow> 'a pool_scheme \<Rightarrow> bool" where
  "grows s s' \<longleftrightarrow> (\<forall>w. small w \<longrightarrow> grows_at s s' w)"

lemma grows_refl [simp]: "grows s s"
  by (simp add: grows_def grows_at_def)

lemma grows_at_trans: "grows_at s s' w \<Longrightarrow> grows_at s' s'' w \<Longrightarrow> grows_at s s'' w"
  by (auto simp: grows_at_def split: if_splits)

lemma grows_trans: "grows s s' \<Longrightarrow> grows s' s'' \<Longrightarrow> grows s s''"
  unfolding grows_def by (blast intro: grows_at_trans)

lemma grows_same:
  assumes "workers s' = workers s" "idle_workers s' = idle_workers s" "idle_worker_count s' = idle_worker_count s"
    and "map tw_run (tagged_workers s') = map tw_run (tagged_workers s)"
    and "map tw_busy (tagged_workers s') = map tw_busy (tagged_workers s)" "to_workers s' = to_workers s"
  shows "grows s s'"
  unfolding grows_def
proof (intro allI impI)
  fix w
  have "busy s' = busy s" using assms(1-3) by (simp add: busy_def idle_set_def)
  moreover have l: "length (tagged_workers s') = length (tagged_workers s)" using assms(4) by (rule map_eq_imp_length_eq)
  moreover have "tw_run (tagged_workers s' ! i) = tw_run (tagged_workers s ! i)"
    "tw_busy (tagged_workers s' ! i) = tw_busy (tagged_workers s ! i)" if "i < length (tagged_workers s)" for i
    using that l assms(4,5) by (metis nth_map)+
  ultimately show "grows_at s s' w" using assms(1,6) by (cases w) (simp_all add: grows_at_def)
qed

lemma routing_id_inj:
  assumes "routing_id c i = routing_id c j" "i < 2 ^ 32" "j < 2 ^ 32"
  shows "i = j"
proof -
  have "i = routing_number (routing_id c i)" using assms(2) by (rule routing_number_id [symmetric])
  also have "\<dots> = j" unfolding assms(1) using assms(3) by (rule routing_number_id)
  finally show ?thesis .
qed

lemma routing_id_letter: "routing_id c i = routing_id d j \<Longrightarrow> c = d"
  by (simp add: routing_id_def)

lemma routes_distinct: "small v \<Longrightarrow> small w \<Longrightarrow> route_of v = route_of w \<longleftrightarrow> v = w"
proof
  assume small: "small v" "small w" and eq: "route_of v = route_of w"
  have b: "i < 2 ^ 31 \<Longrightarrow> i < 2 ^ 32" "i < 2 ^ 31 \<Longrightarrow> Suc i < 2 ^ 32" for i :: nat by simp_all
  show "v = w"
  proof (cases v)
    case v: (General i)
    show ?thesis
    proof (cases w)
      case (General j)
      with v eq small b show ?thesis using routing_id_inj [of "CHR ''w''" i j] by (simp only: route_of.simps small.simps)
    next
      case (Tagged j)
      with v eq show ?thesis using routing_id_letter by fastforce
    qed
  next
    case v: (Tagged i)
    show ?thesis
    proof (cases w)
      case (Tagged j)
      have "Suc i = Suc j"
        using routing_id_inj [of "CHR ''t''" "Suc i" "Suc j"] b small eq v Tagged by (simp only: route_of.simps small.simps)
      with v Tagged show ?thesis by simp
    next
      case (General j)
      with v eq show ?thesis using routing_id_letter by fastforce
    qed
  qed
qed simp

lemma msgs_of_append [simp]: "msgs_of w (xs @ ys) = msgs_of w xs @ msgs_of w ys"
  by (simp add: msgs_of_def)

lemma msgs_of_one: "small v \<Longrightarrow> small w \<Longrightarrow> msgs_of w [(route_of v, m)] = (if v = w then [m] else [])"
  using routes_distinct [of v w] by (auto simp: msgs_of_def)


lemma core_small: "core_inv s \<Longrightarrow> i < length (workers s) \<Longrightarrow> small (General i)"
  by (auto simp: core_inv_def)

lemma grows_start:
  assumes core: "core_inv s" and f: "loads f w"
  shows "grows s (start_worker f s)"
proof (cases "idle_worker_count s")
  case 0
  let ?n = "length (workers s)"
  note eq = start_worker_new [OF 0 f]
  have b: "busy s = {..<?n}" "busy (start_worker f s) = {..<Suc ?n}" by (auto simp: busy_def eq idle_set_def 0)
  have wk: "length (workers (start_worker f s)) = Suc ?n" "\<And>k. k < ?n \<Longrightarrow> workers (start_worker f s) ! k = workers s ! k"
    "to_workers (start_worker f s) = to_workers s" by (simp_all add: eq nth_append)
  show ?thesis
    unfolding grows_def
  proof (intro allI impI)
    fix v
    show "grows_at s (start_worker f s) v"
      by (cases v) (auto simp: grows_at_def b wk)
  qed
next
  case (Suc n)
  have sh: "shape_ok s" by (rule core_inv_shape [OF core])
  define i where "i = idle_workers s ! n"
  note idle = shape_idle [OF sh Suc, folded i_def]
  have i: "i < length (workers s)" using idle(1) sh by (auto simp: shape_ok_def)
  then have ok: "worker_ok i (workers s ! i)" using sh by (simp add: shape_ok_def)
  then have j: "joinable (workers s ! i)" by (simp add: worker_ok_def)
  note eq = start_worker_idle [OF Suc i_def [symmetric] j f]
  have b: "i \<notin> busy s" "busy (start_worker f s) = insert i (busy s)"
    using idle i by (auto simp: busy_def eq idle_set_def)
  have m: "to_workers (start_worker f s) = to_workers s @ [(route_of (General i), ''RUN'')]"
    using ok by (simp add: eq worker_ok_def)
  have wk: "length (workers (start_worker f s)) = length (workers s)"
    "\<And>k. k \<noteq> i \<Longrightarrow> workers (start_worker f s) ! k = workers s ! k" by (simp_all add: eq)
  show ?thesis
    unfolding grows_def
  proof (intro allI impI)
    fix v
    assume "small v"
    then have mv: "msgs_to (start_worker f s) v = msgs_to s v @ (if General i = v then [''RUN''] else [])"
      using msgs_of_one [OF core_small [OF core i], of v] by (simp add: m)
    show "grows_at s (start_worker f s) v"
    proof (cases v)
      case (General k)
      then show ?thesis
        using b i mv by (cases "k = i") (auto simp: grows_at_def wk)
    next
      case (Tagged k)
      with mv show ?thesis by (simp add: grows_at_def)
    qed
  qed
qed

text \<open>Fields that the workers do not see.\<close>

lemma grows_upd [simp]:
  "grows s (t\<lparr>batch_jobs := x\<rparr>) = grows s t" "grows s (t\<lparr>reply_jobs := x\<rparr>) = grows s t"
  "grows s (t\<lparr>pending_commands := y\<rparr>) = grows s t" "grows s (on_category n f t) = grows s t"
  "grows s (t\<lparr>heap := h\<rparr>) = grows s t" "grows s (t\<lparr>next_ptr := p\<rparr>) = grows s t"
  "grows s (t\<lparr>proxy_skip_one_poll := b\<rparr>) = grows s t" "grows s (charge k t) = grows s t"
proof -
  have eq: "grows s t' = grows s t" if "grows t t'" "grows t' t" for t' :: "'a pool_scheme"
    using that grows_trans by blast
  show "grows s (t\<lparr>batch_jobs := x\<rparr>) = grows s t" "grows s (t\<lparr>reply_jobs := x\<rparr>) = grows s t"
    "grows s (t\<lparr>pending_commands := y\<rparr>) = grows s t" "grows s (on_category n f t) = grows s t"
    "grows s (t\<lparr>heap := h\<rparr>) = grows s t" "grows s (t\<lparr>next_ptr := p\<rparr>) = grows s t"
    "grows s (t\<lparr>proxy_skip_one_poll := b\<rparr>) = grows s t" "grows s (charge k t) = grows s t"
    by (rule eq; rule grows_same; simp add: charge_def split: kind.splits)+
qed

lemma grows_run_tagged:
  assumes inv: "tagged_inv s" and small: "length (tagged_workers s) < 2 ^ 31" and i: "i < length (tagged_workers s)"
  shows "grows s (run_tagged i s)"
proof (cases "\<not> tw_busy (tagged_workers s ! i) \<and> tw_queue (tagged_workers s ! i) \<noteq> []")
  case False
  then have "run_tagged i s = s" by (auto simp: run_tagged_def Let_def)
  then show ?thesis by simp
next
  case True
  let ?t = "tagged_workers s ! i"
  have ok: "tagged_ok i ?t" using inv i by (simp add: tagged_inv_def)
  have tw: "tagged_workers (run_tagged i s) = (tagged_workers s)[i := start_tagged ?t]" by (rule run_tagged_workers)
  have st: "tw_busy (start_tagged ?t)" using True by (simp add: start_tagged_def)
  have m: "to_workers (run_tagged i s) = to_workers s @ [(route_of (Tagged i), ''RUN'')]"
    using True ok by (simp add: run_tagged_def Let_def proxy_run_worker_def tagged_ok_def)
  obtain t' m' where u: "run_tagged i s = s\<lparr>tagged_workers := t', to_workers := m'\<rparr>"
    using run_tagged_upd [of i s] by (elim exE)
  have g: "workers (run_tagged i s) = workers s" "busy (run_tagged i s) = busy s"
    by (simp_all add: u busy_def idle_set_def)
  show ?thesis
    unfolding grows_def
  proof (intro allI impI)
    fix v
    assume "small v"
    then have mv: "msgs_to (run_tagged i s) v = msgs_to s v @ (if Tagged i = v then [''RUN''] else [])"
      using msgs_of_one [of "Tagged i" v] small i by (simp add: m)
    show "grows_at s (run_tagged i s) v"
    proof (cases v)
      case (Tagged k)
      then show ?thesis using mv i True st by (cases "k = i") (simp_all add: grows_at_def tw)
    next
      case (General k)
      with mv show ?thesis by (simp add: grows_at_def g)
    qed
  qed
qed


lemma run_tagged_tagged:
  assumes "tagged_inv s"
  shows "tagged_inv (run_tagged i s)" "length (tagged_workers (run_tagged i s)) = length (tagged_workers s)"
  using assms by (cases "i < length (tagged_workers s)")
    (auto simp: tagged_inv_def run_tagged_workers nth_list_update start_tagged_ok)

lemma grows_fold_tagged:
  "tagged_inv s \<Longrightarrow> length (tagged_workers s) < 2 ^ 31 \<Longrightarrow> (\<And>i. i \<in> set xs \<Longrightarrow> i < length (tagged_workers s)) \<Longrightarrow>
    grows s (fold run_tagged xs s)"
proof (induction xs arbitrary: s)
  case (Cons i xs)
  have "grows s (run_tagged i s)" using Cons.prems by (intro grows_run_tagged) simp_all
  moreover have "grows (run_tagged i s) (fold run_tagged xs (run_tagged i s))"
    using Cons.prems run_tagged_tagged [OF Cons.prems(1), of i] by (intro Cons.IH) simp_all
  ultimately show ?case by (simp add: grows_trans)
qed simp

lemma grows_run_batch_jobs: "pool_inv s \<Longrightarrow> grows s (proxy_run_batch_jobs reply s)"
proof (induction reply s rule: proxy_run_batch_jobs.induct)
  case (1 reply s)
  have core: "core_inv s" using "1.prems" by (simp add: pool_inv_def)
  have "grows s (start_worker (load_batch (hd (job_queue reply s)) reply 0) s)"
    using core job_work_simps(3) by (rule grows_start)
  then have step: "grows s (run_batch_job reply s)" by (cases reply) (simp_all add: run_batch_job_charge)
  show ?case
  proof (cases "job_queue reply s \<noteq> [] \<and> active_workers s < max_workers s
      \<and> (jobs_active reply s < jobs_reserved reply s \<or> active_workers s < general_workers s)")
    case True
    then have "pool_inv (run_batch_job reply s)" using "1.prems" by (simp add: run_batch_job_inv job_admits)
    from grows_trans [OF step "1.IH" [OF True this]] show ?thesis
      using True by (subst proxy_run_batch_jobs.simps) simp
  next
    case False
    have "proxy_run_batch_jobs reply s = s"
      by (subst proxy_run_batch_jobs.simps) (rule if_not_P [OF False])
    then show ?thesis by simp
  qed
qed

lemma grows_run_pending:
  assumes "core_inv s" "queue_inv (s\<lparr>pending_commands := pre @ ps\<rparr>)" "run_pending ps s = (kept, s')"
  shows "grows s s'"
  using assms
proof (induction ps s arbitrary: pre kept s' rule: run_pending.induct)
  case (1 s)
  then show ?case by simp
next
  case (2 p ps s)
  have p: "pending_ok p" "pc_cat p \<in> fst ` set (categories s)" using "2.prems"(2) by (simp_all add: queue_inv_def)
  have adm: "sp.admits s (cat_kind (pc_cat p)) \<longleftrightarrow> active_threads (get_category (pc_cat p) s) < reserved_threads (get_category (pc_cat p) s)
      \<or> active_workers s < general_workers s"
    using "2.prems"(1) p by (simp add: admits_iff)
  show ?case
  proof (cases "active_workers s < max_workers s")
    case False
    with "2.prems" show ?thesis by simp
  next
    case max: True
    show ?thesis
    proof (cases "sp.admits s (cat_kind (pc_cat p))")
      case True
      have "grows s (start_worker (load_pending p) s)" by (rule grows_start [OF "2.prems"(1) loads_intros(3) [OF p(1)]])
      then have step: "grows s (run_pending_command p s)" using p by (simp add: run_pending_command_charge)
      note r = run_pending_command_inv [OF "2.prems"(1) p True "2.prems"(2)]
      have "run_pending ps (run_pending_command p s) = (kept, s')" using True adm max "2.prems"(3) by simp
      from grows_trans [OF step "2.IH"(1) [OF max True [unfolded adm] r this]] show ?thesis .
    next
      case False
      then obtain kept' where k: "run_pending ps s = (kept', s')" "kept = p # kept'"
        using "2.prems"(3) max adm by (auto split: prod.splits)
      have "queue_inv (s\<lparr>pending_commands := (pre @ [p]) @ ps\<rparr>)" using "2.prems"(2) by simp
      from "2.IH"(2) [OF max False [unfolded adm] "2.prems"(1) this k(1)] show ?thesis .
    qed
  qed
qed

lemma grows_process_queue:
  assumes "all_inv s"
  shows "grows s (proxy_process_queue s)"
proof -
  define a where "a = fold run_tagged [0..<length (tagged_workers s)] s"
  define c where "c = proxy_run_batch_jobs True (proxy_run_batch_jobs False a)"
  obtain kept d where d: "run_pending (pending_commands c) c = (kept, d)" by (cases "run_pending (pending_commands c) c")
  have "grows s a" unfolding a_def using assms by (intro grows_fold_tagged) (simp_all add: all_inv_def)
  moreover have a: "pool_inv a" using assms by (simp add: a_def all_inv_def)
  have "grows a c"
    unfolding c_def using a by (intro grows_trans [OF grows_run_batch_jobs grows_run_batch_jobs] proxy_run_batch_jobs_inv)
  moreover have "pool_inv c" unfolding c_def using a by (intro proxy_run_batch_jobs_inv)
  then have "grows c d" using d by (intro grows_run_pending [of c "[]" "pending_commands c" kept]) (simp_all add: pool_inv_def)
  ultimately have "grows s d" by (blast intro: grows_trans)
  moreover have "proxy_process_queue s = d\<lparr>pending_commands := kept\<rparr>"
    using inv_max [OF assms] d by (simp add: proxy_process_queue_def Let_def a_def c_def)
  ultimately show ?thesis by simp
qed

lemma grows_push_job: "grows s (push_job thread bj s)"
proof (rule grows_same)
  show "map tw_run (tagged_workers (push_job thread bj s)) = map tw_run (tagged_workers s)"
    "map tw_busy (tagged_workers (push_job thread bj s)) = map tw_busy (tagged_workers s)"
    by (simp_all add: push_job_def push_tagged_def map_update)
      (metis list_update_id nth_map list_update_beyond not_less length_map)+
qed (simp_all add: push_job_def push_tagged_def)

lemma grows_push_jobs: "grows s (fold (\<lambda>i. push_job (f i) (g i)) xs s)"
  by (induction xs arbitrary: s) (auto intro: grows_trans grows_push_job)

lemma proxy_op_grows:
  assumes "proxy_op s s'" "all_inv s"
  shows "grows s s'"
  using assms
proof (induction rule: proxy_op.induct)
  case (command n s command data cb conn acc remote)
  then have "core_inv s" by (simp add: all_inv_def pool_inv_def)
  from grows_start [OF this loads_intros(4)] show ?case by (simp add: dispatch_command_def enqueue_pending_def)
next
  case (inject t s)
  then have "core_inv s" by (simp add: all_inv_def pool_inv_def)
  from grows_start [OF this loads_intros(5)] show ?case by (simp add: proxy_inject_task_def enqueue_pending_def)
next
  case (batch s ptr)
  then show ?case by (auto simp: proxy_batch_def Let_def case_prod_beta grows_push_jobs split: option.splits)
next
  case (process s)
  then show ?case by (rule grows_process_queue)
qed (simp_all add: alloc_def proxy_schedule_reply_job_def Let_def)

lemma proxy_op_step: "proxy_op s s' \<Longrightarrow> pool_step s s'"
  by (induction rule: proxy_op.induct) (rule pool_step.intros; assumption)+

section \<open>Worker threads and the pool's invariant\<close>

text \<open>What a worker thread may change in its \<^verbatim>\<open>run_info\<close>.\<close>

definition ran_info :: "run_info \<Rightarrow> run_info \<Rightarrow> bool" where
  "ran_info r r' \<longleftrightarrow> is_batch_job r' = is_batch_job r \<and> is_reply_job r' = is_reply_job r \<and> ri_cat r' = ri_cat r
     \<and> joinable r' = joinable r \<and> worker_id r' = worker_id r \<and> worker_routing_id r' = worker_routing_id r
     \<and> batch_jobno r' = batch_jobno r \<and> (is_batch_job r \<longrightarrow> to_run r' = to_run r)"

lemma worker_body_info: "ran_info r (fst (snd (worker_body r m)))"
  by (simp add: ran_info_def worker_body_def Let_def split: to_run.splits option.splits prod.splits)

lemma set_run_all:
  assumes inv: "all_inv s" and w: "has_worker s w" and r: "ran_info (run_of s w) r"
  shows "all_inv (set_run w r s)"
proof (cases w)
  case (General i)
  let ?s = "set_run w r s"
  have i: "i < length (workers s)" and r: "ran_info (workers s ! i) r" using w r General by simp_all
  have core: "core_inv s" using inv by (simp add: all_inv_def pool_inv_def)
  have same: "busy ?s = busy s" "idle_set ?s = idle_set s" using i by (simp_all add: General busy_def idle_set_def)
  have k: "kind_of (unload (workers ?s ! j)) = kind_of (unload (workers s ! j))" for j
    using r i by (cases "j = i") (simp_all add: General kind_of_unload ran_info_def)
  have load: "load ?s = load s" by (simp add: load_def running_def same image_mset.compositionality comp_def k)
  have "worker_ok j (workers ?s ! j)" if "j < length (workers s)" for j
    using that core_inv_shape [OF core] r i
    by (cases "j = i") (auto simp: General shape_ok_def worker_ok_def ran_info_def run_ptr_def)
  then have sh: "shape_ok ?s" using core_inv_shape [OF core] by (simp add: shape_ok_def General idle_set_def)
  have f: "categories ?s = categories s" "general_workers ?s = general_workers s" "max_workers ?s = max_workers s"
    "worker_sockets ?s = worker_sockets s" "idle_workers ?s = idle_workers s" "length (workers ?s) = length (workers s)"
    "batch_jobs_reserved ?s = batch_jobs_reserved s" "reply_jobs_reserved ?s = reply_jobs_reserved s"
    "batch_jobs_active ?s = batch_jobs_active s" "reply_jobs_active ?s = reply_jobs_active s"
    "tagged_workers ?s = tagged_workers s" "pending_commands ?s = pending_commands s"
    by (simp_all add: General)
  have g: "get_category n ?s = get_category n s" for n by (simp add: get_category_def f)
  have kr: "kinds ?s = kinds s" "reserved ?s = reserved s" "active ?s = active s"
    by (simp add: kinds_def f, (rule ext, rename_tac k, case_tac k; simp add: f g)+)
  have "pool_ok ?s" using core sh by (simp add: core_inv_def pool_ok_def load kr f)
  moreover have "sp.excess ?s = sp.excess s" "sp.capacity ?s = sp.capacity s"
    by (simp_all add: sp.excess_def sp.capacity_def kr load f)
  ultimately have "core_inv ?s" using core by (auto simp: core_inv_def kr load f)
  moreover have "queue_inv ?s = queue_inv s" by (rule queue_cong) (simp_all add: f g)
  ultimately show ?thesis using inv by (simp add: all_inv_def pool_inv_def tagged_inv_def f)
next
  case (Tagged i)
  then have "tagged_ok j ((tagged_workers s)[i := (tagged_workers s ! i)\<lparr>tw_run := r\<rparr>] ! j)"
    if "j < length (tagged_workers s)" for j
    using that inv r w by (cases "j = i") (auto simp: all_inv_def tagged_inv_def tagged_ok_def ran_info_def)
  with inv Tagged show ?thesis by (simp add: all_inv_def pool_inv_def) (simp add: tagged_inv_def)
qed

text \<open>A \<^verbatim>\<open>RAN\<close> message makes its worker idle and changes no other worker.\<close>

lemma batch_ran_tagged:
  "map tw_run (tagged_workers (fst (batch_ran r s))) = map tw_run (tagged_workers s)"
  "map tw_busy (tagged_workers (fst (batch_ran r s))) = map tw_busy (tagged_workers s)"
  "to_workers (fst (batch_ran r s)) = to_workers s"
proof -
  have p: "map tw_run (tagged_workers (push_tagged i bj t)) = map tw_run (tagged_workers t)"
    "map tw_busy (tagged_workers (push_tagged i bj t)) = map tw_busy (tagged_workers t)" for i bj and t :: "'a pool_scheme"
    by (simp_all add: push_tagged_def map_update)
      (metis list_update_id nth_map list_update_beyond not_less length_map)+
  show "map tw_run (tagged_workers (fst (batch_ran r s))) = map tw_run (tagged_workers s)"
    "map tw_busy (tagged_workers (fst (batch_ran r s))) = map tw_busy (tagged_workers s)"
    by (simp_all add: batch_ran_def Let_def p split: to_run.splits option.splits prod.splits batch_state.splits)
  show "to_workers (fst (batch_ran r s)) = to_workers s"
    by (simp add: batch_ran_def Let_def push_tagged_def split: to_run.splits option.splits prod.splits batch_state.splits)
qed

lemma nth_map_eq: "map f xs = map f ys \<Longrightarrow> i < length xs \<Longrightarrow> f (xs ! i) = f (ys ! i)"
  by (metis length_map nth_map)


fun wletter :: "worker_name \<Rightarrow> bool" where
  "wletter (General i) = False"
| "wletter (Tagged i) = True"

fun wnumber :: "worker_name \<Rightarrow> nat" where
  "wnumber (General i) = i"
| "wnumber (Tagged i) = Suc i"

lemma worker_message_name:
  assumes "has_worker s w" "length (workers s) < 2 ^ 32" "length (tagged_workers s) < 2 ^ 31"
  shows "proxy_worker_message [route_of w, ''RAN''] s = proxy_ran (wletter w) (wnumber w) (route_of w) s"
    "proxy_worker_message [route_of w, ''QUITTING''] s = (set_run w ((run_of s w)\<lparr>joinable := False\<rparr>) s, None)"
  using assms by (cases w; simp add: worker_message_ran tagged_message_ran proxy_worker_message_def Let_def routing_number_id)+

lemma ran_keeps:
  assumes s': "s' = fst (proxy_ran (wletter w) (wnumber w) (route_of w) s)"
  shows "workers s' = workers s" "map tw_run (tagged_workers s') = map tw_run (tagged_workers s)"
    "max_workers s' = max_workers s"
    "to_workers s' = to_workers s @ (if max_workers s = 0 then [(route_of w, ''QUIT'')] else [])"
proof -
  note t = batch_ran_tagged
  show "workers s' = workers s" "max_workers s' = max_workers s"
    unfolding s' by (cases w; simp add: proxy_ran_def Let_def case_prod_beta)+
  show "map tw_run (tagged_workers s') = map tw_run (tagged_workers s)"
    unfolding s' by (cases w; simp add: proxy_ran_def Let_def case_prod_beta t map_update)
      (metis list_update_id nth_map list_update_beyond not_less length_map)
  show "to_workers s' = to_workers s @ (if max_workers s = 0 then [(route_of w, ''QUIT'')] else [])"
    unfolding s' by (cases w; simp add: proxy_ran_def Let_def case_prod_beta t)
qed

lemma ran_effect:
  assumes b: "wletter w \<longrightarrow> is_batch_job (run_of s w)"
    and s': "s' = fst (proxy_ran (wletter w) (wnumber w) (route_of w) s)"
  shows "map tw_busy (tagged_workers s') = (case w of General i \<Rightarrow> map tw_busy (tagged_workers s)
       | Tagged i \<Rightarrow> (map tw_busy (tagged_workers s))[i := False])"
    "max_workers s \<noteq> 0 \<Longrightarrow> busy s' = (case w of General i \<Rightarrow> busy (push_idle i s) | Tagged i \<Rightarrow> busy s)"
proof -
  note t = batch_ran_tagged
  show "map tw_busy (tagged_workers s') = (case w of General i \<Rightarrow> map tw_busy (tagged_workers s)
       | Tagged i \<Rightarrow> (map tw_busy (tagged_workers s))[i := False])"
    unfolding s' using b by (cases w; simp add: proxy_ran_def Let_def case_prod_beta t map_update)
  show "busy s' = (case w of General i \<Rightarrow> busy (push_idle i s) | Tagged i \<Rightarrow> busy s)" if "max_workers s \<noteq> 0"
  proof (cases w)
    case (General i)
    have "busy (fst (proxy_ran False i (route_of w) s)) = busy (push_idle i s)"
      using that by (simp add: proxy_ran_def Let_def case_prod_beta busy_def idle_set_def push_idle_def)
    with General s' show ?thesis by simp
  next
    case (Tagged i)
    then show ?thesis using b that unfolding s'
      by (simp add: proxy_ran_def Let_def case_prod_beta) (simp add: busy_def idle_set_def)
  qed
qed


section \<open>The protocol\<close>

text \<open>
  The states of one worker: whether the proxy counts it as busy, its thread, and the messages in flight to
  it and from it.
\<close>

definition wait_ok :: "bool \<Rightarrow> string list \<Rightarrow> string list \<Rightarrow> bool" where
  "wait_ok b to from \<longleftrightarrow> (if b then to = [''RUN''] \<and> from = [] \<or> to = [] \<and> from = [''RAN''] else to = [] \<and> from = [])"

fun proto_ok :: "bool \<Rightarrow> thread_state \<Rightarrow> string list \<Rightarrow> string list \<Rightarrow> bool" where
  "proto_ok b th_running to from = (b \<and> to = [] \<and> from = [])"
| "proto_ok b th_waiting to from = wait_ok b to from"
| "proto_ok b th_starting to from = (from = [] \<and> (to = [''START''] \<and> \<not> b \<or> to = [''START'', ''RUN''] \<and> b))"
| "proto_ok b th_gone to from = False"

definition worker_inv :: "sys \<Rightarrow> worker_name \<Rightarrow> bool" where
  "worker_inv S w \<longleftrightarrow>
     (if has_worker (sys_pool S) w
      then proto_ok (is_busy (sys_pool S) w) (sys_threads S w) (msgs_to (sys_pool S) w) (msgs_of w (sys_inbox S))
      else msgs_to (sys_pool S) w = [] \<and> msgs_of w (sys_inbox S) = [])"

definition sys_inv :: "sys \<Rightarrow> bool" where
  "sys_inv S \<longleftrightarrow> all_inv (sys_pool S) \<and> (\<forall>w. small w \<longrightarrow> worker_inv S w)
     \<and> (\<forall>m \<in> set (sys_inbox S). \<exists>w. has_worker (sys_pool S) w \<and> fst m = route_of w)"

lemma has_worker_small: "all_inv s \<Longrightarrow> has_worker s w \<Longrightarrow> small w"
  by (cases w) (auto simp: all_inv_def pool_inv_def core_inv_def)

lemma all_inv_lengths: "all_inv s \<Longrightarrow> length (workers s) < 2 ^ 32" "all_inv s \<Longrightarrow> length (tagged_workers s) < 2 ^ 31"
  by (auto simp: all_inv_def pool_inv_def core_inv_def)

lemma msgs_of_Cons:
  "small v \<Longrightarrow> small w \<Longrightarrow> msgs_of w ((route_of v, m) # ms) = (if v = w then m # msgs_of w ms else msgs_of w ms)"
  using routes_distinct [of v w] by (auto simp: msgs_of_def)

lemma msgs_of_take:
  assumes "small v" "small w" "msgs_of w ms = m # rest"
  shows "msgs_of v (take_msg w ms) = (if v = w then rest else msgs_of v ms)"
  using assms(3)
proof (induction ms)
  case (Cons x ms)
  obtain r c where x: "x = (r, c)" by (cases x)
  show ?case
  proof (cases "r = route_of w")
    case True
    with Cons.prems routes_distinct [OF assms(1,2)] show ?thesis by (auto simp: x take_msg_def msgs_of_def)
  next
    case False
    have r: "msgs_of w ms = m # rest" using Cons.prems False by (simp add: x msgs_of_def)
    have "dropWhile (\<lambda>m. fst m \<noteq> route_of w) ms \<noteq> []"
      using r by (auto simp: msgs_of_def dropWhile_eq_Nil_conv filter_empty_conv dest!: filter_eq_ConsD)
    then have "take_msg w (x # ms) = x # take_msg w ms"
      using False by (auto simp: x take_msg_def split: list.splits)
    with Cons.IH [OF r] False show ?thesis by (cases "v = w") (simp_all add: x msgs_of_def)
  qed
qed (simp add: msgs_of_def)

lemma sys_inv_proxy:
  assumes inv: "sys_inv S" and op: "proxy_op (sys_pool S) s"
  shows "sys_inv (S\<lparr>sys_pool := s, sys_threads := spawn (sys_pool S) (sys_threads S)\<rparr>)"
proof -
  have all: "all_inv (sys_pool S)" using inv by (simp add: sys_inv_def)
  then have s: "all_inv s" by (rule pool_step_inv [OF proxy_op_step [OF op]])
  have g: "grows_at (sys_pool S) s w" if "small w" for w
    using proxy_op_grows [OF op all] that by (simp add: grows_def)
  have "worker_inv (S\<lparr>sys_pool := s, sys_threads := spawn (sys_pool S) (sys_threads S)\<rparr>) w" if "small w" for w
  proof -
    have "worker_inv S w" using inv that by (simp add: sys_inv_def)
    with g [OF that] show ?thesis
      by (cases "sys_threads S w") (auto simp: worker_inv_def grows_at_def spawn_def wait_ok_def split: if_splits)
  qed
  moreover have h: "has_worker s w" if "has_worker (sys_pool S) w" for w
    using g [OF has_worker_small [OF all that]] that by (simp add: grows_at_def)
  have "\<exists>w. has_worker s w \<and> fst m = route_of w" if "m \<in> set (sys_inbox S)" for m
    using that inv h unfolding sys_inv_def by blast
  ultimately show ?thesis using s by (simp add: sys_inv_def)
qed


text \<open>A step of one worker thread.\<close>

lemma sys_inv_thread:
  assumes inv: "sys_inv S" and w: "has_worker (sys_pool S) w" and all: "all_inv (sys_pool S')"
    and hw: "\<And>v. has_worker (sys_pool S') v = has_worker (sys_pool S) v"
    and bz: "\<And>v. has_worker (sys_pool S) v \<Longrightarrow> v \<noteq> w \<Longrightarrow> is_busy (sys_pool S') v = is_busy (sys_pool S) v"
    and th: "\<And>v. v \<noteq> w \<Longrightarrow> sys_threads S' v = sys_threads S v"
    and to: "\<And>v. small v \<Longrightarrow> v \<noteq> w \<Longrightarrow> msgs_to (sys_pool S') v = msgs_to (sys_pool S) v"
    and fr: "\<And>v. small v \<Longrightarrow> v \<noteq> w \<Longrightarrow> msgs_of v (sys_inbox S') = msgs_of v (sys_inbox S)"
    and ok: "proto_ok (is_busy (sys_pool S') w) (sys_threads S' w) (msgs_to (sys_pool S') w) (msgs_of w (sys_inbox S'))"
    and ib: "set (sys_inbox S') \<subseteq> set (sys_inbox S) \<union> {m. fst m = route_of w}"
  shows "sys_inv S'"
proof -
  have "worker_inv S' v" if "small v" for v
  proof (cases "v = w")
    case True
    with ok w hw show ?thesis by (simp add: worker_inv_def)
  next
    case False
    have "worker_inv S v" using inv that by (simp add: sys_inv_def)
    with False that show ?thesis by (simp add: worker_inv_def hw bz th to fr)
  qed
  moreover have "\<exists>w. has_worker (sys_pool S') w \<and> fst m = route_of w" if "m \<in> set (sys_inbox S')" for m
    using that inv ib w unfolding sys_inv_def hw by blast
  ultimately show ?thesis using all by (simp add: sys_inv_def)
qed

lemma has_worker_upd [simp]: "has_worker (s\<lparr>to_workers := m\<rparr>) w = has_worker s w"
  "is_busy (s\<lparr>to_workers := m\<rparr>) w = is_busy s w" "all_inv (s\<lparr>to_workers := m\<rparr>) = all_inv s"
  by (cases w; simp add: busy_def idle_set_def all_inv_def pool_inv_def tagged_inv_def)+

lemma set_run_keeps [simp]: "has_worker (set_run v r s) w = has_worker s w" "to_workers (set_run v r s) = to_workers s"
  by (cases w; cases v; simp)+

lemma is_busy_set_run: "has_worker s w \<Longrightarrow> is_busy (set_run v r s) w = is_busy s w"
  by (cases w; cases v; cases "wnumber v = wnumber w") (auto simp: busy_def idle_set_def)

lemma sys_inv_at: "sys_inv S \<Longrightarrow> has_worker (sys_pool S) w \<Longrightarrow>
    small w \<and> proto_ok (is_busy (sys_pool S) w) (sys_threads S w) (msgs_to (sys_pool S) w) (msgs_of w (sys_inbox S))"
  using has_worker_small [of "sys_pool S" w] by (auto simp: sys_inv_def worker_inv_def)

lemma ran_busy:
  assumes inv: "all_inv s" and w: "has_worker s w" and b: "is_busy s w"
    and s': "s' = fst (proxy_ran (wletter w) (wnumber w) (route_of w) s)"
  shows "all_inv s'" "has_worker s' v = has_worker s v" "to_workers s' = to_workers s"
    "has_worker s v \<Longrightarrow> is_busy s' v = (is_busy s v \<and> v \<noteq> w)"
proof -
  have batch: "wletter w \<longrightarrow> is_batch_job (run_of s w)"
    using inv w b by (cases w) (auto simp: all_inv_def tagged_inv_def tagged_ok_def)
  note eff = ran_keeps [OF s'] ran_effect [OF batch s']
  have m: "max_workers s \<noteq> 0" by (rule inv_max [OF inv])
  show "all_inv s'" using inv w b s' by (cases w) (simp_all add: proxy_ran_all proxy_ran_tagged_all)
  show "to_workers s' = to_workers s" using eff(4) m by simp
  have len: "length (tagged_workers s') = length (tagged_workers s)" using map_eq_imp_length_eq [OF eff(2)] .
  then show "has_worker s' v = has_worker s v" using eff(1) by (cases v) simp_all
  assume v: "has_worker s v"
  have tb: "tw_busy (tagged_workers s' ! i) = map tw_busy (tagged_workers s') ! i" if "i < length (tagged_workers s)" for i
    using that len by simp
  have core: "core_inv s" using inv by (simp add: all_inv_def pool_inv_def)
  show "is_busy s' v = (is_busy s v \<and> v \<noteq> w)"
  proof (cases w)
    case (General i)
    have "busy s' = busy s - {i}"
      using eff(6) [OF m] push_idle_effect(3) [OF core_inv_shape [OF core], of i] idle_room [OF core, of i] b General by simp
    with General v tb eff(5) show ?thesis by (cases v) auto
  next
    case (Tagged i)
    with v tb eff(5) eff(6) [OF m] w show ?thesis by (cases v) (auto simp: nth_list_update)
  qed
qed

lemma thread_step_inv:
  assumes "thread_step S S'" "sys_inv S"
  shows "sys_inv S'"
  using assms
proof (induction rule: thread_step.induct)
  case (message S r cmd rest)
  then obtain w where w: "has_worker (sys_pool S) w" "r = route_of w" unfolding sys_inv_def by force
  have all: "all_inv (sys_pool S)" using message by (simp add: sys_inv_def)
  note at = sys_inv_at [OF message(2) w(1)]
  have f: "msgs_of v (sys_inbox S) = (if v = w then cmd # msgs_of v rest else msgs_of v rest)" if "small v" for v
    using msgs_of_Cons [of w v cmd rest] that at w(2) message(1) by auto
  then have c: "cmd = ''RAN''" "is_busy (sys_pool S) w" "sys_threads S w = th_waiting" "msgs_to (sys_pool S) w = []"
    "msgs_of w rest = []"
    using at by (cases "sys_threads S w"; auto simp: wait_ok_def split: if_splits)+
  define s' where "s' = fst (proxy_ran (wletter w) (wnumber w) (route_of w) (sys_pool S))"
  have s': "fst (proxy_worker_message [r, cmd] (sys_pool S)) = s'"
    using worker_message_name(1) [OF w(1) all_inv_lengths [OF all]] by (simp add: s'_def w(2) c(1))
  note ran = ran_busy [OF all w(1) c(2) s'_def]
  show ?case unfolding s'
    using message(2) w(1)
    by (rule sys_inv_thread) (use ran c w f message(1) in \<open>auto simp: wait_ok_def\<close>)
next
  case (started S w ms)
  note at = sys_inv_at [OF started(4) started(1)]
  show ?case
    by (rule sys_inv_thread [OF started(4) started(1)])
      (use started at msgs_of_take [of _ w, OF _ _ started(3)] in \<open>auto simp: sys_inv_def wait_ok_def\<close>)
next
  case (run S w ms)
  note at = sys_inv_at [OF run(4) run(1)]
  show ?case
    by (rule sys_inv_thread [OF run(4) run(1)])
      (use run at msgs_of_take [of _ w, OF _ _ run(3)] in \<open>auto simp: sys_inv_def wait_ok_def split: if_splits\<close>)
next
  case (quit S w ms)
  then show ?case using sys_inv_at [of S w] by (auto simp: wait_ok_def split: if_splits)
next
  case (work S w m)
  note at = sys_inv_at [OF work(3) work(1)]
  have "all_inv (sys_pool S)" using work(3) by (simp add: sys_inv_def)
  from set_run_all [OF this work(1) worker_body_info] have all: "all_inv (set_run w (fst (snd (worker_body (run_of (sys_pool S) w) m))) (sys_pool S))" .
  show ?case
    by (rule sys_inv_thread [OF work(3) work(1)])
      (use work at all msgs_of_one [of w] in \<open>auto simp: wait_ok_def is_busy_set_run\<close>)
qed


lemma sys_step_inv: "sys_step S S' \<Longrightarrow> sys_inv S \<Longrightarrow> sys_inv S'"
  by (induction rule: sys_step.induct) (simp_all add: sys_inv_proxy thread_step_inv)

lemma sys_steps_inv: "sys_step\<^sup>*\<^sup>* S S' \<Longrightarrow> sys_inv S \<Longrightarrow> sys_inv S'"
  by (induction rule: rtranclp_induct) (auto intro: sys_step_inv)

lemma msgs_of_list:
  "distinct vs \<Longrightarrow> \<forall>v \<in> set vs. small v \<Longrightarrow> small w \<Longrightarrow>
    msgs_of w (map (\<lambda>v. (route_of v, m)) vs) = (if w \<in> set vs then [m] else [])"
proof (induction vs)
  case (Cons v vs)
  then have "msgs_of w (map (\<lambda>v. (route_of v, m)) (v # vs)) = (if v = w then m # msgs_of w (map (\<lambda>v. (route_of v, m)) vs)
      else msgs_of w (map (\<lambda>v. (route_of v, m)) vs))"
    using msgs_of_Cons [of v w m] by simp
  with Cons show ?case by auto
qed (simp add: msgs_of_def)

lemma msgs_of_tagged:
  assumes inv: "tagged_inv s" and len: "length (tagged_workers s) < 2 ^ 31" and w: "small w"
  shows "msgs_of w (map (\<lambda>t. (worker_routing_id (tw_run t), m)) (filter P (tagged_workers s)))
    = (case w of General i \<Rightarrow> [] | Tagged i \<Rightarrow> if i < length (tagged_workers s) \<and> P (tagged_workers s ! i) then [m] else [])"
proof -
  let ?ts = "tagged_workers s" let ?vs = "map Tagged (filter (\<lambda>i. P (?ts ! i)) [0..<length ?ts])"
  have "map (\<lambda>t. (worker_routing_id (tw_run t), m)) (filter P ?ts)
      = map (\<lambda>i. (worker_routing_id (tw_run (?ts ! i)), m)) (filter (\<lambda>i. P (?ts ! i)) [0..<length ?ts])"
    by (subst map_nth [of ?ts, symmetric]) (simp add: filter_map comp_def)
  also have "\<dots> = map (\<lambda>v. (route_of v, m)) ?vs"
    using inv by (simp add: tagged_inv_def tagged_ok_def)
  finally have "msgs_of w (map (\<lambda>t. (worker_routing_id (tw_run t), m)) (filter P ?ts)) = (if w \<in> set ?vs then [m] else [])"
    using w len by (subst msgs_of_list [of ?vs w m, symmetric]) (auto simp: distinct_map inj_on_def)
  then show ?thesis by (cases w) auto
qed

lemma sys_start_inv:
  assumes "configured s0" "start_pool s0 = Inr s" "max_workers s < 2 ^ 31" "length (tagged_workers s) < 2 ^ 31"
  shows "sys_inv (sys_start s)"
proof -
  have inv: "pool_inv s" "tagged_inv s" using start_pool_inv [OF assms(1-3)] by simp_all
  have c: "workers s = []" "to_workers s = []" "tagged_workers s = tagged_workers s0"
    using assms(1,2) by (auto simp: start_pool_def init_workers_def Let_def configured_def size_pool_def split: if_splits)
  have nb: "\<not> tw_busy (tagged_workers s ! i)" if "i < length (tagged_workers s)" for i
    using assms(1) that c(3) by (simp add: configured_def)
  have "worker_inv (sys_start s) w" if "small w" for w
    using msgs_of_tagged [OF inv(2) assms(4) that, of "''START''" "\<lambda>t. True"] nb
    by (cases w) (auto simp: worker_inv_def sys_start_def start_tagged_workers_def c msgs_of_def)
  moreover have "all_inv (sys_pool (sys_start s))"
    using inv assms(4) by (simp add: sys_start_def start_tagged_workers_def) (simp add: all_inv_def)
  ultimately show ?thesis by (simp add: sys_inv_def) (simp add: sys_start_def)
qed

lemma reachable_sys_inv: "reachable_sys threads S \<Longrightarrow> sys_inv S"
  unfolding reachable_sys_def using configured_steps sys_start_inv sys_steps_inv by blast


section \<open>Shutdown\<close>

definition sys_quit :: "sys \<Rightarrow> sys" where
  "sys_quit S = S\<lparr>sys_pool := quit_workers (sys_pool S)\<rparr>"

text \<open>The states of one worker after \<^verbatim>\<open>QUIT\<close>; the flag is whether its thread has not been joined.\<close>

fun quit_ok :: "bool \<Rightarrow> thread_state \<Rightarrow> string list \<Rightarrow> string list \<Rightarrow> bool" where
  "quit_ok j th_running to from = (j \<and> to = [] \<and> from = [])"
| "quit_ok j th_waiting to from = (j \<and> (to = [''RUN''] \<and> from = [] \<or> to = [] \<and> from = [''RAN''] \<or> to = [''QUIT''] \<and> from = []))"
| "quit_ok j th_starting to from = (j \<and> from = [] \<and> (to = [''START'', ''RUN''] \<or> to = [''START'', ''QUIT'']))"
| "quit_ok j th_gone to from = (to = [] \<and> (if j then from = [''QUITTING''] else from = []))"

fun quit_rank :: "thread_state \<Rightarrow> string list \<Rightarrow> string list \<Rightarrow> nat" where
  "quit_rank th_running to from = 6"
| "quit_rank th_waiting to from = (if to = [''RUN''] then 7 else if to = [] then 5 else 3)"
| "quit_rank th_starting to from = (if to = [''START'', ''RUN''] then 8 else 4)"
| "quit_rank th_gone to from = length from"

abbreviation worker_quit :: "sys \<Rightarrow> worker_name \<Rightarrow> bool" where
  "worker_quit S w \<equiv> quit_ok (joinable (run_of (sys_pool S) w)) (sys_threads S w) (msgs_to (sys_pool S) w) (msgs_of w (sys_inbox S))"

definition worker_rank :: "sys \<Rightarrow> worker_name \<Rightarrow> nat" where
  "worker_rank S w = quit_rank (sys_threads S w) (msgs_to (sys_pool S) w) (msgs_of w (sys_inbox S))"

definition quit_inv :: "sys \<Rightarrow> bool" where
  "quit_inv S \<longleftrightarrow> max_workers (sys_pool S) = 0 \<and> length (workers (sys_pool S)) < 2 ^ 31 \<and> length (tagged_workers (sys_pool S)) < 2 ^ 31
     \<and> (\<forall>w. has_worker (sys_pool S) w \<longrightarrow> worker_quit S w)
     \<and> (\<forall>m \<in> set (sys_inbox S). \<exists>w. has_worker (sys_pool S) w \<and> fst m = route_of w)"

definition sys_rank :: "sys \<Rightarrow> nat" where
  "sys_rank S = (\<Sum>w \<in> {w. has_worker (sys_pool S) w}. worker_rank S w)"

lemma finite_workers [simp]: "finite {w. has_worker s w}"
proof -
  have "{w. has_worker s w} \<subseteq> General ` {..<length (workers s)} \<union> Tagged ` {..<length (tagged_workers s)}"
  proof
    fix w assume "w \<in> {w. has_worker s w}"
    then show "w \<in> General ` {..<length (workers s)} \<union> Tagged ` {..<length (tagged_workers s)}" by (cases w) auto
  qed
  then show ?thesis by (rule finite_subset) simp
qed

lemma quit_small: "quit_inv S \<Longrightarrow> has_worker (sys_pool S) w \<Longrightarrow> small w"
  by (cases w) (auto simp: quit_inv_def)

text \<open>A step of the worker \<open>w\<close> during shutdown.\<close>

lemma quit_step:
  assumes inv: "quit_inv S" and w: "has_worker (sys_pool S) w"
    and hw: "\<And>v. has_worker (sys_pool S') v = has_worker (sys_pool S) v" and max: "max_workers (sys_pool S') = 0"
    and jn: "\<And>v. has_worker (sys_pool S) v \<Longrightarrow> v \<noteq> w \<Longrightarrow> joinable (run_of (sys_pool S') v) = joinable (run_of (sys_pool S) v)"
    and th: "\<And>v. v \<noteq> w \<Longrightarrow> sys_threads S' v = sys_threads S v"
    and to: "\<And>v. small v \<Longrightarrow> v \<noteq> w \<Longrightarrow> msgs_to (sys_pool S') v = msgs_to (sys_pool S) v"
    and fr: "\<And>v. small v \<Longrightarrow> v \<noteq> w \<Longrightarrow> msgs_of v (sys_inbox S') = msgs_of v (sys_inbox S)"
    and ok: "worker_quit S' w" and rk: "worker_rank S' w < worker_rank S w"
    and ib: "set (sys_inbox S') \<subseteq> set (sys_inbox S) \<union> {m. fst m = route_of w}"
  shows "quit_inv S' \<and> sys_rank S' < sys_rank S"
proof -
  have q: "worker_quit S' v" if v: "has_worker (sys_pool S) v" for v
  proof (cases "v = w")
    case False
    have "worker_quit S v" using inv v by (simp add: quit_inv_def)
    with False v quit_small [OF inv v] show ?thesis by (simp add: jn th to fr)
  qed (simp add: ok)
  have len: "length (workers (sys_pool S')) = length (workers (sys_pool S))"
    "length (tagged_workers (sys_pool S')) = length (tagged_workers (sys_pool S))"
    using hw [of "General _"] hw [of "Tagged _"] by (simp_all add: less_eq_Suc_le) (metis not_less_eq_eq le_antisym order_refl)+
  have "\<exists>w. has_worker (sys_pool S') w \<and> fst m = route_of w" if "m \<in> set (sys_inbox S')" for m
    using that inv ib w unfolding quit_inv_def hw by blast
  with q have "quit_inv S'" using inv max by (simp add: quit_inv_def hw len)
  moreover have "sys_rank S' < sys_rank S"
    unfolding sys_rank_def hw
  proof (rule sum_strict_mono_ex1)
    show "\<forall>v \<in> {w. has_worker (sys_pool S) w}. worker_rank S' v \<le> worker_rank S v"
    proof
      fix v
      assume "v \<in> {w. has_worker (sys_pool S) w}"
      then have v: "has_worker (sys_pool S) v" by simp
      show "worker_rank S' v \<le> worker_rank S v"
        using rk quit_small [OF inv v] by (cases "v = w") (simp_all add: worker_rank_def th to fr)
    qed
    show "\<exists>v \<in> {w. has_worker (sys_pool S) w}. worker_rank S' v < worker_rank S v" using w rk by blast
  qed simp
  ultimately show ?thesis by simp
qed

lemma quit_at: "quit_inv S \<Longrightarrow> has_worker (sys_pool S) w \<Longrightarrow> worker_quit S w"
  by (simp add: quit_inv_def)

lemma quit_message:
  assumes inv: "quit_inv S" and ib: "sys_inbox S = (r, cmd) # rest"
  shows "\<exists>w. has_worker (sys_pool S) w \<and> r = route_of w \<and> (cmd = ''RAN'' \<or> cmd = ''QUITTING'')
    \<and> msgs_of w rest = [] \<and> (\<forall>v. small v \<longrightarrow> v \<noteq> w \<longrightarrow> msgs_of v rest = msgs_of v (sys_inbox S))
    \<and> (cmd = ''RAN'' \<longrightarrow> sys_threads S w = th_waiting \<and> joinable (run_of (sys_pool S) w) \<and> msgs_to (sys_pool S) w = [])
    \<and> (cmd = ''QUITTING'' \<longrightarrow> sys_threads S w = th_gone \<and> msgs_to (sys_pool S) w = [])"
proof -
  obtain w where w: "has_worker (sys_pool S) w" "r = route_of w"
    using inv ib unfolding quit_inv_def by force
  have f: "msgs_of v (sys_inbox S) = (if w = v then cmd # msgs_of v rest else msgs_of v rest)" if "small v" for v
    using msgs_of_Cons [OF quit_small [OF inv w(1)] that] by (simp add: ib w(2))
  have "worker_quit S w" by (rule quit_at [OF inv w(1)])
  then have "(cmd = ''RAN'' \<or> cmd = ''QUITTING'') \<and> msgs_of w rest = []
    \<and> (cmd = ''RAN'' \<longrightarrow> sys_threads S w = th_waiting \<and> joinable (run_of (sys_pool S) w) \<and> msgs_to (sys_pool S) w = [])
    \<and> (cmd = ''QUITTING'' \<longrightarrow> sys_threads S w = th_gone \<and> msgs_to (sys_pool S) w = [])"
    using f [OF quit_small [OF inv w(1)]] by (cases "sys_threads S w") (auto split: if_splits)
  with w f show ?thesis by (intro exI [of _ w]) auto
qed

lemma run_of_set_run:
  "has_worker s v \<Longrightarrow> run_of (set_run w r s) v = (if v = w then r else run_of s v)"
proof (cases "v = w")
  case True
  then show "has_worker s v \<Longrightarrow> run_of (set_run w r s) v = (if v = w then r else run_of s v)" by (cases w) simp_all
next
  case False
  then show "has_worker s v \<Longrightarrow> run_of (set_run w r s) v = (if v = w then r else run_of s v)"
    by (cases w; cases v) simp_all
qed

lemma run_of_upd [simp]: "run_of (s\<lparr>to_workers := m\<rparr>) w = run_of s w"
  by (cases w) simp_all

lemma max_workers_set_run [simp]: "max_workers (set_run w r s) = max_workers s"
  by (cases w) simp_all

lemma has_worker_ran: "has_worker (fst (proxy_ran (wletter w) (wnumber w) (route_of w) s)) v = has_worker s v"
  using ran_keeps(1,2) [OF refl, of w s] map_eq_imp_length_eq [OF ran_keeps(2) [OF refl, of w s]]
  by (cases v) simp_all

lemma run_of_ran:
  assumes "has_worker s v"
  shows "run_of (fst (proxy_ran (wletter w) (wnumber w) (route_of w) s)) v = run_of s v"
proof (cases v)
  case (General i)
  then show ?thesis using ran_keeps(1) [OF refl, of w s] by simp
next
  case (Tagged i)
  have "i < length (tagged_workers (fst (proxy_ran (wletter w) (wnumber w) (route_of w) s)))"
    using assms Tagged has_worker_ran [of w s v] by simp
  from nth_map_eq [OF ran_keeps(2) [OF refl] this] Tagged show ?thesis by simp
qed

lemma thread_step_quit:
  assumes "thread_step S S'" "quit_inv S"
  shows "quit_inv S' \<and> sys_rank S' < sys_rank S"
  using assms
proof (induction rule: thread_step.induct)
  case (message S r cmd rest)
  obtain w where w: "has_worker (sys_pool S) w" "r = route_of w" "cmd = ''RAN'' \<or> cmd = ''QUITTING''"
    and m: "msgs_of w rest = []" "\<forall>v. small v \<longrightarrow> v \<noteq> w \<longrightarrow> msgs_of v rest = msgs_of v (sys_inbox S)"
    and c: "cmd = ''RAN'' \<longrightarrow> sys_threads S w = th_waiting \<and> joinable (run_of (sys_pool S) w) \<and> msgs_to (sys_pool S) w = []"
      "cmd = ''QUITTING'' \<longrightarrow> sys_threads S w = th_gone \<and> msgs_to (sys_pool S) w = []"
    using quit_message [OF message(2,1)] by (elim exE conjE)
  have len: "length (workers (sys_pool S)) < 2 ^ 32" "length (tagged_workers (sys_pool S)) < 2 ^ 31"
    using message(2) by (auto simp: quit_inv_def)
  have max: "max_workers (sys_pool S) = 0" using message(2) by (simp add: quit_inv_def)
  note sm = quit_small [OF message(2) w(1)]
  have f: "msgs_of w (sys_inbox S) = [cmd]" using message(1) w(2) m(1) msgs_of_Cons [OF sm sm, of cmd rest] by simp
  show ?case
  proof (cases "cmd = ''RAN''")
    case True
    define s' where "s' = fst (proxy_ran (wletter w) (wnumber w) (route_of w) (sys_pool S))"
    have s': "fst (proxy_worker_message [r, cmd] (sys_pool S)) = s'"
      using worker_message_name(1) [OF w(1) len] by (simp add: s'_def w(2) True)
    have to: "to_workers s' = to_workers (sys_pool S) @ [(route_of w, ''QUIT'')]" "max_workers s' = 0"
      using ran_keeps(3,4) [OF s'_def] max by simp_all
    show ?thesis unfolding s'
      by (rule quit_step [OF message(2) w(1)])
        (use True c w m f message(1) to max in \<open>auto simp: s'_def has_worker_ran run_of_ran worker_rank_def msgs_of_one sm\<close>)
  next
    case False
    then have q: "cmd = ''QUITTING''" using w(3) by simp
    have s': "fst (proxy_worker_message [r, cmd] (sys_pool S)) = set_run w ((run_of (sys_pool S) w)\<lparr>joinable := False\<rparr>) (sys_pool S)"
      using worker_message_name(2) [OF w(1) len] by (simp add: w(2) q)
    show ?thesis unfolding s'
      by (rule quit_step [OF message(2) w(1)])
        (use q c w m f message(1) max in \<open>auto simp: run_of_set_run worker_rank_def\<close>)
  qed
next
  case (started S w ms)
  note sm = quit_small [OF started(4) started(1)]
  show ?case
    by (rule quit_step [OF started(4) started(1)])
      (use started quit_at [OF started(4) started(1)] msgs_of_take [of _ w, OF _ sm started(3)] sm in
        \<open>auto simp: worker_rank_def quit_inv_def\<close>)
next
  case (run S w ms)
  note sm = quit_small [OF run(4) run(1)]
  show ?case
    by (rule quit_step [OF run(4) run(1)])
      (use run quit_at [OF run(4) run(1)] msgs_of_take [of _ w, OF _ sm run(3)] sm in
        \<open>auto simp: worker_rank_def quit_inv_def\<close>)
next
  case (quit S w ms)
  note sm = quit_small [OF quit(4) quit(1)]
  show ?case
    by (rule quit_step [OF quit(4) quit(1)])
      (use quit quit_at [OF quit(4) quit(1)] msgs_of_take [of _ w, OF _ sm quit(3)] sm in
        \<open>auto simp: worker_rank_def quit_inv_def msgs_of_one\<close>)
next
  case (work S w m)
  note sm = quit_small [OF work(3) work(1)]
  have "joinable (fst (snd (worker_body (run_of (sys_pool S) w) m))) = joinable (run_of (sys_pool S) w)"
    using worker_body_info [of "run_of (sys_pool S) w" m] by (simp add: ran_info_def)
  then show ?case
    by (intro quit_step [OF work(3) work(1)])
      (use work quit_at [OF work(3) work(1)] sm in \<open>auto simp: worker_rank_def quit_inv_def msgs_of_one run_of_set_run\<close>)
qed


lemma quit_messages:
  assumes inv: "all_inv s" and w: "has_worker s w"
  shows "msgs_to (quit_workers s) w = msgs_to s w @ (if is_busy s w then [] else [''QUIT''])"
proof -
  let ?n = "idle_worker_count s" let ?vs = "map General (take ?n (idle_workers s))"
  have sh: "shape_ok s" by (rule all_inv_shape [OF inv])
  have sm: "small w" by (rule has_worker_small [OF inv w])
  have idle: "v < length (workers s)" if "v \<in> set (take ?n (idle_workers s))" for v
    using that sh by (auto simp: shape_ok_def idle_set_def)
  have vs: "distinct ?vs" "\<forall>v \<in> set ?vs. small v"
    using sh has_worker_small [OF inv, of "General _"] idle by (auto simp: shape_ok_def distinct_map inj_on_def)
  have "map (\<lambda>i. (worker_routing_id (workers s ! (idle_workers s ! i)), ''QUIT'')) [0..<?n]
      = map (\<lambda>v. (worker_routing_id (workers s ! v), ''QUIT'')) (map (\<lambda>i. idle_workers s ! i) [0..<?n])" by simp
  also have "map (\<lambda>i. idle_workers s ! i) [0..<?n] = take ?n (idle_workers s)"
    using sh by (intro nth_equalityI) (simp_all add: shape_ok_def)
  also have "map (\<lambda>v. (worker_routing_id (workers s ! v), ''QUIT'')) (take ?n (idle_workers s)) = map (\<lambda>v. (route_of v, ''QUIT'')) ?vs"
    using sh idle by (simp add: shape_ok_def worker_ok_def)
  finally have "msgs_of w (map (\<lambda>i. (worker_routing_id (workers s ! (idle_workers s ! i)), ''QUIT'')) [0..<?n])
      = (if w \<in> set ?vs then [''QUIT''] else [])"
    using msgs_of_list [OF vs sm] by simp
  moreover have "msgs_of w (map (\<lambda>t. (worker_routing_id (tw_run t), ''QUIT'')) (filter (\<lambda>t. \<not> tw_busy t) (tagged_workers s)))
      = (case w of General i \<Rightarrow> [] | Tagged i \<Rightarrow> if i < length (tagged_workers s) \<and> \<not> tw_busy (tagged_workers s ! i) then [''QUIT''] else [])"
    using inv sm by (intro msgs_of_tagged) (simp_all add: all_inv_def)
  ultimately show ?thesis using w by (cases w) (auto simp: quit_workers_def busy_def idle_set_def)
qed

lemma sys_quit_inv:
  assumes inv: "sys_inv S"
  shows "quit_inv (sys_quit S)"
proof -
  have all: "all_inv (sys_pool S)" using inv by (simp add: sys_inv_def)
  have hw: "has_worker (quit_workers s) w = has_worker s w" "run_of (quit_workers s) w = run_of s w" for s :: pool and w
    by (cases w; simp add: quit_workers_def)+
  have "worker_quit (sys_quit S) w" if w: "has_worker (sys_pool S) w" for w
  proof -
    have "joinable (run_of (sys_pool S) w)"
      using w all all_inv_shape [OF all] by (cases w) (auto simp: shape_ok_def worker_ok_def all_inv_def tagged_inv_def tagged_ok_def)
    with sys_inv_at [OF inv w] show ?thesis
      by (cases "sys_threads S w") (auto simp: sys_quit_def hw quit_messages [OF all w] wait_ok_def split: if_splits)
  qed
  moreover have "length (workers (sys_pool S)) < 2 ^ 31" "length (tagged_workers (sys_pool S)) < 2 ^ 31"
    using all by (auto simp: all_inv_def pool_inv_def core_inv_def)
  ultimately show ?thesis
    using inv by (simp add: quit_inv_def sys_inv_def) (simp add: sys_quit_def hw, simp add: quit_workers_def)
qed

lemma quit_progress:
  assumes inv: "quit_inv S" and w: "has_worker (sys_pool S) w" "joinable (run_of (sys_pool S) w)"
  shows "\<exists>S'. thread_step S S'"
proof (cases "sys_inbox S")
  case (Cons m rest)
  then show ?thesis by (cases m) (auto intro: thread_step.message)
next
  case Nil
  have "worker_quit S w" by (rule quit_at [OF inv w(1)])
  with Nil w(2) show ?thesis
    by (cases "sys_threads S w")
      (auto simp: msgs_of_def dest: thread_step.started [OF w(1)] thread_step.run [OF w(1)] thread_step.quit [OF w(1)] thread_step.work [OF w(1)])
qed

lemma quit_steps: "(thread_step ^^ k) S T \<Longrightarrow> quit_inv S \<Longrightarrow> quit_inv T \<and> sys_rank T + k \<le> sys_rank S"
proof (induction k arbitrary: T)
  case (Suc k)
  then obtain U where U: "(thread_step ^^ k) S U" "thread_step U T" by auto
  with Suc thread_step_quit [of U T] show ?case by fastforce
qed simp


section \<open>Properties\<close>

text \<open>A running system: the general worker \<open>0\<close> is busy with its first command.\<close>

definition example_sys :: sys where
  "example_sys = \<lparr>sys_pool = snd (dispatch_command ''c'' ''c.x'' [] (5, False) default_conn default_access [] (start_tagged_workers example_pool)),
     sys_threads = spawn (start_tagged_workers example_pool) (sys_threads (sys_start example_pool)), sys_inbox = []\<rparr>"

lemma example_sys_reachable: "reachable_sys 1 example_sys"
proof -
  have "example_sys = (sys_start example_pool)\<lparr>sys_pool := sys_pool example_sys,
      sys_threads := spawn (sys_pool (sys_start example_pool)) (sys_threads (sys_start example_pool))\<rparr>"
    by (simp add: example_sys_def sys_start_def)
  moreover have "proxy_op (sys_pool (sys_start example_pool)) (sys_pool example_sys)"
    unfolding example_sys_def sys_start_def sys.select_convs
    by (rule proxy_op.command) (simp add: start_tagged_workers_def example_pool_def example_config_def)
  ultimately have "sys_step (sys_start example_pool) example_sys" using sys_step.proxy by metis
  then have "sys_step\<^sup>*\<^sup>* (sys_start example_pool) example_sys" by (rule r_into_rtranclp)
  with example_started show ?thesis unfolding reachable_sys_def by blast
qed

lemma example_sys_worker: "has_worker (sys_pool example_sys) (General 0)" "sys_threads example_sys (General 0) = th_running"
  by (simp_all add: example_sys_def start_tagged_workers_def example_pool_def example_config_def pool_init_def
      dispatch_command_def no_free_worker_def get_category_def mk_category_def start_worker_def get_idle_worker_def
      Let_def proxy_run_worker_def load_command_def run_reset_def new_run_info_def spawn_def)

text \<open>C1: the protocol between the proxy and the workers. In every reachable state of the system, a worker that
  the proxy counts as busy is either running its job, or about to receive the one \<^verbatim>\<open>RUN\<close> for it (a tagged
  thread possibly still waiting for \<^verbatim>\<open>START\<close>), or its one \<^verbatim>\<open>RAN\<close> is on the way; and a worker that the proxy counts
  as idle is waiting with no message in flight. So no wake-up is lost or doubled, and every \<^verbatim>\<open>RAN\<close> comes from
  a busy worker.\<close>

theorem worker_protocol:
  assumes "reachable_sys threads S" "has_worker (sys_pool S) w"
  shows "if is_busy (sys_pool S) w
    then (sys_threads S w, msgs_to (sys_pool S) w, msgs_of w (sys_inbox S))
      \<in> {(th_running, [], []), (th_waiting, [''RUN''], []), (th_waiting, [], [''RAN'']), (th_starting, [''START'', ''RUN''], [])}
    else (sys_threads S w, msgs_to (sys_pool S) w, msgs_of w (sys_inbox S))
      \<in> {(th_waiting, [], []), (th_starting, [''START''], [])}"
  using sys_inv_at [OF reachable_sys_inv [OF assms(1)] assms(2)]
  by (cases "sys_threads S w") (auto simp: wait_ok_def split: if_splits)

theorem worker_protocol_witness:
  "sys_threads example_sys (General 0) = th_running \<and> msgs_to (sys_pool example_sys) (General 0) = []"
  using worker_protocol [OF example_sys_reachable example_sys_worker(1)] example_sys_worker(2) by (simp split: if_splits)






text \<open>C23: a command runs as it was received. For the \<^verbatim>\<open>run_info\<close> loaded from a queued command, or directly, the
  callback of that command is called with the connection, access level and remote address it came with; a
  request gets its first part as the reply tag and the other parts as data, any other command all
  parts as data. A job or an injected task is called as it was queued.\<close>

theorem work_runs_as_queued:
  assumes "pending_ok p" "\<not> (\<exists>f. pc_callback p = pending_cmd (f, True) \<and> pc_data_parts p = [])" "0 \<le> j"
  shows "fst (worker_body (load_pending p r) m) = (case pc_callback p of
       pending_fn f \<Rightarrow> act_injected f
     | pending_cmd (f, True) \<Rightarrow> act_command f \<lparr>msg_conn = pc_conn p, msg_access = pc_access p, msg_remote = pc_remote p,
         msg_reply_tag = hd (pc_data_parts p), msg_data = tl (pc_data_parts p)\<rparr>
     | pending_cmd (f, False) \<Rightarrow> act_command f \<lparr>msg_conn = pc_conn p, msg_access = pc_access p, msg_remote = pc_remote p,
         msg_reply_tag = msg_reply_tag m, msg_data = pc_data_parts p\<rparr>)
   \<and> fst (worker_body (load_batch (b, j) reply t r) m) = act_job b (nat j)
   \<and> fst (worker_body (load_batch (b, -1) reply t r) m) = act_completion b"
proof -
  have "fst (worker_body (load_batch (b, j) reply t r) m) = act_job b (nat j)"
    "fst (worker_body (load_batch (b, -1) reply t r) m) = act_completion b"
    using assms(3) by (simp_all add: worker_body_def load_batch_def run_reset_def)
  moreover have "fst (worker_body (load_pending p r) m) = (case pc_callback p of
       pending_fn f \<Rightarrow> act_injected f
     | pending_cmd (f, True) \<Rightarrow> act_command f \<lparr>msg_conn = pc_conn p, msg_access = pc_access p, msg_remote = pc_remote p,
         msg_reply_tag = hd (pc_data_parts p), msg_data = tl (pc_data_parts p)\<rparr>
     | pending_cmd (f, False) \<Rightarrow> act_command f \<lparr>msg_conn = pc_conn p, msg_access = pc_access p, msg_remote = pc_remote p,
         msg_reply_tag = msg_reply_tag m, msg_data = pc_data_parts p\<rparr>)"
  proof (cases "pc_callback p")
    case (pending_fn f)
    then show ?thesis by (simp add: worker_body_def load_pending_def load_injected_def run_reset_def)
  next
    case (pending_cmd e)
    obtain f q where e: "e = (f, q)" by (cases e)
    with pending_cmd assms(2) show ?thesis
      by (cases q; cases "pc_data_parts p")
        (auto simp: worker_body_def load_pending_def load_command_def run_reset_def command_message_def Let_def)
  qed
  ultimately show ?thesis by blast
qed

definition example_pending :: pending_command where
  "example_pending = \<lparr>pc_cat = ''c'', pc_command = ''c.x'', pc_data_parts = [''tag'', ''arg''], pc_callback = pending_cmd (5, True),
     pc_conn = default_conn, pc_access = default_access, pc_remote = ''r''\<rparr>"

theorem work_runs_as_queued_witness:
  "fst (worker_body (load_pending example_pending (new_run_info CHR ''w'' 0)) message_init)
     = act_command 5 \<lparr>msg_conn = default_conn, msg_access = default_access, msg_remote = ''r'',
         msg_reply_tag = ''tag'', msg_data = [''arg'']\<rparr>"
proof -
  have "pending_ok example_pending" "\<not> (\<exists>f. pc_callback example_pending = pending_cmd (f, True) \<and> pc_data_parts example_pending = [])"
    by (simp_all add: example_pending_def pending_ok_def)
  from work_runs_as_queued [OF this, of 0] show ?thesis by (simp add: example_pending_def)
qed

text \<open>C39: a worker's reply tag outlives its request. \<^verbatim>\<open>worker_thread\<close> sets the reply tag of its \<^verbatim>\<open>Message\<close> for
  requests only, so a plain command that runs on the same thread after a request carries that request's
  tag; \<^verbatim>\<open>DeferredSend::operator()\<close>, which chooses between \<^verbatim>\<open>back\<close> and \<^verbatim>\<open>reply\<close> by whether the tag is empty, then
  sends a reply to another request instead of a command.\<close>

theorem reply_tag_outlives_request:
  assumes "\<not> is_batch_job q" "\<not> is_injected q" "to_run q = run_command (f, True)" "ri_data_parts q = tag # data"
    and "\<not> is_batch_job r" "\<not> is_injected r" "to_run r = run_command (g, False)"
  shows "\<exists>m1 m2. worker_body q m = (act_command f m1, q\<lparr>ri_remote := []\<rparr>, m1)
    \<and> worker_body r m1 = (act_command g m2, r\<lparr>ri_remote := []\<rparr>, m2) \<and> msg_reply_tag m2 = tag"
  using assms by (simp add: worker_body_def command_message_def Let_def)

theorem reply_tag_outlives_request_witness:
  "\<exists>m1 m2. fst (worker_body (load_command ''c'' ''c.x'' default_conn default_access [] [''tag''] (5, True) (new_run_info CHR ''w'' 0)) message_init)
      = act_command 5 m1
    \<and> fst (worker_body (load_command ''c'' ''c.y'' default_conn default_access [] [''arg''] (6, False) (new_run_info CHR ''w'' 0)) m1)
      = act_command 6 m2 \<and> msg_reply_tag m2 = ''tag''"
proof -
  let ?q = "load_command ''c'' ''c.x'' default_conn default_access [] [''tag''] (5, True) (new_run_info CHR ''w'' 0)"
  let ?r = "load_command ''c'' ''c.y'' default_conn default_access [] [''arg''] (6, False) (new_run_info CHR ''w'' 0)"
  have "\<not> is_batch_job ?q" "\<not> is_injected ?q" "to_run ?q = run_command (5, True)" "ri_data_parts ?q = [''tag'']"
    "\<not> is_batch_job ?r" "\<not> is_injected ?r" "to_run ?r = run_command (6, False)"
    by (simp_all add: load_command_def run_reset_def)
  from reply_tag_outlives_request [OF this, of message_init] obtain m1 m2 where
    "worker_body ?q message_init = (act_command 5 m1, ?q\<lparr>ri_remote := []\<rparr>, m1)"
    "worker_body ?r m1 = (act_command 6 m2, ?r\<lparr>ri_remote := []\<rparr>, m2)" "msg_reply_tag m2 = ''tag''"
    by (elim exE conjE)
  then show ?thesis by (intro exI [of _ m1] exI [of _ m2]) simp
qed

end
