(* ===== verification/Net.thy ===== *)
theory Net
  imports Workers
begin

text \<open>
  Connections and peers: \<^verbatim>\<open>oxenmq/connections.cpp\<close>, the service-node sets and \<^verbatim>\<open>proxy_check_auth\<close> of
  \<^verbatim>\<open>oxenmq/auth.cpp\<close>, \<^verbatim>\<open>proxy_to_worker\<close> of \<^verbatim>\<open>oxenmq/worker.cpp\<close>, and \<^verbatim>\<open>proxy_send\<close>, \<^verbatim>\<open>proxy_reply\<close>,
  \<^verbatim>\<open>proxy_handle_builtin\<close> and \<^verbatim>\<open>proxy_bind\<close> of \<^verbatim>\<open>oxenmq/proxy.cpp\<close>. The record \<open>net\<close> extends \<open>pool\<close>; the
  record \<open>env\<close> holds what the proxy gets from outside: the clock, the address lookup of the application and
  the results of libzmq. Messages handed to libzmq are appended to \<open>sent\<close>. Jobs that the proxy thread
  queues with \<^verbatim>\<open>job()\<close> travel through its own control socket: their addresses are in \<open>self_batches\<close>. An
  exception that nothing catches in the proxy thread ends the program: it sets \<open>proxy_died\<close>, and what the
  model does afterwards has no counterpart. Times are in nanoseconds,
  durations that the code holds in milliseconds are in milliseconds.
\<close>

section \<open>Data\<close>

text \<open>
  A \<^verbatim>\<open>zmq::socket_t\<close>: a listening router, with the index that its ZAP domain carries (\<open>None\<close> for the
  internal listener) and whether it uses curve; a dealer, with its address, the server key and the routing
  identity that it sets; or a default-constructed one without a handle.
\<close>

datatype sock = router_sock "nat option" bool | dealer_sock string string "string option" | null_sock

record peer_info =
  pi_pubkey :: string
  pi_service_node :: bool
  pi_auth_level :: auth_level
  pi_conn_id :: int
  pi_route :: string
  pi_last_activity :: int
  pi_idle_expiry :: int

definition new_peer :: peer_info where
  "new_peer = \<lparr>pi_pubkey = [], pi_service_node = False, pi_auth_level = auth_none, pi_conn_id = 0, pi_route = [],
     pi_last_activity = 0, pi_idle_expiry = 0\<rparr>"

definition pi_outgoing :: "peer_info \<Rightarrow> bool" where
  "pi_outgoing p \<longleftrightarrow> pi_route p = []"

record pending_connect =
  pn_conn_id :: int
  pn_expiry :: int
  pn_on_connect :: nat
  pn_on_failure :: nat

type_synonym peer_map = "(connection_id \<times> peer_info) list"

record net = pool +
  connections :: "(int \<times> sock) list"
  peers :: peer_map
  outgoing_sn_conns :: "(int \<times> connection_id) list"
  next_conn_id :: int
  connections_updated :: bool
  pending_connects :: "pending_connect list"
  pending_requests :: "(string \<times> int \<times> nat) list"
  active_service_nodes :: "string list"
  local_service_node :: bool
  omq_pubkey :: string
  binds :: "bind_data list"
  inproc_listener_connid :: int
  EPHEMERAL_ROUTING_ID :: bool
  sent :: "(int \<times> string list) list"
  self_batches :: "nat list"
  proxy_died :: bool

text \<open>The result of sending one message: sent, the queue is full, or an error number of libzmq.\<close>

datatype send_result = send_ok | send_blocked | send_error int

definition EHOSTUNREACH :: int where
  "EHOSTUNREACH = 113"

definition ENOTSOCK :: int where
  "ENOTSOCK = 88"

record env =
  now :: int
  sn_lookup :: "string \<Rightarrow> string"
  zmq_connect :: "string \<Rightarrow> string \<Rightarrow> bool \<Rightarrow> string option"
  zmq_send :: "nat \<Rightarrow> int \<Rightarrow> string list \<Rightarrow> send_result"

definition ms :: "int \<Rightarrow> int" where
  "ms n = 1000000 * n"


section \<open>Helpers\<close>

text \<open>\<^verbatim>\<open>connections[id]\<close> inserts a default-constructed socket if there is none.\<close>

definition connections_index :: "int \<Rightarrow> 'a net_scheme \<Rightarrow> 'a net_scheme" where
  "connections_index sid s =
     (if map_of (connections s) sid = None then s\<lparr>connections := connections s @ [(sid, null_sock)]\<rparr> else s)"

text \<open>
  \<^verbatim>\<open>send_message_parts\<close> to a socket of \<^verbatim>\<open>connections\<close>; \<open>n\<close> numbers the attempts of one operation, which may
  have different results.
\<close>

definition send_message_parts :: "env \<Rightarrow> nat \<Rightarrow> int \<Rightarrow> string list \<Rightarrow> 'a net_scheme \<Rightarrow> send_result \<times> 'a net_scheme" where
  "send_message_parts e n sid parts s =
     (case map_of (connections s) sid of
        Some null_sock \<Rightarrow> (send_error ENOTSOCK, s)
      | None \<Rightarrow> (send_error ENOTSOCK, s)
      | Some _ \<Rightarrow>
          (case zmq_send e n sid parts of
             send_ok \<Rightarrow> (send_ok, s\<lparr>sent := sent s @ [(sid, parts)]\<rparr>)
           | r \<Rightarrow> (r, s)))"

text \<open>
  In \<^verbatim>\<open>send_routed_message\<close> and \<^verbatim>\<open>send_direct_message\<close> the string \<open>data\<close> has been moved into its frame when the
  number of frames is decided, so the moved-from string \<open>[]\<close> is what the last test reads.
\<close>

definition take_string :: "string \<Rightarrow> string \<times> string" where
  "take_string s = (s, [])"

definition send_routed_message :: "string \<Rightarrow> string \<Rightarrow> string \<Rightarrow> string list" where
  "send_routed_message route msg data =
     (let (frame, data) = (if data \<noteq> [] then take_string data else ([], data));
          msgs = [route, msg, frame]
      in if data = [] then butlast msgs else msgs)"

definition send_direct_message :: "string \<Rightarrow> string \<Rightarrow> string list" where
  "send_direct_message msg data =
     (let (frame, data) = (if data \<noteq> [] then take_string data else ([], data));
          msgs = [msg, frame]
      in if data = [] then butlast msgs else msgs)"

definition build_send_parts :: "string list \<Rightarrow> string \<Rightarrow> string list" where
  "build_send_parts parts route = (if route \<noteq> [] then [route] else []) @ parts"

text \<open>\<^verbatim>\<open>job(f)\<close> called in the proxy thread.\<close>

definition proxy_job :: "task \<Rightarrow> 'a net_scheme \<Rightarrow> 'a net_scheme" where
  "proxy_job f s = (let (ptr, s) = alloc (JobObj (new_job_in f 0)) s in s\<lparr>self_batches := self_batches s @ [ptr]\<rparr>)"

text \<open>Update of the first element that satisfies a predicate, and its removal.\<close>

fun upd_first :: "('a \<Rightarrow> bool) \<Rightarrow> ('a \<Rightarrow> 'a) \<Rightarrow> 'a list \<Rightarrow> 'a list" where
  "upd_first P f [] = []"
| "upd_first P f (x # xs) = (if P x then f x # xs else x # upd_first P f xs)"

fun erase_first :: "('a \<Rightarrow> bool) \<Rightarrow> 'a list \<Rightarrow> 'a list" where
  "erase_first P [] = []"
| "erase_first P (x # xs) = (if P x then xs else x # erase_first P xs)"

definition peer_activity :: "env \<Rightarrow> peer_info \<Rightarrow> peer_info" where
  "peer_activity e p = p\<lparr>pi_last_activity := now e\<rparr>"


section \<open>Connections\<close>

text \<open>
  The sockets that \<^verbatim>\<open>setup_outgoing_socket\<close> and \<^verbatim>\<open>setup_incoming_socket\<close> prepare: the options that the rest
  of the program depends on.
\<close>

definition setup_outgoing_socket :: "string \<Rightarrow> string \<Rightarrow> bool \<Rightarrow> 'a net_scheme \<Rightarrow> sock" where
  "setup_outgoing_socket addr remote_pubkey ephemeral s =
     dealer_sock addr remote_pubkey (if \<not> ephemeral then Some (CHR ''L'' # omq_pubkey s) else None)"

definition setup_incoming_socket :: "bool \<Rightarrow> nat \<Rightarrow> sock" where
  "setup_incoming_socket curve bind_index = router_sock (Some bind_index) curve"

text \<open>
  \<^verbatim>\<open>proxy_close_connection\<close>. Setting the linger option of a socket without a handle throws.
\<close>

definition proxy_close_connection :: "int \<Rightarrow> 'a net_scheme \<Rightarrow> 'a net_scheme" where
  "proxy_close_connection sid s =
     (case map_of (connections s) sid of
        None \<Rightarrow> s
      | Some null_sock \<Rightarrow> s\<lparr>proxy_died := True\<rparr>
      | Some _ \<Rightarrow> s\<lparr>connections := filter (\<lambda>c. fst c \<noteq> sid) (connections s), connections_updated := True,
          outgoing_sn_conns := filter (\<lambda>c. fst c \<noteq> sid) (outgoing_sn_conns s)\<rparr>)"

definition sn_peer_ok :: "connection_id \<Rightarrow> bool \<Rightarrow> bool \<Rightarrow> connection_id \<times> peer_info \<Rightarrow> bool" where
  "sn_peer_ok c incoming_only outgoing_only kp \<longleftrightarrow> conn_eq (fst kp) c
     \<and> \<not> (incoming_only \<and> pi_route (snd kp) = []) \<and> \<not> (outgoing_only \<and> pi_route (snd kp) \<noteq> [])"

text \<open>
  \<^verbatim>\<open>proxy_connect_sn\<close> returns the identifier of the socket to use and the route, or \<open>None\<close> for a null pointer.
\<close>

definition proxy_connect_sn :: "env \<Rightarrow> string \<Rightarrow> string \<Rightarrow> bool \<Rightarrow> bool \<Rightarrow> bool \<Rightarrow> bool \<Rightarrow> int \<Rightarrow> 'a net_scheme \<Rightarrow>
    (int \<times> string) option \<times> 'a net_scheme" where
  "proxy_connect_sn e remote connect_hint optional incoming_only outgoing_only ephemeral keep_alive s =
     (case conn_of_pubkey remote of
        Inl x \<Rightarrow> (None, s\<lparr>proxy_died := True\<rparr>)
      | Inr remote_cid \<Rightarrow>
          (case List.find (sn_peer_ok remote_cid incoming_only outgoing_only) (peers s) of
             Some (k, peer) \<Rightarrow>
               (let s = (if pi_outgoing peer then
                           s\<lparr>peers := upd_first (sn_peer_ok remote_cid incoming_only outgoing_only)
                              (\<lambda>(k, p). (k, peer_activity e
                                 (if pi_idle_expiry p < keep_alive then p\<lparr>pi_idle_expiry := keep_alive\<rparr> else p))) (peers s)\<rparr>
                         else s)
                in (Some (pi_conn_id peer, pi_route peer), connections_index (pi_conn_id peer) s))
           | None \<Rightarrow>
               if optional \<or> incoming_only then (None, s)
               else
                 (let addr = (if connect_hint = [] then sn_lookup e remote else connect_hint) in
                  if addr = [] then (None, s)
                  else
                    (case zmq_connect e addr remote ephemeral of
                       Some err \<Rightarrow> (None, s)
                     | None \<Rightarrow>
                         (let sid = next_conn_id s;
                              p = new_peer\<lparr>pi_service_node := True, pi_pubkey := remote, pi_conn_id := sid,
                                    pi_idle_expiry := keep_alive, pi_last_activity := now e\<rparr>
                          in (Some (sid, []),
                              s\<lparr>peers := mm_emplace conn_eq remote_cid p (peers s), next_conn_id := sid + 1, connections_updated := True,
                                outgoing_sn_conns := outgoing_sn_conns s @ [(sid, remote_cid)],
                                connections := connections s @ [(sid, setup_outgoing_socket addr remote ephemeral s)]\<rparr>))))))"

text \<open>The loop of \<^verbatim>\<open>proxy_expire_idle_peers\<close>: the peers that stay, and the new state.\<close>

fun expire_peers :: "env \<Rightarrow> peer_map \<Rightarrow> 'a net_scheme \<Rightarrow> peer_map \<times> 'a net_scheme" where
  "expire_peers e [] s = ([], s)"
| "expire_peers e ((k, p) # ps) s =
     (if pi_outgoing p \<and> ms (pi_idle_expiry p) < now e - pi_last_activity p
      then expire_peers e ps (proxy_close_connection (pi_conn_id p) s)
      else (let (kept, s) = expire_peers e ps s in ((k, p) # kept, s)))"

definition proxy_expire_idle_peers :: "env \<Rightarrow> 'a net_scheme \<Rightarrow> 'a net_scheme" where
  "proxy_expire_idle_peers e s = (let (kept, s) = expire_peers e (peers s) s in s\<lparr>peers := kept\<rparr>)"

fun expire_connects :: "env \<Rightarrow> pending_connect list \<Rightarrow> 'a net_scheme \<Rightarrow> pending_connect list \<times> 'a net_scheme" where
  "expire_connects e [] s = ([], s)"
| "expire_connects e (pc # pcs) s =
     (if pn_expiry pc < now e then
        (let c = conn_of_id (pn_conn_id pc);
             s = proxy_job (connect_failure (pn_on_failure pc) c ''connection attempt timed out'') s;
             s = proxy_close_connection (pn_conn_id pc) s;
             s = s\<lparr>peers := mm_erase_key conn_eq c (peers s)\<rparr>
         in expire_connects e pcs s)
      else (let (kept, s) = expire_connects e pcs s in (pc # kept, s)))"

fun expire_requests :: "env \<Rightarrow> (string \<times> int \<times> nat) list \<Rightarrow> 'a net_scheme \<Rightarrow> (string \<times> int \<times> nat) list \<times> 'a net_scheme" where
  "expire_requests e [] s = ([], s)"
| "expire_requests e ((tag, expiry, cb) # rs) s =
     (if expiry < now e then expire_requests e rs (proxy_job (reply_task cb False [''TIMEOUT'']) s)
      else (let (kept, s) = expire_requests e rs s in ((tag, expiry, cb) # kept, s)))"

definition proxy_conn_cleanup :: "env \<Rightarrow> 'a net_scheme \<Rightarrow> 'a net_scheme" where
  "proxy_conn_cleanup e s =
     (let s = proxy_expire_idle_peers e s;
          (pcs, s) = expire_connects e (pending_connects s) s;
          s = s\<lparr>pending_connects := pcs\<rparr>;
          (rs, s) = expire_requests e (pending_requests s) s
      in s\<lparr>pending_requests := rs\<rparr>)"

text \<open>\<^verbatim>\<open>proxy_connect_remote\<close> with the fields of its message as arguments.\<close>

definition proxy_connect_remote :: "env \<Rightarrow> int \<Rightarrow> string \<Rightarrow> string \<Rightarrow> auth_level \<Rightarrow> nat \<Rightarrow> nat \<Rightarrow> int \<Rightarrow> bool \<Rightarrow>
    'a net_scheme \<Rightarrow> 'a net_scheme" where
  "proxy_connect_remote e conn_id remote remote_pubkey auth_lvl on_connect on_failure timeout ephemeral s =
     (case zmq_connect e remote remote_pubkey ephemeral of
        Some err \<Rightarrow> proxy_schedule_reply_job (connect_failure on_failure (conn_of_id conn_id) (''connect() failed: '' @ err)) s
      | None \<Rightarrow>
          (let s = (if map_of (connections s) conn_id = None
                    then s\<lparr>connections := connections s @ [(conn_id, setup_outgoing_socket remote remote_pubkey ephemeral s)]\<rparr> else s);
               s = s\<lparr>connections_updated := True\<rparr>;
               (r, s) = send_message_parts e 0 conn_id (send_direct_message ''HI'' []) s;
               s = (case r of send_error err \<Rightarrow> s\<lparr>proxy_died := True\<rparr> | _ \<Rightarrow> s);
               s = s\<lparr>pending_connects := pending_connects s @
                      [\<lparr>pn_conn_id = conn_id, pn_expiry = now e + ms timeout, pn_on_connect = on_connect, pn_on_failure = on_failure\<rparr>]\<rparr>
           in s\<lparr>peers := mm_emplace conn_eq (conn_of conn_id remote_pubkey [])
                  (new_peer\<lparr>pi_pubkey := remote_pubkey, pi_service_node := False, pi_auth_level := auth_lvl, pi_conn_id := conn_id,
                     pi_idle_expiry := 24 * 10 * 365 * 3600000, pi_last_activity := now e\<rparr>) (peers s)\<rparr>))"

definition proxy_disconnect :: "connection_id \<Rightarrow> 'a net_scheme \<Rightarrow> 'a net_scheme" where
  "proxy_disconnect conn s =
     (let P = (\<lambda>kp. conn_eq (fst kp) conn \<and> pi_outgoing (snd kp)) in
      case List.find P (peers s) of
        None \<Rightarrow> s
      | Some (k, p) \<Rightarrow>
          (let s = proxy_close_connection (pi_conn_id p) s in s\<lparr>peers := erase_first P (peers s)\<rparr>))"

text \<open>\<^verbatim>\<open>proxy_bind\<close>: whether it succeeded, the data with its connection, the new state, and the callback's call.\<close>

definition proxy_bind :: "(string \<Rightarrow> bool) \<Rightarrow> nat \<Rightarrow> bind_data \<Rightarrow> 'a net_scheme \<Rightarrow>
    bool \<times> bind_data \<times> (nat \<times> bool) option \<times> 'a net_scheme" where
  "proxy_bind zmq_bind bind_index b s =
     (let good = zmq_bind (bd_address b);
          call = map_option (\<lambda>f. (f, good)) (bd_on_bind b);
          b = b\<lparr>bd_on_bind := None\<rparr>
      in if \<not> good then (False, b, call, s)
         else (True, b\<lparr>bd_conn_id := next_conn_id s\<rparr>, call,
               s\<lparr>next_conn_id := next_conn_id s + 1, connections := connections s @ [(next_conn_id s, setup_incoming_socket (bd_curve b) bind_index)],
                 connections_updated := True\<rparr>))"


section \<open>Service nodes\<close>

text \<open>
  A \<^verbatim>\<open>pubkey_set\<close> is a list without duplicates, in the order in which the loops visit it.
\<close>

definition remove_sn :: "string \<Rightarrow> 'a net_scheme \<Rightarrow> 'a net_scheme" where
  "remove_sn pk s =
     (let c = conn_of SN_ID pk [];
          s = s\<lparr>active_service_nodes := filter (\<lambda>k. k \<noteq> pk) (active_service_nodes s)\<rparr>
      in fold (\<lambda>(k, p) s.
           let s = s\<lparr>peers := erase_first (\<lambda>kp. conn_eq (fst kp) c) (peers s)\<rparr>
           in if pi_outgoing p then proxy_close_connection (pi_conn_id p) s else s)
         (mm_equal_range conn_eq c (peers s)) s)"

definition set_insert :: "'k \<Rightarrow> 'k list \<Rightarrow> 'k list" where
  "set_insert x xs = (if x \<in> set xs then xs else xs @ [x])"

definition proxy_update_active_sns_clean :: "string list \<Rightarrow> string list \<Rightarrow> 'a net_scheme \<Rightarrow> 'a net_scheme" where
  "proxy_update_active_sns_clean added removed s =
     (let s = fold remove_sn removed s
      in s\<lparr>active_service_nodes := fold set_insert added (active_service_nodes s)\<rparr>)"

definition proxy_update_active_sns :: "string list \<Rightarrow> string list \<Rightarrow> 'a net_scheme \<Rightarrow> 'a net_scheme" where
  "proxy_update_active_sns added removed s =
     (let removed = filter (\<lambda>pk. length pk = 32 \<and> pk \<in> set (active_service_nodes s) \<and> pk \<notin> set added) removed;
          added = filter (\<lambda>pk. length pk = 32 \<and> pk \<notin> set (active_service_nodes s)) added
      in proxy_update_active_sns_clean added removed s)"

text \<open>
  The loop of \<^verbatim>\<open>proxy_set_active_sns\<close> that collects what to remove; it stops when the sizes say that there is
  no more (the arithmetic is on \<^verbatim>\<open>size_t\<close>).
\<close>

fun sns_removed :: "nat \<Rightarrow> nat \<Rightarrow> string list \<Rightarrow> string list \<Rightarrow> string list \<Rightarrow> string list" where
  "sns_removed n_active n_added pubkeys [] removed = removed"
| "sns_removed n_active n_added pubkeys (pk # pks) removed =
     (let removed = (if pk \<notin> set pubkeys then set_insert pk removed else removed) in
      if (int n_active + int n_added - int (length removed)) mod 2 ^ 64 = int (length pubkeys) then removed
      else sns_removed n_active n_added pubkeys pks removed)"

definition proxy_set_active_sns :: "string list \<Rightarrow> 'a net_scheme \<Rightarrow> 'a net_scheme" where
  "proxy_set_active_sns pubkeys s =
     (let pubkeys = filter (\<lambda>pk. length pk = 32) pubkeys;
          added = filter (\<lambda>pk. pk \<notin> set (active_service_nodes s)) pubkeys
      in if added = [] \<and> length (active_service_nodes s) = length pubkeys then s
         else proxy_update_active_sns_clean added
                (sns_removed (length (active_service_nodes s)) (length added) pubkeys (active_service_nodes s) []) s)"


section \<open>Incoming messages\<close>

text \<open>
  A received message: its frames, and the properties that libzmq attaches to them.
\<close>

record wire_msg =
  wm_parts :: "string list"
  wm_props :: msg_props

definition get_peer_address :: "msg_props \<Rightarrow> string" where
  "get_peer_address props = (case props ''Peer-Address'' of Some a \<Rightarrow> a | None \<Rightarrow> ''(unknown)'')"

text \<open>The answer of \<^verbatim>\<open>proxy_check_auth\<close>: \<open>None\<close> when the command is allowed.\<close>

definition auth_failure :: "peer_info \<Rightarrow> (string \<times> command_entry) option \<Rightarrow> string list \<Rightarrow> 'a net_scheme \<Rightarrow> string option" where
  "auth_failure peer cat_call data s =
     (case cat_call of
        None \<Rightarrow> Some ''UNKNOWNCOMMAND''
      | Some (cat, entry) \<Rightarrow>
          (let acc = cat_access (get_category cat s) in
           if pi_auth_level peer < auth acc then Some ''FORBIDDEN''
           else if local_sn acc \<and> \<not> local_service_node s then Some ''NOT_A_SERVICE_NODE''
           else if remote_sn acc \<and> \<not> pi_service_node peer then Some ''FORBIDDEN_SN''
           else if snd entry \<and> data = [] then Some ''NO_REPLY_TAG''
           else None))"

definition proxy_check_auth :: "env \<Rightarrow> int \<Rightarrow> bool \<Rightarrow> peer_info \<Rightarrow> string \<Rightarrow> (string \<times> command_entry) option \<Rightarrow>
    string list \<Rightarrow> 'a net_scheme \<Rightarrow> bool \<times> 'a net_scheme" where
  "proxy_check_auth e conn_id outgoing peer cmd cat_call data s =
     (case auth_failure peer cat_call data s of
        None \<Rightarrow> (True, s)
      | Some reply \<Rightarrow>
          (let msgs = (if outgoing then [] else [pi_route peer]) @ [reply] @
                 (if (\<exists>c. cat_call = Some c \<and> snd (snd c)) \<and> data \<noteq> [] then [''REPLY'', hd data] else [cmd])
           in (False, snd (send_message_parts e 0 conn_id msgs s))))"

text \<open>
  The sender of a message: the index of its record in \<open>peers\<close>, if it has one, its data, and the route that
  \<^verbatim>\<open>tmp_peer\<close> still holds. The record of a new service node takes the route with it.
\<close>

definition find_index :: "('a \<Rightarrow> bool) \<Rightarrow> 'a list \<Rightarrow> nat option" where
  "find_index P xs = (case filter (\<lambda>i. P (xs ! i)) [0..<length xs] of [] \<Rightarrow> None | i # _ \<Rightarrow> Some i)"

definition upd_peer :: "nat \<Rightarrow> (peer_info \<Rightarrow> peer_info) \<Rightarrow> 'a net_scheme \<Rightarrow> 'a net_scheme" where
  "upd_peer i f s = s\<lparr>peers := (peers s)[i := (fst (peers s ! i), f (snd (peers s ! i)))]\<rparr>"

definition outgoing_sender :: "int \<Rightarrow> 'a net_scheme \<Rightarrow> (nat \<times> 'a net_scheme) option" where
  "outgoing_sender conn_id s =
     (let key = (case map_of (outgoing_sn_conns s) conn_id of Some c \<Rightarrow> c | None \<Rightarrow> conn_of_id conn_id) in
      map_option (\<lambda>i. (i, upd_peer i (\<lambda>p. if pi_pubkey p \<noteq> []
             then p\<lparr>pi_service_node := (pi_pubkey p \<in> set (active_service_nodes s))\<rparr> else p) s))
        (find_index (\<lambda>kp. conn_eq (fst kp) key) (peers s)))"

definition incoming_tmp :: "oxenc \<Rightarrow> int \<Rightarrow> wire_msg \<Rightarrow> 'a net_scheme \<Rightarrow> peer_info" where
  "incoming_tmp oc conn_id m s =
     (let tmp = new_peer\<lparr>pi_conn_id := conn_id, pi_route := hd (wm_parts m)\<rparr> in
      if conn_id = inproc_listener_connid s then
        tmp\<lparr>pi_auth_level := auth_admin, pi_pubkey := omq_pubkey s, pi_service_node := (omq_pubkey s \<in> set (active_service_nodes s))\<rparr>
      else
        (let (pk, level) = extract_metadata oc (wm_props m)
         in tmp\<lparr>pi_pubkey := pk, pi_auth_level := level,
              pi_service_node := (length pk = 32 \<and> pk \<in> set (active_service_nodes s))\<rparr>))"

definition incoming_sender :: "oxenc \<Rightarrow> int \<Rightarrow> wire_msg \<Rightarrow> 'a net_scheme \<Rightarrow> peer_info \<times> string \<times> 'a net_scheme" where
  "incoming_sender oc conn_id m s =
     (let tmp = incoming_tmp oc conn_id m s in
      if pi_service_node tmp then
        (case find_index (\<lambda>kp. conn_eq (fst kp) (conn_of SN_ID (pi_pubkey tmp) []) \<and> pi_conn_id (snd kp) = conn_id
                 \<and> pi_route (snd kp) = pi_route tmp) (peers s) of
           Some i \<Rightarrow>
             (let s = upd_peer i (\<lambda>p. p\<lparr>pi_auth_level := pi_auth_level tmp, pi_service_node := True\<rparr>) s
              in (snd (peers s ! i), pi_route tmp, s))
         | None \<Rightarrow> (tmp, [], s\<lparr>peers := mm_emplace conn_eq (conn_of SN_ID (pi_pubkey tmp) []) tmp (peers s)\<rparr>))
      else (tmp, pi_route tmp, s))"

text \<open>The part of \<^verbatim>\<open>proxy_to_worker\<close> after the sender is known.\<close>

definition check_and_dispatch :: "env \<Rightarrow> int \<Rightarrow> bool \<Rightarrow> peer_info \<Rightarrow> string \<Rightarrow> string list \<Rightarrow> string \<Rightarrow>
    'a net_scheme \<Rightarrow> bool \<times> 'a net_scheme" where
  "check_and_dispatch e conn_id outgoing peer route parts remote s =
     (let (command, cat_call) = get_command s (hd parts);
          data_parts = tl parts;
          (allowed, s) = proxy_check_auth e conn_id outgoing peer (hd parts) cat_call data_parts s
      in case cat_call of
           Some (cat, entry) \<Rightarrow>
             if allowed then
               dispatch_command cat command data_parts entry
                 (conn_of (if pi_service_node peer then SN_ID else conn_id) (pi_pubkey peer) route)
                 \<lparr>auth = pi_auth_level peer, remote_sn = pi_service_node peer, local_sn = local_service_node s\<rparr>
                 remote s
             else (False, s)
         | None \<Rightarrow> (False, s))"

definition proxy_to_worker :: "oxenc \<Rightarrow> env \<Rightarrow> int \<Rightarrow> wire_msg \<Rightarrow> 'a net_scheme \<Rightarrow> 'a net_scheme" where
  "proxy_to_worker oc e conn_id m s =
     (case map_of (connections s) conn_id of
        Some (dealer_sock a k r) \<Rightarrow>
          (case outgoing_sender conn_id s of
             None \<Rightarrow> s
           | Some (i, s) \<Rightarrow>
               (let (ran, s) = check_and_dispatch e conn_id True (snd (peers s ! i)) [] (wm_parts m) (get_peer_address (wm_props m)) s
                in if ran then upd_peer i (peer_activity e) s else s))
      | _ \<Rightarrow>
          (let (peer, route, s) = incoming_sender oc conn_id m s
           in snd (check_and_dispatch e conn_id False peer route (tl (wm_parts m)) (get_peer_address (wm_props m)) s)))"


section \<open>Built-in commands\<close>

definition is_error_response :: "string \<Rightarrow> bool" where
  "is_error_response cmd \<longleftrightarrow> cmd = ''FORBIDDEN'' \<or> cmd = ''FORBIDDEN_SN'' \<or> cmd = ''NOT_A_SERVICE_NODE''
     \<or> cmd = ''UNKNOWNCOMMAND'' \<or> cmd = ''NO_REPLY_TAG''"

text \<open>A reply to a pending request: its callback is scheduled and the request is no longer pending.\<close>

definition finish_request :: "string \<Rightarrow> bool \<Rightarrow> string list \<Rightarrow> 'a net_scheme \<Rightarrow> 'a net_scheme" where
  "finish_request tag success data s =
     (case map_of (pending_requests s) tag of
        None \<Rightarrow> s
      | Some (expiry, cb) \<Rightarrow>
          (let s = proxy_schedule_reply_job (reply_task cb success data) s
           in s\<lparr>pending_requests := erase_first (\<lambda>r. fst r = tag) (pending_requests s)\<rparr>))"

definition handle_hello :: "int \<Rightarrow> 'a net_scheme \<Rightarrow> 'a net_scheme" where
  "handle_hello conn_id s =
     (case List.find (\<lambda>pc. pn_conn_id pc = conn_id) (pending_connects s) of
        None \<Rightarrow> s
      | Some pc \<Rightarrow>
          (case mm_find conn_eq (conn_of_id (pn_conn_id pc)) (peers s) of
             None \<Rightarrow> s
           | Some (conn, p) \<Rightarrow>
               (let s = proxy_schedule_reply_job (connect_success (pn_on_connect pc) conn) s
                in s\<lparr>pending_connects := erase_first (\<lambda>pc. pn_conn_id pc = conn_id) (pending_connects s)\<rparr>)))"

definition is_router :: "sock \<Rightarrow> bool" where
  "is_router k = (case k of router_sock d c \<Rightarrow> True | _ \<Rightarrow> False)"

text \<open>\<^verbatim>\<open>proxy_handle_builtin\<close>: whether the message was recognised, and the new state.\<close>

definition proxy_handle_builtin :: "env \<Rightarrow> int \<Rightarrow> string list \<Rightarrow> 'a net_scheme \<Rightarrow> bool \<times> 'a net_scheme" where
  "proxy_handle_builtin e conn_id parts s =
     (let incoming = (case map_of (connections s) conn_id of Some k \<Rightarrow> is_router k | None \<Rightarrow> False);
          body = (if incoming then tl parts else parts)
      in if parts = [] \<or> body = [] then (True, s)
         else
           (let cmd = hd body in
            if cmd = ''REPLY'' then
              (True, if length body \<le> 1 then s else finish_request (body ! 1) True (drop 2 body) s)
            else if cmd = ''HI'' then
              (True, if \<not> incoming then s
                     else snd (send_message_parts e 0 conn_id (send_routed_message (hd parts) ''HELLO'' []) s))
            else if cmd = ''HELLO'' then (True, if incoming then s else handle_hello conn_id s)
            else if cmd = ''BYE'' then (True, if incoming then s else proxy_close_connection conn_id s)
            else if is_error_response cmd then
              (True, if length body = 1 \<and> cmd = ''UNKNOWNCOMMAND'' then s
                     else if length body = 3 \<and> body ! 1 = ''REPLY'' then finish_request (body ! 2) False [cmd] s
                     else s)
            else (False, s)))"


section \<open>Sending\<close>

text \<open>The fields of a \<^verbatim>\<open>SEND\<close> message, as \<^verbatim>\<open>proxy_send\<close> reads them; callbacks are opaque numbers.\<close>

record send_msg =
  sm_conn :: connection_id
  sm_hint :: string
  sm_incoming :: bool
  sm_keep_alive :: int
  sm_optional :: bool
  sm_outgoing :: bool
  sm_request :: "(nat \<times> string \<times> int) option"
  sm_send :: "string list"
  sm_fail :: "nat option"
  sm_full :: "nat option"

text \<open>Which socket to use, and the route; \<open>None\<close> when the loop is left by one of its \<^verbatim>\<open>break\<close>s.\<close>

definition choose_socket :: "env \<Rightarrow> send_msg \<Rightarrow> 'a net_scheme \<Rightarrow> (int \<times> string) option \<times> 'a net_scheme" where
  "choose_socket e m s =
     (let c = sm_conn m in
      if conn_sn c then
        proxy_connect_sn e (cid_pk c) (sm_hint m) (sm_optional m) (sm_incoming m) (sm_outgoing m)
          (EPHEMERAL_ROUTING_ID s) (sm_keep_alive m) s
      else if cid_route c \<noteq> [] then
        (case map_of (connections s) (cid c) of None \<Rightarrow> (None, s) | Some k \<Rightarrow> (Some (cid c, cid_route c), s))
      else
        (case mm_find conn_eq c (peers s) of
           None \<Rightarrow> (None, s)
         | Some (k, p) \<Rightarrow>
             (case map_of (connections s) (pi_conn_id p) of None \<Rightarrow> (None, s) | Some k \<Rightarrow> (Some (pi_conn_id p, []), s))))"

text \<open>
  The loop that looks for the broken incoming connection in the range of the peer: the iterator is never
  advanced. \<open>Some True\<close> when it leaves with an element to erase, \<open>Some False\<close> when the range is empty,
  \<open>None\<close> when it does not end.
\<close>

partial_function (option) find_route :: "string \<Rightarrow> peer_map \<Rightarrow> bool option" where
  "find_route route rng =
     (if rng = [] then Some False
      else if pi_route (snd (hd rng)) = route then Some True
      else find_route route rng)"

text \<open>The outcome of one iteration of the sending loop.\<close>

datatype 'a attempt = attempt_retry 'a | attempt_done bool "nat option" 'a

definition give_up :: "send_msg \<Rightarrow> int \<Rightarrow> 'a net_scheme \<Rightarrow> 'a net_scheme attempt" where
  "give_up m err s =
     attempt_done False None (case sm_fail m of Some cb \<Rightarrow> proxy_job (send_failure cb (Some err)) s | None \<Rightarrow> s)"

definition send_attempt :: "env \<Rightarrow> send_msg \<Rightarrow> nat \<Rightarrow> 'a net_scheme \<Rightarrow> 'a net_scheme attempt option" where
  "send_attempt e m n s =
     (case choose_socket e m s of
        (None, s) \<Rightarrow> Some (attempt_done False (sm_fail m) s)
      | (Some (sock, route), s) \<Rightarrow>
          (case send_message_parts e n sock (build_send_parts (sm_send m) route) s of
             (send_ok, s) \<Rightarrow> Some (attempt_done True (sm_fail m) s)
           | (send_blocked, s) \<Rightarrow> Some (attempt_done False (sm_fail m) s)
           | (send_error err, s) \<Rightarrow>
               if err = EHOSTUNREACH \<and> route \<noteq> [] then
                 (if conn_sn (sm_conn m) then
                    Option.bind (find_route route (mm_equal_range conn_eq (sm_conn m) (peers s))) (\<lambda>removed.
                      if removed then
                        Some (attempt_retry (s\<lparr>peers := erase_first (\<lambda>kp. conn_eq (fst kp) (sm_conn m)) (peers s)\<rparr>))
                      else Some (give_up m err s))
                  else
                    Some (give_up m err (s\<lparr>peers := erase_first (\<lambda>kp. conn_eq (fst kp) (sm_conn m)) (peers s)\<rparr>)))
               else Some (give_up m err s)))"

partial_function (option) send_loop :: "env \<Rightarrow> send_msg \<Rightarrow> nat \<Rightarrow> 'a net_scheme \<Rightarrow> (bool \<times> nat option \<times> 'a net_scheme) option" where
  "send_loop e m n s =
     Option.bind (send_attempt e m n s) (\<lambda>r.
       case r of
         attempt_retry s \<Rightarrow> send_loop e m (Suc n) s
       | attempt_done ok nosend s \<Rightarrow> Some (ok, nosend, s))"

definition after_send :: "env \<Rightarrow> send_msg \<Rightarrow> bool \<Rightarrow> nat option \<Rightarrow> 'a net_scheme \<Rightarrow> 'a net_scheme" where
  "after_send e m ok nosend s =
     (let s = (case sm_request m of
                 None \<Rightarrow> s
               | Some (cb, tag, timeout) \<Rightarrow>
                   if ok then
                     (if map_of (pending_requests s) tag = None
                      then s\<lparr>pending_requests := pending_requests s @ [(tag, now e + ms timeout, cb)]\<rparr> else s)
                   else proxy_job (reply_task cb False [''TIMEOUT'']) s)
      in if ok then s
         else (case nosend of
                 Some cb \<Rightarrow> proxy_job (send_failure cb None) s
               | None \<Rightarrow> (case sm_full m of Some cb \<Rightarrow> proxy_job (queue_full cb) s | None \<Rightarrow> s)))"

definition proxy_send :: "env \<Rightarrow> send_msg \<Rightarrow> 'a net_scheme \<Rightarrow> 'a net_scheme option" where
  "proxy_send e m s = map_option (\<lambda>(ok, nosend, s). after_send e m ok nosend s) (send_loop e m 0 s)"


section \<open>Replying\<close>

text \<open>
  The loop of \<^verbatim>\<open>proxy_reply\<close>: \<open>i\<close> is the position of the iterator and \<open>stop\<close> that of the end of the range, in a
  container where equal keys are adjacent. The loop ends at \<open>stop\<close>, which an iterator that has passed it
  never meets. \<open>None\<close> when an iterator at or after the end of the container is dereferenced or advanced.
\<close>

definition remove_at :: "nat \<Rightarrow> 'a list \<Rightarrow> 'a list" where
  "remove_at i xs = take i xs @ drop (Suc i) xs"

function reply_loop :: "env \<Rightarrow> string list \<Rightarrow> nat \<Rightarrow> nat \<Rightarrow> nat \<Rightarrow> 'a net_scheme \<Rightarrow> 'a net_scheme option" where
  "reply_loop e parts n i stop s =
     (if i = stop then Some s
      else if length (peers s) \<le> i then None
      else
        (let p = snd (peers s ! i) in
         case send_message_parts e n (pi_conn_id p) (build_send_parts parts (pi_route p)) (connections_index (pi_conn_id p) s) of
           (send_error err, s) \<Rightarrow>
             if err = EHOSTUNREACH then
               (let s = (if pi_outgoing p then proxy_close_connection (pi_conn_id p) s else s);
                    s = s\<lparr>peers := remove_at i (peers s)\<rparr>;
                    stop = (if i < stop then stop - 1 else stop)
                in if pi_outgoing p then
                     (if i = length (peers s) then None else reply_loop e parts (Suc n) (Suc i) stop s)
                   else reply_loop e parts (Suc n) i stop s)
             else reply_loop e parts (Suc n) (Suc i) stop s
         | (r, s) \<Rightarrow> Some s))"
  by pat_completeness auto

lemma peers_close [simp]: "peers (proxy_close_connection c s) = peers s"
  by (simp add: proxy_close_connection_def split: option.splits sock.splits)

lemma peers_connections_index [simp]: "peers (connections_index c s) = peers s"
  by (simp add: connections_index_def)

lemma peers_send_parts [simp]: "peers (snd (send_message_parts e n c parts s)) = peers s"
  by (simp add: send_message_parts_def split: option.splits sock.splits send_result.splits)

lemma peers_send_parts_eq: "(r, t) = send_message_parts e n c parts s \<Longrightarrow> peers t = peers s"
  by (drule sym) (use peers_send_parts [of e n c parts s] in simp)

lemma length_remove_at: "i < length xs \<Longrightarrow> length (remove_at i xs) = length xs - 1"
  by (simp add: remove_at_def)

termination reply_loop
  by (relation "measure (\<lambda>(e, parts, n, i, stop, s). length (peers s) - i)")
    (auto dest!: peers_send_parts_eq simp: length_remove_at split: if_splits)

text \<open>\<^verbatim>\<open>proxy_reply\<close> with the connection and the frames of its message.\<close>

definition proxy_reply :: "env \<Rightarrow> connection_id \<Rightarrow> string list \<Rightarrow> 'a net_scheme \<Rightarrow> 'a net_scheme option" where
  "proxy_reply e c parts s =
     (case find_index (\<lambda>kp. conn_eq (fst kp) c) (peers s) of
        None \<Rightarrow> Some s
      | Some i \<Rightarrow> reply_loop e parts 0 i (i + length (mm_equal_range conn_eq c (peers s))) s)"


section \<open>Startup and shutdown\<close>

text \<open>The loop that binds the listeners: a failure ends the start-up.\<close>

fun bind_all :: "(string \<Rightarrow> bool) \<Rightarrow> nat \<Rightarrow> bind_data list \<Rightarrow> 'a net_scheme \<Rightarrow> bind_data list \<times> (nat \<times> bool) list \<times> 'a net_scheme res" where
  "bind_all zmq_bind i [] s = ([], [], Inr s)"
| "bind_all zmq_bind i (b # bs) s =
     (let (good, b, call, s) = proxy_bind zmq_bind i b s;
          calls = (case call of Some c \<Rightarrow> [c] | None \<Rightarrow> [])
      in if \<not> good then (b # bs, calls, Inl (runtime_error ''zmq error''))
         else (let (bs, cs, r) = bind_all zmq_bind (Suc i) bs s in (b # bs, calls @ cs, r)))"

text \<open>
  The part of \<^verbatim>\<open>proxy_loop_init\<close> that makes the worker sockets and the listeners, with the calls of the
  \<^verbatim>\<open>on_bind\<close> callbacks; file modes, timers and the tagged threads are elsewhere.
\<close>

definition init_connections :: "(string \<Rightarrow> bool) \<Rightarrow> 'a net_scheme \<Rightarrow> (nat \<times> bool) list \<times> 'a net_scheme res" where
  "init_connections zmq_bind s =
     (let s = s\<lparr>inproc_listener_connid := next_conn_id s, next_conn_id := next_conn_id s + 1,
            connections := connections s @ [(next_conn_id s, router_sock None False)]\<rparr>;
          (bs, calls, r) = bind_all zmq_bind 0 (binds s) s
      in (calls, case r of Inl x \<Rightarrow> Inl x | Inr s \<Rightarrow> Inr (s\<lparr>binds := bs, connections_updated := True\<rparr>)))"

text \<open>The \<^verbatim>\<open>BIND\<close> control message.\<close>

definition proxy_bind_message :: "(string \<Rightarrow> bool) \<Rightarrow> bind_data \<Rightarrow> 'a net_scheme \<Rightarrow> (nat \<times> bool) option \<times> 'a net_scheme" where
  "proxy_bind_message zmq_bind b s =
     (let (good, b, call, s) = proxy_bind zmq_bind (length (binds s)) b s
      in (call, if good then s\<lparr>binds := binds s @ [b]\<rparr> else s))"

definition proxy_quit :: "'a net_scheme \<Rightarrow> 'a net_scheme" where
  "proxy_quit s =
     (if null_sock \<in> snd ` set (connections s) then s\<lparr>proxy_died := True\<rparr>
      else s\<lparr>connections := [], peers := []\<rparr>)"

end
