(* ===== verification/Net_Inv.thy ===== *)
theory Net_Inv
  imports Net "HOL-Library.Multiset"
begin

text \<open>
  The invariant of connections and peers. The projection \<open>pcore\<close> of a peer is what identifies it: its key, the
  identifier of its socket, its route and its pubkey. \<open>conn_inv\<close> relates the sockets, the projected peers,
  \<^verbatim>\<open>outgoing_sn_conns\<close>, the counter and the pending connects; every operation either updates peers in place,
  drops peers together with their sockets, or adds one (\<open>conn_inv_drop\<close>, \<open>conn_inv_add\<close>).
\<close>

section \<open>The pool part of an operation leaves the network part alone\<close>

lemma more_alloc [simp]: "pool.more (snd (alloc b s)) = pool.more s"
  by (simp add: alloc_def)

lemma more_schedule [simp]: "pool.more (proxy_schedule_reply_job f s) = pool.more s"
  by (simp add: proxy_schedule_reply_job_def alloc_def)

lemma more_start_worker [simp]: "pool.more (start_worker f s) = pool.more s"
  by (simp add: start_worker_def get_idle_worker_def Let_def split: prod.splits)

lemma more_on_category [simp]: "pool.more (on_category n f s) = pool.more s"
  by (simp add: on_category_def)

lemma more_dispatch [simp]: "pool.more (snd (dispatch_command n c d cb conn acc r s)) = pool.more s"
  by (simp add: dispatch_command_def enqueue_pending_def)

lemma net_more:
  assumes "pool.more t = pool.more s"
  shows "connections t = connections s" "peers t = peers s" "outgoing_sn_conns t = outgoing_sn_conns s"
    "next_conn_id t = next_conn_id s" "pending_connects t = pending_connects s" "pending_requests t = pending_requests s"
    "proxy_died t = proxy_died s" "active_service_nodes t = active_service_nodes s" "sent t = sent s" "binds t = binds s"
    "self_batches t = self_batches s" "local_service_node t = local_service_node s" "connections_updated t = connections_updated s"
    "omq_pubkey t = omq_pubkey s" "inproc_listener_connid t = inproc_listener_connid s"
  using assms by (cases s; cases t; simp)+


section \<open>The invariant\<close>

type_synonym peer_core = "connection_id \<times> int \<times> string \<times> string"

definition pcore :: "connection_id \<times> peer_info \<Rightarrow> peer_core" where
  "pcore kp = (fst kp, pi_conn_id (snd kp), pi_route (snd kp), pi_pubkey (snd kp))"

definition key_ok :: "peer_core \<Rightarrow> bool" where
  "key_ok = (\<lambda>(k, c, r, pk). k = conn_of SN_ID pk [] \<and> length pk = 32 \<or> k = conn_of c pk [] \<and> r = [])"

definition out_ids :: "peer_core list \<Rightarrow> int list" where
  "out_ids P = map (\<lambda>(k, c, r, pk). c) (filter (\<lambda>(k, c, r, pk). r = []) P)"

definition conn_inv :: "(int \<times> sock) list \<Rightarrow> peer_core list \<Rightarrow> (int \<times> connection_id) list \<Rightarrow> int \<Rightarrow> int list \<Rightarrow> bool" where
  "conn_inv C P D N Q \<longleftrightarrow>
     distinct (map fst C) \<and> (\<forall>(i, k) \<in> set C. 0 < i \<and> i < N \<and> k \<noteq> null_sock)
     \<and> (\<forall>(k, c, r, pk) \<in> set P. key_ok (k, c, r, pk) \<and> (\<exists>sk. (c, sk) \<in> set C \<and> (is_router sk \<longleftrightarrow> r \<noteq> [])))
     \<and> distinct (out_ids P) \<and> grouped conn_eq (map fst P)
     \<and> (\<forall>(i, sk) \<in> set C. \<not> is_router sk \<longrightarrow> i \<in> set (out_ids P))
     \<and> distinct (map fst D) \<and> (\<forall>i k. (i, k) \<in> set D \<longleftrightarrow> (\<exists>pk. (k, i, [], pk) \<in> set P \<and> conn_sn k))
     \<and> distinct Q \<and> 0 < N
     \<and> (\<forall>i \<in> set Q. 0 < i \<and> i < N \<and> (\<forall>sk. (i, sk) \<in> set C \<longrightarrow> \<not> is_router sk)
          \<and> (\<forall>(k, c, r, pk) \<in> set P. c = i \<longrightarrow> \<not> conn_sn k))"

definition net_inv :: "'a net_scheme \<Rightarrow> bool" where
  "net_inv s \<longleftrightarrow> \<not> proxy_died s \<and>
     conn_inv (connections s) (map pcore (peers s)) (outgoing_sn_conns s) (next_conn_id s) (map pn_conn_id (pending_connects s))"

definition conns_of :: "'a net_scheme \<Rightarrow> (int \<times> sock) list \<times> peer_core list \<times> (int \<times> connection_id) list \<times> int \<times> int list \<times> bool" where
  "conns_of s = (connections s, map pcore (peers s), outgoing_sn_conns s, next_conn_id s, map pn_conn_id (pending_connects s), proxy_died s)"

lemma net_inv_cong: "net_inv s \<Longrightarrow> conns_of t = conns_of s \<Longrightarrow> net_inv t"
  by (simp add: net_inv_def conns_of_def)

lemma conns_of_more: "pool.more t = pool.more s \<Longrightarrow> conns_of t = conns_of s"
  using net_more [of t s] by (simp add: conns_of_def)

lemma out_ids_iff: "i \<in> set (out_ids P) \<longleftrightarrow> (\<exists>k pk. (k, i, [], pk) \<in> set P)"
  by (force simp: out_ids_def)

lemma out_ids_subseq: "subseq P' P \<Longrightarrow> subseq (out_ids P') (out_ids P)"
  by (simp add: out_ids_def subseq_map subseq_filter)

lemma subseq_distinct: "subseq xs ys \<Longrightarrow> distinct ys \<Longrightarrow> distinct xs"
  by (induction rule: list_emb.induct) (auto dest: subseq_set)

lemma out_ids_unique:
  assumes "distinct (out_ids P)" "(k, i, [], pk) \<in> set P" "(k', i, [], pk') \<in> set P"
  shows "k' = k \<and> pk' = pk"
proof -
  let ?F = "filter (\<lambda>(k, c, r, pk). r = []) P"
  have "inj_on (\<lambda>(k, c, r, pk). c) (set ?F)" using assms(1) by (simp add: out_ids_def distinct_map)
  from inj_onD [OF this, of "(k', i, [], pk')" "(k, i, [], pk)"] show ?thesis using assms(2,3) by simp
qed

lemma conn_invD:
  assumes "conn_inv C P D N Q"
  shows conn_inv_distinct: "distinct (map fst C)" "distinct (map fst D)" "distinct Q" "distinct (out_ids P)"
    and conn_inv_grouped: "grouped conn_eq (map fst P)" and conn_inv_next: "0 < N"
    and conn_inv_sock: "\<And>i k. (i, k) \<in> set C \<Longrightarrow> 0 < i \<and> i < N \<and> k \<noteq> null_sock"
    and conn_inv_key: "\<And>k c r pk. (k, c, r, pk) \<in> set P \<Longrightarrow> key_ok (k, c, r, pk)"
    and conn_inv_peer: "\<And>k c r pk. (k, c, r, pk) \<in> set P \<Longrightarrow> \<exists>sk. (c, sk) \<in> set C \<and> (is_router sk \<longleftrightarrow> r \<noteq> [])"
    and conn_inv_dealer: "\<And>i sk. (i, sk) \<in> set C \<Longrightarrow> \<not> is_router sk \<Longrightarrow> i \<in> set (out_ids P)"
    and conn_inv_sn: "\<And>i k. (i, k) \<in> set D \<longleftrightarrow> (\<exists>pk. (k, i, [], pk) \<in> set P \<and> conn_sn k)"
    and conn_inv_pending: "\<And>i. i \<in> set Q \<Longrightarrow> 0 < i \<and> i < N"
      "\<And>i sk. i \<in> set Q \<Longrightarrow> (i, sk) \<in> set C \<Longrightarrow> \<not> is_router sk"
      "\<And>i k r pk. i \<in> set Q \<Longrightarrow> (k, i, r, pk) \<in> set P \<Longrightarrow> \<not> conn_sn k"
  using assms unfolding conn_inv_def by (auto 0 3)

lemma conn_invI:
  assumes "distinct (map fst C)" "distinct (map fst D)" "distinct Q" "distinct (out_ids P)"
    "grouped conn_eq (map fst P)" "0 < N"
    "\<And>i k. (i, k) \<in> set C \<Longrightarrow> 0 < i \<and> i < N \<and> k \<noteq> null_sock"
    "\<And>k c r pk. (k, c, r, pk) \<in> set P \<Longrightarrow> key_ok (k, c, r, pk)"
    "\<And>k c r pk. (k, c, r, pk) \<in> set P \<Longrightarrow> \<exists>sk. (c, sk) \<in> set C \<and> (is_router sk \<longleftrightarrow> r \<noteq> [])"
    "\<And>i sk. (i, sk) \<in> set C \<Longrightarrow> \<not> is_router sk \<Longrightarrow> i \<in> set (out_ids P)"
    "\<And>i k. (i, k) \<in> set D \<longleftrightarrow> (\<exists>pk. (k, i, [], pk) \<in> set P \<and> conn_sn k)"
    "\<And>i. i \<in> set Q \<Longrightarrow> 0 < i \<and> i < N"
    "\<And>i sk. i \<in> set Q \<Longrightarrow> (i, sk) \<in> set C \<Longrightarrow> \<not> is_router sk"
    "\<And>i k r pk. i \<in> set Q \<Longrightarrow> (k, i, r, pk) \<in> set P \<Longrightarrow> \<not> conn_sn k"
  shows "conn_inv C P D N Q"
proof -
  have "\<forall>(i, k) \<in> set C. 0 < i \<and> i < N \<and> k \<noteq> null_sock" using assms(7) by blast
  moreover have "\<forall>(k, c, r, pk) \<in> set P. key_ok (k, c, r, pk) \<and> (\<exists>sk. (c, sk) \<in> set C \<and> (is_router sk \<longleftrightarrow> r \<noteq> []))"
    using assms(8,9) by blast
  moreover have "\<forall>(i, sk) \<in> set C. \<not> is_router sk \<longrightarrow> i \<in> set (out_ids P)" using assms(10) by blast
  moreover have "\<forall>i k. (i, k) \<in> set D \<longleftrightarrow> (\<exists>pk. (k, i, [], pk) \<in> set P \<and> conn_sn k)" using assms(11) by blast
  moreover have "\<forall>i \<in> set Q. 0 < i \<and> i < N \<and> (\<forall>sk. (i, sk) \<in> set C \<longrightarrow> \<not> is_router sk)
      \<and> (\<forall>(k, c, r, pk) \<in> set P. c = i \<longrightarrow> \<not> conn_sn k)" using assms(12-14) by blast
  ultimately show ?thesis unfolding conn_inv_def using assms(1-6) by blast
qed

text \<open>The socket of a peer tells whether it is outgoing.\<close>

lemma conn_inv_same_socket:
  assumes inv: "conn_inv C P D N Q" and "(k, c, r, pk) \<in> set P" "(k', c, r', pk') \<in> set P"
  shows "r = [] \<longleftrightarrow> r' = []"
proof -
  obtain sk sk' where "(c, sk) \<in> set C" "is_router sk \<longleftrightarrow> r \<noteq> []" "(c, sk') \<in> set C" "is_router sk' \<longleftrightarrow> r' \<noteq> []"
    using conn_inv_peer [OF inv assms(2)] conn_inv_peer [OF inv assms(3)] by blast
  moreover from this have "sk = sk'" using conn_inv_distinct(1) [OF inv] by (blast intro: eq_key_imp_eq_value)
  ultimately show ?thesis by blast
qed

text \<open>Dropping peers, with the sockets of the outgoing ones.\<close>

lemma conn_inv_drop:
  assumes inv: "conn_inv C P D N Q" and sub: "subseq P' P"
    and gone: "\<And>i. i \<in> G \<longleftrightarrow> i \<in> set (out_ids P) \<and> i \<notin> set (out_ids P')"
    and Q: "subseq Q' Q"
  shows "conn_inv (filter (\<lambda>c. fst c \<notin> G) C) P' (filter (\<lambda>c. fst c \<notin> G) D) N Q'"
proof -
  have P'P: "x \<in> set P' \<Longrightarrow> x \<in> set P" for x using subseq_set [OF sub] by blast
  have QQ: "i \<in> set Q' \<Longrightarrow> i \<in> set Q" for i using subseq_set [OF Q] by blast
  have kept: "c \<notin> G" if p: "(k, c, r, pk) \<in> set P'" for k c r pk
  proof
    assume "c \<in> G"
    then obtain k' pk' where out: "(k', c, [], pk') \<in> set P" and notin: "c \<notin> set (out_ids P')"
      using gone by (auto simp: out_ids_iff)
    then have "r = []" using conn_inv_same_socket [OF inv P'P [OF p] out] by simp
    then show False using notin p by (auto simp: out_ids_iff)
  qed
  show ?thesis
  proof (rule conn_invI)
    show "distinct (map fst (filter (\<lambda>c. fst c \<notin> G) C))" "distinct (map fst (filter (\<lambda>c. fst c \<notin> G) D))"
      using conn_inv_distinct [OF inv] by (simp_all add: distinct_map_filter)
    show "distinct Q'" "distinct (out_ids P')" "grouped conn_eq (map fst P')"
      using subseq_distinct [OF Q] subseq_distinct [OF out_ids_subseq [OF sub]] conn_inv_distinct [OF inv]
        ck.grouped_subseq [OF subseq_map [OF sub] conn_inv_grouped [OF inv]] by blast+
    show "0 < N" by (rule conn_inv_next [OF inv])
    show "(i, k) \<in> set (filter (\<lambda>c. fst c \<notin> G) C) \<Longrightarrow> 0 < i \<and> i < N \<and> k \<noteq> null_sock" for i k
      using conn_inv_sock [OF inv, of i k] by simp
    show "(k, c, r, pk) \<in> set P' \<Longrightarrow> key_ok (k, c, r, pk)" for k c r pk by (rule conn_inv_key [OF inv P'P])
    show "\<exists>sk. (c, sk) \<in> set (filter (\<lambda>c. fst c \<notin> G) C) \<and> (is_router sk \<longleftrightarrow> r \<noteq> [])"
      if p: "(k, c, r, pk) \<in> set P'" for k c r pk
      using conn_inv_peer [OF inv P'P [OF p]] kept [OF p] by simp
    show "i \<in> set (out_ids P')" if "(i, sk) \<in> set (filter (\<lambda>c. fst c \<notin> G) C)" "\<not> is_router sk" for i sk
      using that conn_inv_dealer [OF inv, of i sk] gone [of i] by simp
    show "(i, k) \<in> set (filter (\<lambda>c. fst c \<notin> G) D) \<longleftrightarrow> (\<exists>pk. (k, i, [], pk) \<in> set P' \<and> conn_sn k)" for i k
    proof
      assume a: "(i, k) \<in> set (filter (\<lambda>c. fst c \<notin> G) D)"
      then obtain pk where pk: "(k, i, [], pk) \<in> set P" "conn_sn k" using conn_inv_sn [OF inv, of i k] by auto
      then have "i \<in> set (out_ids P')" using a gone [of i] by (auto simp: out_ids_iff)
      then obtain k' pk' where p': "(k', i, [], pk') \<in> set P'" by (auto simp: out_ids_iff)
      then have "k' = k" using out_ids_unique [OF conn_inv_distinct(4) [OF inv] pk(1) P'P [OF p']] by simp
      then show "\<exists>pk. (k, i, [], pk) \<in> set P' \<and> conn_sn k" using pk p' by blast
    next
      assume "\<exists>pk. (k, i, [], pk) \<in> set P' \<and> conn_sn k"
      then obtain pk where "(k, i, [], pk) \<in> set P'" "conn_sn k" by blast
      then show "(i, k) \<in> set (filter (\<lambda>c. fst c \<notin> G) D)"
        using conn_inv_sn [OF inv, of i k] P'P kept by fastforce
    qed
    show "i \<in> set Q' \<Longrightarrow> 0 < i \<and> i < N" for i using conn_inv_pending(1) [OF inv] QQ by blast
    show "i \<in> set Q' \<Longrightarrow> (i, sk) \<in> set (filter (\<lambda>c. fst c \<notin> G) C) \<Longrightarrow> \<not> is_router sk" for i sk
      using conn_inv_pending(2) [OF inv QQ, of i sk] by simp
    show "i \<in> set Q' \<Longrightarrow> (k, i, r, pk) \<in> set P' \<Longrightarrow> \<not> conn_sn k" for i k r pk
      using conn_inv_pending(3) [OF inv QQ P'P] by blast
  qed
qed

text \<open>Adding a peer: an outgoing one with its new socket, or an incoming one on a listening socket.\<close>

lemma out_ids_mset: "mset P' = add_mset (k, c, r, pk) (mset P) \<Longrightarrow>
    mset (out_ids P') = (if r = [] then add_mset c (mset (out_ids P)) else mset (out_ids P))"
  by (simp add: out_ids_def mset_filter)

lemma mset_mem: "mset P' = add_mset x (mset P) \<Longrightarrow> y \<in> set P' \<longleftrightarrow> y = x \<or> y \<in> set P"
  by (metis set_mset_add_mset_insert set_mset_mset insert_iff)

lemma distinct_add_mset: "mset P' = add_mset x (mset P) \<Longrightarrow> distinct P' \<longleftrightarrow> distinct P \<and> x \<notin> set P"
  by (metis distinct.simps(2) mset.simps(2) mset_eq_imp_distinct_iff)

lemma conn_inv_add_out:
  assumes inv: "conn_inv C P D N Q" and fresh: "i \<notin> fst ` set C" "0 < i" "i < N'" "N \<le> N'"
    and sk: "sk \<noteq> null_sock" "\<not> is_router sk"
    and P': "mset P' = add_mset (k, i, [], pk) (mset P)" "grouped conn_eq (map fst P')" "key_ok (k, i, [], pk)"
    and Q': "distinct Q'" "\<And>j. j \<in> set Q' \<Longrightarrow> j \<in> set Q \<or> j = i" "conn_sn k \<Longrightarrow> i \<notin> set Q'"
    and D': "D' = (if conn_sn k then D @ [(i, k)] else D)"
  shows "conn_inv (C @ [(i, sk)]) P' D' N' Q'"
proof -
  note mem = mset_mem [OF P'(1)]
  have old: "c \<noteq> i" if "(k, c, r, pk) \<in> set P" for k c r pk
    using conn_inv_peer [OF inv that] fresh(1) by force
  have out: "mset (out_ids P') = add_mset i (mset (out_ids P))" using out_ids_mset [OF P'(1)] by simp
  have i_new: "i \<notin> set (out_ids P)" "i \<notin> fst ` set D"
    using conn_inv_sn [OF inv] by (auto simp: out_ids_iff dest: old)
  show ?thesis
  proof (rule conn_invI)
    show "distinct (map fst (C @ [(i, sk)]))" "distinct (map fst D')" "distinct Q'"
      using conn_inv_distinct [OF inv] fresh(1) i_new(2) Q'(1) by (simp_all add: D')
    show "distinct (out_ids P')" using distinct_add_mset [OF out] conn_inv_distinct(4) [OF inv] i_new(1) by simp
    show "grouped conn_eq (map fst P')" by (rule P')
    show "0 < N'" using conn_inv_next [OF inv] fresh by simp
    show "0 < j \<and> j < N' \<and> kk \<noteq> null_sock" if "(j, kk) \<in> set (C @ [(i, sk)])" for j kk
      using that conn_inv_sock [OF inv, of j kk] fresh sk by auto
    show "key_ok (k', c, r, pk')" if "(k', c, r, pk') \<in> set P'" for k' c r pk'
      using that conn_inv_key [OF inv] P'(3) by (auto simp: mem)
    show "\<exists>sk'. (c, sk') \<in> set (C @ [(i, sk)]) \<and> (is_router sk' \<longleftrightarrow> r \<noteq> [])" if "(k', c, r, pk') \<in> set P'" for k' c r pk'
      using that conn_inv_peer [OF inv] sk(2) by (fastforce simp: mem)
    show "j \<in> set (out_ids P')" if "(j, sk') \<in> set (C @ [(i, sk)])" "\<not> is_router sk'" for j sk'
      using that conn_inv_dealer [OF inv, of j sk'] mset_mem [OF out] by auto
    show "(j, k') \<in> set D' \<longleftrightarrow> (\<exists>pk. (k', j, [], pk) \<in> set P' \<and> conn_sn k')" for j k'
      using conn_inv_sn [OF inv, of j k'] by (auto simp: mem D')
    show "j \<in> set Q' \<Longrightarrow> 0 < j \<and> j < N'" for j
      using Q'(2) [of j] conn_inv_pending(1) [OF inv, of j] fresh by auto
    show "\<not> is_router sk'" if "j \<in> set Q'" "(j, sk') \<in> set (C @ [(i, sk)])" for j sk'
      using that Q'(2) [of j] conn_inv_pending(2) [OF inv, of j sk'] fresh(1) sk(2) by force
    show "\<not> conn_sn k'" if "j \<in> set Q'" "(k', j, r, pk') \<in> set P'" for j k' r pk'
      using that Q'(2) [of j] Q'(3) conn_inv_pending(3) [OF inv, of j k' r pk'] by (auto simp: mem dest: old)
  qed
qed

lemma conn_inv_add_in:
  assumes inv: "conn_inv C P D N Q" and sk: "(c, sk) \<in> set C" "is_router sk" and r: "r \<noteq> []"
    and P': "mset P' = add_mset (k, c, r, pk) (mset P)" "grouped conn_eq (map fst P')" "key_ok (k, c, r, pk)"
  shows "conn_inv C P' D N Q"
proof -
  note mem = mset_mem [OF P'(1)]
  have out: "set (out_ids P') = set (out_ids P)" "distinct (out_ids P')"
    using out_ids_mset [OF P'(1)] r conn_inv_distinct(4) [OF inv] mset_eq_setD mset_eq_imp_distinct_iff by metis+
  show ?thesis
  proof (rule conn_invI)
    show "distinct (map fst C)" "distinct (map fst D)" "distinct Q" "0 < N"
      using conn_inv_distinct [OF inv] conn_inv_next [OF inv] by simp_all
    show "distinct (out_ids P')" "grouped conn_eq (map fst P')" by (rule out P')+
    show "(i, k) \<in> set C \<Longrightarrow> 0 < i \<and> i < N \<and> k \<noteq> null_sock" for i k by (rule conn_inv_sock [OF inv])
    show "key_ok (k', c', r', pk')" if "(k', c', r', pk') \<in> set P'" for k' c' r' pk'
      using that conn_inv_key [OF inv] P'(3) by (auto simp: mem)
    show "\<exists>sk'. (c', sk') \<in> set C \<and> (is_router sk' \<longleftrightarrow> r' \<noteq> [])" if "(k', c', r', pk') \<in> set P'" for k' c' r' pk'
      using that conn_inv_peer [OF inv] sk r by (fastforce simp: mem)
    show "(i, sk) \<in> set C \<Longrightarrow> \<not> is_router sk \<Longrightarrow> i \<in> set (out_ids P')" for i sk
      unfolding out by (rule conn_inv_dealer [OF inv])
    show "(i, k') \<in> set D \<longleftrightarrow> (\<exists>pk. (k', i, [], pk) \<in> set P' \<and> conn_sn k')" for i k'
      using conn_inv_sn [OF inv, of i k'] r by (auto simp: mem)
    show "i \<in> set Q \<Longrightarrow> 0 < i \<and> i < N" "i \<in> set Q \<Longrightarrow> (i, sk) \<in> set C \<Longrightarrow> \<not> is_router sk" for i sk
      using conn_inv_pending [OF inv] by blast+
    show "\<not> conn_sn k'" if "i \<in> set Q" "(k', i, r', pk') \<in> set P'" for i k' r' pk'
      using that conn_inv_pending(2,3) [OF inv] sk by (auto simp: mem)
  qed
qed

lemma conn_inv_add_router:
  assumes inv: "conn_inv C P D N Q" and fresh: "i \<notin> fst ` set C" "0 < i" "i < N'" "N \<le> N'" "i \<notin> set Q"
  shows "conn_inv (C @ [(i, router_sock x y)]) P D N' Q"
proof (rule conn_invI)
  show "distinct (map fst (C @ [(i, router_sock x y)]))" using conn_inv_distinct [OF inv] fresh(1) by simp
  show "distinct (map fst D)" "distinct Q" "distinct (out_ids P)" "grouped conn_eq (map fst P)" "0 < N'"
    using conn_inv_distinct [OF inv] conn_inv_grouped [OF inv] conn_inv_next [OF inv] fresh by simp_all
  show "0 < j \<and> j < N' \<and> k \<noteq> null_sock" if "(j, k) \<in> set (C @ [(i, router_sock x y)])" for j k
    using that conn_inv_sock [OF inv, of j k] fresh by auto
  show "(k, c, r, pk) \<in> set P \<Longrightarrow> key_ok (k, c, r, pk)" for k c r pk by (rule conn_inv_key [OF inv])
  show "\<exists>sk. (c, sk) \<in> set (C @ [(i, router_sock x y)]) \<and> (is_router sk \<longleftrightarrow> r \<noteq> [])" if "(k, c, r, pk) \<in> set P" for k c r pk
    using conn_inv_peer [OF inv that] by auto
  show "j \<in> set (out_ids P)" if "(j, sk) \<in> set (C @ [(i, router_sock x y)])" "\<not> is_router sk" for j sk
    using that conn_inv_dealer [OF inv, of j sk] by (auto simp: is_router_def)
  show "(j, k) \<in> set D \<longleftrightarrow> (\<exists>pk. (k, j, [], pk) \<in> set P \<and> conn_sn k)" for j k by (rule conn_inv_sn [OF inv])
  show "j \<in> set Q \<Longrightarrow> 0 < j \<and> j < N'" for j using conn_inv_pending(1) [OF inv, of j] fresh by simp
  show "\<not> is_router sk" if "j \<in> set Q" "(j, sk) \<in> set (C @ [(i, router_sock x y)])" for j sk
    using that conn_inv_pending(2) [OF inv, of j sk] fresh by auto
  show "j \<in> set Q \<Longrightarrow> (k, j, r, pk) \<in> set P \<Longrightarrow> \<not> conn_sn k" for j k r pk by (rule conn_inv_pending(3) [OF inv])
qed

section \<open>Dropping peers\<close>

definition closable :: "'a net_scheme \<Rightarrow> bool" where
  "closable s \<longleftrightarrow> null_sock \<notin> snd ` set (connections s) \<and> distinct (map fst (connections s))
     \<and> fst ` set (outgoing_sn_conns s) \<subseteq> fst ` set (connections s)"

lemma net_inv_closable: "net_inv s \<Longrightarrow> closable s"
proof -
  assume "net_inv s"
  then have inv: "conn_inv (connections s) (map pcore (peers s)) (outgoing_sn_conns s) (next_conn_id s) (map pn_conn_id (pending_connects s))"
    by (simp add: net_inv_def)
  have "i \<in> fst ` set (connections s)" if "(i, k) \<in> set (outgoing_sn_conns s)" for i k
    using that conn_inv_sn [OF inv, of i k] conn_inv_peer [OF inv] by force
  then show ?thesis using conn_inv_distinct(1) [OF inv] by (auto simp: closable_def dest: conn_inv_sock [OF inv])
qed

lemma close_all_eq:
  assumes "closable s"
  shows "\<exists>u. fold proxy_close_connection ids s = s\<lparr>connections := filter (\<lambda>c. fst c \<notin> set ids) (connections s),
     connections_updated := u, outgoing_sn_conns := filter (\<lambda>c. fst c \<notin> set ids) (outgoing_sn_conns s)\<rparr>"
  using assms
proof (induction ids arbitrary: s)
  case (Cons i ids)
  let ?t = "proxy_close_connection i s"
  have "\<exists>u. ?t = s\<lparr>connections := filter (\<lambda>c. fst c \<noteq> i) (connections s), connections_updated := u,
      outgoing_sn_conns := filter (\<lambda>c. fst c \<noteq> i) (outgoing_sn_conns s)\<rparr>"
  proof (cases "map_of (connections s) i")
    case None
    then have "i \<notin> fst ` set (connections s)" "i \<notin> fst ` set (outgoing_sn_conns s)"
      using Cons.prems by (auto simp: closable_def map_of_eq_None_iff)
    then have "filter (\<lambda>c. fst c \<noteq> i) (connections s) = connections s"
      "filter (\<lambda>c. fst c \<noteq> i) (outgoing_sn_conns s) = outgoing_sn_conns s"
      by (auto simp: filter_id_conv)
    then show ?thesis by (intro exI [of _ "connections_updated s"]) (simp add: proxy_close_connection_def None)
  next
    case (Some k)
    then have "k \<noteq> null_sock" using Cons.prems map_of_SomeD [OF Some] by (force simp: closable_def)
    then show ?thesis using Some
      by (intro exI [of _ True]) (simp add: proxy_close_connection_def split: sock.splits)
  qed
  then obtain u where t: "?t = s\<lparr>connections := filter (\<lambda>c. fst c \<noteq> i) (connections s), connections_updated := u,
      outgoing_sn_conns := filter (\<lambda>c. fst c \<noteq> i) (outgoing_sn_conns s)\<rparr>" by blast
  have "closable ?t" using Cons.prems by (auto simp: closable_def t distinct_map_filter)
  from Cons.IH [OF this] obtain v where "fold proxy_close_connection ids ?t = ?t\<lparr>connections := filter (\<lambda>c. fst c \<notin> set ids) (connections ?t),
     connections_updated := v, outgoing_sn_conns := filter (\<lambda>c. fst c \<notin> set ids) (outgoing_sn_conns ?t)\<rparr>" by blast
  then show ?case by (intro exI [of _ v]) (simp add: t conj_commute)
next
  case Nil
  show ?case by (rule exI [of _ "connections_updated s"]) simp
qed

lemmas close_eq = close_all_eq [of _ "[i]" for i, simplified]

text \<open>An outgoing peer is determined by its socket.\<close>

lemma net_inv_conn: "net_inv s \<Longrightarrow> conn_inv (connections s) (map pcore (peers s)) (outgoing_sn_conns s) (next_conn_id s)
    (map pn_conn_id (pending_connects s))"
  by (simp add: net_inv_def)

lemma out_ids_pcore: "out_ids (map pcore ps) = map (\<lambda>kp. pi_conn_id (snd kp)) (filter (\<lambda>kp. pi_outgoing (snd kp)) ps)"
  by (induction ps) (auto simp: out_ids_def pcore_def pi_outgoing_def)

lemma out_peers_distinct: "net_inv s \<Longrightarrow> distinct (map (\<lambda>kp. pi_conn_id (snd kp)) (filter (\<lambda>kp. pi_outgoing (snd kp)) (peers s)))"
  using conn_inv_distinct(4) [OF net_inv_conn] by (simp add: out_ids_pcore)

lemma out_peer_unique:
  assumes "net_inv s" "kp \<in> set (peers s)" "kq \<in> set (peers s)" "pi_outgoing (snd kp)" "pi_outgoing (snd kq)"
    "pi_conn_id (snd kp) = pi_conn_id (snd kq)"
  shows "kp = kq"
  using inj_onD [of "\<lambda>kp. pi_conn_id (snd kp)" "set (filter (\<lambda>kp. pi_outgoing (snd kp)) (peers s))" kp kq]
    out_peers_distinct [OF assms(1)] assms(2-) by (simp add: distinct_map)

lemma net_inv_drop:
  assumes inv: "net_inv s" and sub: "subseq kept (peers s)"
    and ids: "\<And>i. i \<in> G \<longleftrightarrow> (\<exists>kp. kp \<in> set (peers s) \<and> kp \<notin> set kept \<and> pi_outgoing (snd kp) \<and> pi_conn_id (snd kp) = i)"
    and t: "connections t = filter (\<lambda>c. fst c \<notin> G) (connections s)" "peers t = kept"
      "outgoing_sn_conns t = filter (\<lambda>c. fst c \<notin> G) (outgoing_sn_conns s)" "next_conn_id t = next_conn_id s"
      "subseq (pending_connects t) (pending_connects s)" "proxy_died t = proxy_died s"
  shows "net_inv t"
proof -
  have "i \<in> G \<longleftrightarrow> i \<in> set (out_ids (map pcore (peers s))) \<and> i \<notin> set (out_ids (map pcore kept))" for i
    using ids [of i] subseq_set [OF sub] out_peer_unique [OF inv] unfolding out_ids_pcore by (auto simp: image_iff) blast+
  then have "conn_inv (filter (\<lambda>c. fst c \<notin> G) (connections s)) (map pcore kept) (filter (\<lambda>c. fst c \<notin> G) (outgoing_sn_conns s))
      (next_conn_id s) (map pn_conn_id (pending_connects t))"
    by (intro conn_inv_drop [OF net_inv_conn [OF inv]] subseq_map sub t)
  then show ?thesis using inv t by (simp add: net_inv_def)
qed

lemma net_inv_close:
  assumes inv: "net_inv s" and sub: "subseq kept (peers s)"
    and ids: "\<And>i. i \<in> set ids \<longleftrightarrow> (\<exists>kp. kp \<in> set (peers s) \<and> kp \<notin> set kept \<and> pi_outgoing (snd kp) \<and> pi_conn_id (snd kp) = i)"
  shows "net_inv ((fold proxy_close_connection ids s)\<lparr>peers := kept\<rparr>)"
proof -
  obtain u where "fold proxy_close_connection ids s = s\<lparr>connections := filter (\<lambda>c. fst c \<notin> set ids) (connections s),
     connections_updated := u, outgoing_sn_conns := filter (\<lambda>c. fst c \<notin> set ids) (outgoing_sn_conns s)\<rparr>"
    using close_all_eq [OF net_inv_closable [OF inv]] by blast
  then show ?thesis using ids by (intro net_inv_drop [OF inv sub, of "set ids"]) simp_all
qed

lemma net_inv_close_filter:
  assumes "net_inv s" and R: "\<And>kp. R' kp \<longleftrightarrow> R kp \<and> pi_outgoing (snd kp)"
  shows "net_inv ((fold proxy_close_connection (map (\<lambda>kp. pi_conn_id (snd kp)) (filter R' (peers s))) s)
    \<lparr>peers := filter (\<lambda>kp. \<not> R kp) (peers s)\<rparr>)"
  by (rule net_inv_close [OF assms(1)]) (simp, unfold set_map set_filter R, blast)

text \<open>Idle peers.\<close>

definition idle_peer :: "env \<Rightarrow> peer_info \<Rightarrow> bool" where
  "idle_peer e p \<longleftrightarrow> pi_outgoing p \<and> ms (pi_idle_expiry p) < now e - pi_last_activity p"

lemma expire_peers_eq: "expire_peers e ps s = (filter (\<lambda>kp. \<not> idle_peer e (snd kp)) ps,
    fold proxy_close_connection (map (\<lambda>kp. pi_conn_id (snd kp)) (filter (\<lambda>kp. idle_peer e (snd kp)) ps)) s)"
  by (induction e ps s rule: expire_peers.induct) (auto simp: idle_peer_def)

lemma net_inv_expire_idle: "net_inv s \<Longrightarrow> net_inv (proxy_expire_idle_peers e s)"
  unfolding proxy_expire_idle_peers_def expire_peers_eq Let_def prod.case
  by (rule net_inv_close_filter) (auto simp: idle_peer_def)

text \<open>Removing a service node.\<close>

lemma peers_close_all [simp]: "peers (fold proxy_close_connection ids s) = peers s"
  by (induction ids arbitrary: s) auto

lemma close_upd_peers: "proxy_close_connection i (s\<lparr>peers := ps\<rparr>) = (proxy_close_connection i s)\<lparr>peers := ps\<rparr>"
  by (simp add: proxy_close_connection_def split: option.splits sock.splits)

lemma erase_first_none: "\<not> list_ex P xs \<Longrightarrow> erase_first P xs = xs"
  by (induction xs) auto

lemma erase_first_append: "list_ex P xs \<Longrightarrow> erase_first P (xs @ ys) = erase_first P xs @ ys"
  by (induction xs) auto

lemma subseq_erase_first: "subseq (erase_first P xs) xs"
  by (induction xs) auto

lemma remove_range_eq:
  assumes "\<forall>kp \<in> set rng. conn_eq (fst kp) c"
  shows "fold (\<lambda>(k, p) s. let s = s\<lparr>peers := erase_first (\<lambda>kp. conn_eq (fst kp) c) (peers s)\<rparr>
       in if pi_outgoing p then proxy_close_connection (pi_conn_id p) s else s) rng s
    = (fold proxy_close_connection (map (\<lambda>kp. pi_conn_id (snd kp)) (filter (\<lambda>kp. pi_outgoing (snd kp)) rng)) s)
        \<lparr>peers := ((erase_first (\<lambda>kp. conn_eq (fst kp) c)) ^^ length rng) (peers s)\<rparr>"
  using assms
proof (induction rng arbitrary: s)
  case (Cons kp rng)
  have comm: "fold proxy_close_connection ids (s\<lparr>peers := ps\<rparr>) = (fold proxy_close_connection ids s)\<lparr>peers := ps\<rparr>" for ids ps and s :: "'a net_scheme"
    by (induction ids arbitrary: s) (simp_all add: close_upd_peers)
  show ?case using Cons by (simp add: case_prod_unfold Let_def comm close_upd_peers funpow_swap1)
qed simp

lemma erase_range: "((erase_first P) ^^ length (filter P xs)) xs = filter (\<lambda>x. \<not> P x) xs"
proof (induction xs)
  case (Cons x xs)
  have shift: "((erase_first P) ^^ n) (x # ys) = x # ((erase_first P) ^^ n) ys" if "\<not> P x" for n and ys
    by (induction n) (simp_all add: that)
  show ?case
  proof (cases "P x")
    case True
    then show ?thesis using Cons by (simp add: funpow_swap1)
  next
    case False
    then show ?thesis using Cons shift by simp
  qed
qed simp

lemma remove_sn_eq: "remove_sn pk s =
    (fold proxy_close_connection (map (\<lambda>kp. pi_conn_id (snd kp))
        (filter (\<lambda>kp. pi_outgoing (snd kp)) (mm_equal_range conn_eq (conn_of SN_ID pk []) (peers s))))
      (s\<lparr>active_service_nodes := filter (\<lambda>k. k \<noteq> pk) (active_service_nodes s)\<rparr>))
     \<lparr>peers := mm_erase_key conn_eq (conn_of SN_ID pk []) (peers s)\<rparr>"
proof -
  let ?c = "conn_of SN_ID pk []"
  have all: "\<forall>kp \<in> set (mm_equal_range conn_eq ?c (peers s)). conn_eq (fst kp) ?c" by (simp add: mm_equal_range_def)
  have "((erase_first (\<lambda>kp. conn_eq (fst kp) ?c)) ^^ length (mm_equal_range conn_eq ?c (peers s))) (peers s)
    = mm_erase_key conn_eq ?c (peers s)"
    unfolding mm_equal_range_def mm_erase_key_def by (rule erase_range)
  then show ?thesis
    using remove_range_eq [OF all, of "s\<lparr>active_service_nodes := filter (\<lambda>k. k \<noteq> pk) (active_service_nodes s)\<rparr>"]
    by (simp add: remove_sn_def Let_def)
qed

lemma net_inv_remove_sn:
  assumes inv: "net_inv s"
  shows "net_inv (remove_sn pk s)"
proof -
  let ?s = "s\<lparr>active_service_nodes := filter (\<lambda>k. k \<noteq> pk) (active_service_nodes s)\<rparr>"
  let ?R = "\<lambda>kp. conn_eq (fst kp) (conn_of SN_ID pk [])"
  have "net_inv ?s" by (rule net_inv_cong [OF inv]) (simp add: conns_of_def)
  then have "net_inv ((fold proxy_close_connection (map (\<lambda>kp. pi_conn_id (snd kp))
      (filter (\<lambda>kp. ?R kp \<and> pi_outgoing (snd kp)) (peers ?s))) ?s)\<lparr>peers := filter (\<lambda>kp. \<not> ?R kp) (peers ?s)\<rparr>)"
    by (rule net_inv_close_filter) auto
  then show ?thesis unfolding remove_sn_eq by (simp add: mm_erase_key_def mm_equal_range_def)
qed

lemma net_inv_upd_sns [simp]: "net_inv (s\<lparr>active_service_nodes := a\<rparr>) \<longleftrightarrow> net_inv s"
  by (simp add: net_inv_def)

lemma net_inv_fold: "(\<And>x s. net_inv s \<Longrightarrow> net_inv (f x s)) \<Longrightarrow> net_inv s \<Longrightarrow> net_inv (fold f xs s)"
  by (induction xs arbitrary: s) auto

lemma net_inv_update_clean: "net_inv s \<Longrightarrow> net_inv (proxy_update_active_sns_clean added removed s)"
  by (simp add: proxy_update_active_sns_clean_def Let_def net_inv_fold net_inv_remove_sn)

lemma net_inv_sns:
  "net_inv s \<Longrightarrow> net_inv (proxy_update_active_sns added removed s)"
  "net_inv s \<Longrightarrow> net_inv (proxy_set_active_sns pubkeys s)"
  by (simp_all add: proxy_update_active_sns_def proxy_set_active_sns_def Let_def net_inv_update_clean)

text \<open>Jobs that the proxy queues for itself, and messages that are sent.\<close>

lemma conns_of_proxy_job [simp]: "conns_of (proxy_job f s) = conns_of s"
  by (simp add: proxy_job_def alloc_def conns_of_def)

lemma conns_of_send_parts [simp]: "conns_of (snd (send_message_parts e n c parts s)) = conns_of s"
  by (simp add: send_message_parts_def conns_of_def split: option.splits sock.splits send_result.splits)

lemma send_parts_fields:
  assumes "send_message_parts e n c parts s = (r, t)"
  shows "conns_of t = conns_of s" "peers t = peers s" "pending_connects t = pending_connects s"
proof -
  show "conns_of t = conns_of s" using conns_of_send_parts [of e n c parts s] assms by simp
  show "peers t = peers s" by (rule peers_send_parts_eq [OF assms [symmetric]])
  show "pending_connects t = pending_connects s"
    using assms by (auto simp: send_message_parts_def split: option.splits sock.splits send_result.splits)
qed

lemma proxy_job_fields [simp]: "peers (proxy_job f s) = peers s" "pending_connects (proxy_job f s) = pending_connects s"
    "pending_requests (proxy_job f s) = pending_requests s" "connections (proxy_job f s) = connections s"
  by (simp_all add: proxy_job_def alloc_def)

text \<open>A pending connect that times out.\<close>

lemma conn_eq_id: "0 < i \<Longrightarrow> conn_eq k (conn_of_id i) \<longleftrightarrow> cid k = i \<and> cid_route k = []"
  by (auto simp: conn_eq_def conn_sn_def conn_of_id_def SN_ID_def)

lemma key_ok_id: "key_ok (k, c, r, pk) \<Longrightarrow> 0 < i \<Longrightarrow> conn_eq k (conn_of_id i) \<Longrightarrow> c = i \<and> r = []"
  by (auto simp: key_ok_def conn_eq_id conn_of_def SN_ID_def)

lemma key_ok_not_sn: "key_ok (k, c, r, pk) \<Longrightarrow> \<not> conn_sn k \<Longrightarrow> k = conn_of c pk []"
  by (auto simp: key_ok_def conn_sn_def conn_of_def)

lemma pcore_mem: "(k, p) \<in> set ps \<Longrightarrow> (k, pi_conn_id p, pi_route p, pi_pubkey p) \<in> set (map pcore ps)"
  by (force simp: pcore_def)

lemma net_inv_timeout:
  assumes inv: "net_inv s" and i: "i \<in> set (map pn_conn_id (pending_connects s))"
  shows "net_inv ((proxy_close_connection i s)\<lparr>peers := mm_erase_key conn_eq (conn_of_id i) (peers s)\<rparr>)"
proof -
  note ci = net_inv_conn [OF inv]
  have pos: "0 < i" using conn_inv_pending(1) [OF ci i] by simp
  have gone: "pi_conn_id p = i \<and> pi_outgoing p" if "(k, p) \<in> set (peers s)" "conn_eq k (conn_of_id i)" for k p
    using key_ok_id [OF conn_inv_key [OF ci pcore_mem [OF that(1)]] pos that(2)] by (simp add: pi_outgoing_def)
  have only: "conn_eq k (conn_of_id i)" if "(k, p) \<in> set (peers s)" "pi_conn_id p = i" "pi_outgoing p" for k p
  proof -
    have m: "(k, i, [], pi_pubkey p) \<in> set (map pcore (peers s))"
      using pcore_mem [OF that(1)] that(2,3) by (simp add: pi_outgoing_def)
    then have "k = conn_of i (pi_pubkey p) []"
      using key_ok_not_sn [OF conn_inv_key [OF ci m] conn_inv_pending(3) [OF ci i m]] by simp
    then show ?thesis by (simp add: conn_eq_id [OF pos] conn_of_def)
  qed
  define ids where "ids = map (\<lambda>kp. pi_conn_id (snd kp)) (filter (\<lambda>kp. conn_eq (fst kp) (conn_of_id i) \<and> pi_outgoing (snd kp)) (peers s))"
  have inv': "net_inv ((fold proxy_close_connection ids s)\<lparr>peers := mm_erase_key conn_eq (conn_of_id i) (peers s)\<rparr>)"
    unfolding mm_erase_key_def ids_def by (rule net_inv_close_filter [OF inv]) auto
  have same: "j \<notin> set ids \<longleftrightarrow> j \<noteq> i" if conn: "j \<in> fst ` set (connections s)" for j
  proof -
    obtain sk where sk: "(j, sk) \<in> set (connections s)" using conn by force
    have "j \<in> set ids" if ji: "j = i"
    proof -
      have "i \<in> set (out_ids (map pcore (peers s)))"
        using conn_inv_dealer [OF ci] conn_inv_pending(2) [OF ci i] sk ji by simp
      then obtain k p where "(k, p) \<in> set (peers s)" "pi_outgoing p" "pi_conn_id p = i"
        unfolding out_ids_pcore by auto
      then show ?thesis using only [of k p] ji by (force simp: ids_def)
    qed
    moreover have "j = i" if "j \<in> set ids" using that gone by (auto simp: ids_def)
    ultimately show ?thesis by blast
  qed
  obtain u v where
    u: "fold proxy_close_connection ids s = s\<lparr>connections := filter (\<lambda>c. fst c \<notin> set ids) (connections s),
     connections_updated := u, outgoing_sn_conns := filter (\<lambda>c. fst c \<notin> set ids) (outgoing_sn_conns s)\<rparr>"
    and v: "proxy_close_connection i s = s\<lparr>connections := filter (\<lambda>c. fst c \<noteq> i) (connections s),
     connections_updated := v, outgoing_sn_conns := filter (\<lambda>c. fst c \<noteq> i) (outgoing_sn_conns s)\<rparr>"
    using close_all_eq [OF net_inv_closable [OF inv], of ids] close_eq [OF net_inv_closable [OF inv], of i] by blast
  have eq: "filter (\<lambda>c. fst c \<notin> set ids) (connections s) = filter (\<lambda>c. fst c \<noteq> i) (connections s)"
    "filter (\<lambda>c. fst c \<notin> set ids) (outgoing_sn_conns s) = filter (\<lambda>c. fst c \<noteq> i) (outgoing_sn_conns s)"
    using net_inv_closable [OF inv] unfolding closable_def by (intro filter_cong refl same; blast)+
  show ?thesis by (rule net_inv_cong [OF inv']) (simp add: u v eq conns_of_def)
qed

lemma net_inv_expire_connects:
  "\<lbrakk>net_inv s; set (map pn_conn_id pcs) \<subseteq> set (map pn_conn_id (pending_connects s))\<rbrakk> \<Longrightarrow>
    net_inv (snd (expire_connects e pcs s)) \<and> pending_connects (snd (expire_connects e pcs s)) = pending_connects s
    \<and> subseq (fst (expire_connects e pcs s)) pcs"
proof (induction e pcs s rule: expire_connects.induct)
  case (2 e pc pcs s)
  show ?case
  proof (cases "pn_expiry pc < now e")
    case True
    let ?f = "connect_failure (pn_on_failure pc) (conn_of_id (pn_conn_id pc)) ''connection attempt timed out''"
    let ?s = "proxy_job ?f s"
    let ?t = "(proxy_close_connection (pn_conn_id pc) ?s)\<lparr>peers := mm_erase_key conn_eq (conn_of_id (pn_conn_id pc)) (peers ?s)\<rparr>"
    have inv: "net_inv ?s" by (rule net_inv_cong [OF 2(3)]) simp
    have "net_inv ?t" by (rule net_inv_timeout [OF inv]) (use 2(4) in simp)
    moreover have pend: "pending_connects ?t = pending_connects s"
      by (simp add: proxy_close_connection_def proxy_job_def alloc_def split: option.splits sock.splits)
    ultimately show ?thesis using 2(1) [OF True refl refl refl refl] 2(4) True
      by (simp add: Let_def del: proxy_job_fields(2)) (auto intro: list_emb_Cons)
  next
    case False
    then show ?thesis using 2(2) [OF False] 2(3,4) by (simp add: case_prod_unfold Let_def)
  qed
qed simp

lemma conns_of_expire_requests [simp]: "conns_of (snd (expire_requests e rs s)) = conns_of s"
  by (induction e rs s rule: expire_requests.induct) (auto simp: case_prod_unfold Let_def)

lemma conns_of_upd [simp]: "conns_of (s\<lparr>pending_requests := rs\<rparr>) = conns_of s" "conns_of (s\<lparr>sent := msgs\<rparr>) = conns_of s"
    "conns_of (s\<lparr>connections_updated := u\<rparr>) = conns_of s" "conns_of (s\<lparr>binds := bs\<rparr>) = conns_of s"
  by (simp_all add: conns_of_def)

lemma net_inv_cleanup: "net_inv s \<Longrightarrow> net_inv (proxy_conn_cleanup e s)"
proof -
  assume "net_inv s"
  let ?s = "proxy_expire_idle_peers e s"
  let ?r = "expire_connects e (pending_connects ?s) ?s"
  have "net_inv ?s" by (rule net_inv_expire_idle [OF \<open>net_inv s\<close>])
  from net_inv_expire_connects [OF this subset_refl, of e] have r: "net_inv (snd ?r)"
    "pending_connects (snd ?r) = pending_connects ?s" "subseq (fst ?r) (pending_connects ?s)" by auto
  have t: "net_inv ((snd ?r)\<lparr>pending_connects := fst ?r\<rparr>)"
    by (rule net_inv_drop [OF r(1), of "peers (snd ?r)" "{}"]) (use r in auto)
  show ?thesis by (rule net_inv_cong [OF t]) (simp add: proxy_conn_cleanup_def case_prod_unfold Let_def)
qed

text \<open>Dropping one peer.\<close>

lemma net_inv_drop_one:
  assumes inv: "net_inv s" and split: "peers s = a @ x # b"
  shows "net_inv ((if pi_outgoing (snd x) then proxy_close_connection (pi_conn_id (snd x)) s else s)\<lparr>peers := a @ b\<rparr>)"
proof (cases "pi_outgoing (snd x)")
  case True
  have uniq: "x \<notin> set (a @ b)"
    using out_peers_distinct [OF inv] True by (auto simp: split)
  have "net_inv ((fold proxy_close_connection [pi_conn_id (snd x)] s)\<lparr>peers := a @ b\<rparr>)"
  proof (rule net_inv_close [OF inv])
    show "subseq (a @ b) (peers s)" by (simp add: split list_emb_Cons subseq_append')
    show "i \<in> set [pi_conn_id (snd x)] \<longleftrightarrow> (\<exists>kp. kp \<in> set (peers s) \<and> kp \<notin> set (a @ b) \<and> pi_outgoing (snd kp) \<and> pi_conn_id (snd kp) = i)" for i
    proof
      assume "i \<in> set [pi_conn_id (snd x)]"
      then show "\<exists>kp. kp \<in> set (peers s) \<and> kp \<notin> set (a @ b) \<and> pi_outgoing (snd kp) \<and> pi_conn_id (snd kp) = i"
        using uniq True by (intro exI [of _ x]) (simp add: split)
    next
      assume "\<exists>kp. kp \<in> set (peers s) \<and> kp \<notin> set (a @ b) \<and> pi_outgoing (snd kp) \<and> pi_conn_id (snd kp) = i"
      then obtain kp where "kp \<in> set (a @ x # b)" "kp \<notin> set (a @ b)" "pi_conn_id (snd kp) = i" unfolding split by blast
      then show "i \<in> set [pi_conn_id (snd x)]" by auto
    qed
  qed
  then show ?thesis using True by simp
next
  case False
  have "net_inv ((fold proxy_close_connection [] s)\<lparr>peers := a @ b\<rparr>)"
  proof (rule net_inv_close [OF inv])
    show "subseq (a @ b) (peers s)" by (simp add: split list_emb_Cons subseq_append')
    have "kp \<in> set (a @ b)" if "kp \<in> set (peers s)" "pi_outgoing (snd kp)" for kp
      using that False by (auto simp: split)
    then show "i \<in> set [] \<longleftrightarrow> (\<exists>kp. kp \<in> set (peers s) \<and> kp \<notin> set (a @ b) \<and> pi_outgoing (snd kp) \<and> pi_conn_id (snd kp) = i)" for i
      by fastforce
  qed
  then show ?thesis using False by simp
qed

lemma find_erase_first:
  assumes "List.find P xs = Some x"
  obtains a b where "xs = a @ x # b" "erase_first P xs = a @ b" "P x" "\<forall>y \<in> set a. \<not> P y"
proof -
  have "\<exists>a b. xs = a @ x # b \<and> erase_first P xs = a @ b \<and> P x \<and> (\<forall>y \<in> set a. \<not> P y)"
    using assms
  proof (induction xs)
    case (Cons y xs)
    show ?case
    proof (cases "P y")
      case True
      then show ?thesis using Cons.prems by (intro exI [of _ "[]"] exI [of _ xs]) simp
    next
      case False
      then obtain a b where "xs = a @ x # b \<and> erase_first P xs = a @ b \<and> P x \<and> (\<forall>y \<in> set a. \<not> P y)"
        using Cons by auto
      then show ?thesis using False by - (rule exI [of _ "y # a"], rule exI [of _ b], auto)
    qed
  qed simp
  then show ?thesis using that by blast
qed

lemma find_none_erase_first: "List.find P xs = None \<Longrightarrow> erase_first P xs = xs"
  by (induction xs) (auto split: if_splits)

lemma net_inv_disconnect: "net_inv s \<Longrightarrow> net_inv (proxy_disconnect conn s)"
proof -
  assume inv: "net_inv s"
  let ?P = "\<lambda>kp. conn_eq (fst kp) conn \<and> pi_outgoing (snd kp)"
  show ?thesis
  proof (cases "List.find ?P (peers s)")
    case None
    then show ?thesis using inv by (simp add: proxy_disconnect_def)
  next
    case (Some x)
    then obtain a b where x: "peers s = a @ x # b" "erase_first ?P (peers s) = a @ b" "?P x"
      by (rule find_erase_first)
    have "proxy_disconnect conn s = (proxy_close_connection (pi_conn_id (snd x)) s)\<lparr>peers := a @ b\<rparr>"
      using Some x(2) by (simp add: proxy_disconnect_def Let_def case_prod_unfold)
    then show ?thesis using net_inv_drop_one [OF inv x(1)] x(3) by simp
  qed
qed

section \<open>Sending and replying\<close>

declare reply_loop.simps [simp del]

lemma net_inv_peer_conn:
  assumes "net_inv s" "(k, p) \<in> set (peers s)"
  shows "\<exists>sk. map_of (connections s) (pi_conn_id p) = Some sk \<and> sk \<noteq> null_sock \<and> (is_router sk \<longleftrightarrow> \<not> pi_outgoing p)"
proof -
  note ci = net_inv_conn [OF assms(1)]
  obtain sk where sk: "(pi_conn_id p, sk) \<in> set (connections s)" "is_router sk \<longleftrightarrow> pi_route p \<noteq> []"
    using conn_inv_peer [OF ci pcore_mem [OF assms(2)]] by blast
  then show ?thesis using conn_inv_sock [OF ci sk(1)] conn_inv_distinct(1) [OF ci] by (auto simp: pi_outgoing_def)
qed

lemma connections_index_peer: "net_inv s \<Longrightarrow> (k, p) \<in> set (peers s) \<Longrightarrow> connections_index (pi_conn_id p) s = s"
  using net_inv_peer_conn [of s k p] by (auto simp: connections_index_def)

lemma reply_loop_step:
  assumes "i \<noteq> stop" "i < length (peers s)" "x = peers s ! i"
    and "send_message_parts e n (pi_conn_id (snd x)) (build_send_parts parts (pi_route (snd x)))
      (connections_index (pi_conn_id (snd x)) s) = (r, u)"
  shows "reply_loop e parts n i stop s =
    (case r of
       send_error err \<Rightarrow>
         if err = EHOSTUNREACH then
           (let v = (if pi_outgoing (snd x) then proxy_close_connection (pi_conn_id (snd x)) u else u)\<lparr>peers := remove_at i (peers s)\<rparr>;
                stop' = (if i < stop then stop - 1 else stop)
            in if pi_outgoing (snd x) then
                 (if i = length (peers v) then None else reply_loop e parts (Suc n) (Suc i) stop' v)
               else reply_loop e parts (Suc n) i stop' v)
         else reply_loop e parts (Suc n) (Suc i) stop u
     | _ \<Rightarrow> Some u)"
proof -
  have "peers u = peers s" using peers_send_parts_eq [OF assms(4) [symmetric]] by simp
  then show ?thesis using assms
    by (subst reply_loop.simps) (simp add: Let_def split: send_result.split)
qed

lemma net_inv_reply_loop:
  "net_inv s \<Longrightarrow> reply_loop e parts n i stop s = Some t \<Longrightarrow> net_inv t"
proof (induction "length (peers s) - i" arbitrary: n i stop s rule: less_induct)
  case less
  show ?case
  proof (cases "i = stop \<or> length (peers s) \<le> i")
    case True
    then show ?thesis using less.prems by (auto simp: reply_loop.simps [of e parts n i stop s] split: if_splits)
  next
    case False
    define x where "x = peers s ! i"
    have i: "i \<noteq> stop" "i < length (peers s)" using False by auto
    have split: "peers s = take i (peers s) @ x # drop (Suc i) (peers s)"
      using i by (simp add: x_def id_take_nth_drop)
    have "x \<in> set (peers s)" using i by (simp add: x_def)
    then have idx: "connections_index (pi_conn_id (snd x)) s = s"
      using connections_index_peer [OF less.prems(1), of "fst x" "snd x"] by simp
    obtain r u where m: "send_message_parts e n (pi_conn_id (snd x)) (build_send_parts parts (pi_route (snd x))) s = (r, u)"
      by fastforce
    note u = send_parts_fields [OF m]
    have inv_u: "net_inv u" by (rule net_inv_cong [OF less.prems(1) u(1)])
    define v where "v = (if pi_outgoing (snd x) then proxy_close_connection (pi_conn_id (snd x)) u else u)\<lparr>peers := remove_at i (peers s)\<rparr>"
    have inv_v: "net_inv v" unfolding v_def remove_at_def
      by (rule net_inv_drop_one [OF inv_u]) (simp add: u(2) split [symmetric])
    have len: "length (peers v) = length (peers s) - 1" using i by (simp add: v_def length_remove_at)
    have "send_message_parts e n (pi_conn_id (snd x)) (build_send_parts parts (pi_route (snd x)))
      (connections_index (pi_conn_id (snd x)) s) = (r, u)" using m idx by simp
    note step = reply_loop_step [OF i x_def this]
    have next_v: "net_inv t" if "reply_loop e parts (Suc n) j stop' v = Some t" "j = i \<or> j = Suc i" for j stop'
      by (rule less.hyps [OF _ inv_v that(1)]) (use that(2) i len in auto)
    have next_u: "net_inv t" if "reply_loop e parts (Suc n) (Suc i) stop u = Some t"
      by (rule less.hyps [OF _ inv_u that]) (use i u(2) in auto)
    show ?thesis
    proof (cases r)
      case (send_error err)
      show ?thesis
      proof (cases "err = EHOSTUNREACH")
        case True
        then show ?thesis using less.prems(2) next_v unfolding step send_error
          by (simp add: Let_def v_def [symmetric] split: if_splits)
      next
        case False
        then show ?thesis using less.prems(2) next_u unfolding step send_error by simp
      qed
    qed (use less.prems(2) inv_u in \<open>simp_all add: step\<close>)
  qed
qed

lemma upd_first_map: "(\<And>x. f (g x) = f x) \<Longrightarrow> map f (upd_first P g xs) = map f xs"
  by (induction xs) auto

lemma pcore_emplace:
  "mset (map pcore (mm_emplace conn_eq k p ps)) = add_mset (k, pi_conn_id p, pi_route p, pi_pubkey p) (mset (map pcore ps))"
  by (induction ps) (auto simp: pcore_def)

lemma fst_pcore [simp]: "fst \<circ> pcore = fst"
  by (simp add: fun_eq_iff pcore_def)

lemma grouped_pcore_emplace: "net_inv s \<Longrightarrow> grouped conn_eq (map fst (map pcore (mm_emplace conn_eq k p (peers s))))"
  using conn_inv_grouped [OF net_inv_conn, of s] ck.grouped_emplace by simp

lemma net_inv_fresh: "net_inv s \<Longrightarrow> next_conn_id s \<notin> fst ` set (connections s)"
    "net_inv s \<Longrightarrow> 0 < next_conn_id s" "net_inv s \<Longrightarrow> next_conn_id s \<notin> set (map pn_conn_id (pending_connects s))"
  using conn_inv_sock [OF net_inv_conn] conn_inv_next [OF net_inv_conn] conn_inv_pending(1) [OF net_inv_conn] by fastforce+

lemma connections_index_id: "map_of (connections s) c \<noteq> None \<Longrightarrow> connections_index c s = s"
  by (simp add: connections_index_def)

lemma net_inv_add_out:
  assumes inv: "net_inv s" and fresh: "i \<notin> fst ` set (connections s)" "0 < i" "i < N'" "next_conn_id s \<le> N'"
    and sk: "sk \<noteq> null_sock" "\<not> is_router sk"
    and p: "pi_conn_id p = i" "pi_outgoing p" "key_ok (k, i, [], pi_pubkey p)"
    and Q': "distinct Q'" "\<And>j. j \<in> set Q' \<Longrightarrow> j \<in> set (map pn_conn_id (pending_connects s)) \<or> j = i" "conn_sn k \<Longrightarrow> i \<notin> set Q'"
    and D': "D' = (if conn_sn k then outgoing_sn_conns s @ [(i, k)] else outgoing_sn_conns s)"
  shows "conn_inv (connections s @ [(i, sk)]) (map pcore (mm_emplace conn_eq k p (peers s))) D' N' Q'"
proof (rule conn_inv_add_out [OF net_inv_conn [OF inv] fresh sk])
  show "mset (map pcore (mm_emplace conn_eq k p (peers s))) = add_mset (k, i, [], pi_pubkey p) (mset (map pcore (peers s)))"
    using p(1,2) by (simp only: pcore_emplace pi_outgoing_def)
  show "grouped conn_eq (map fst (map pcore (mm_emplace conn_eq k p (peers s))))" by (rule grouped_pcore_emplace [OF inv])
qed (use p(3) Q' D' in auto)

text \<open>Connecting to a service node: an existing peer is reused, or a new one is made.\<close>

lemma connect_sn_cases [consumes 1]:
  assumes "length remote = 32"
  obtains
    (reused) k p where "List.find (sn_peer_ok (conn_of SN_ID remote []) incoming outgoing) (peers s) = Some (k, p)"
      "proxy_connect_sn e remote hint optional incoming outgoing eph keep s =
        (Some (pi_conn_id p, pi_route p), connections_index (pi_conn_id p)
          (if pi_outgoing p then s\<lparr>peers := upd_first (sn_peer_ok (conn_of SN_ID remote []) incoming outgoing)
             (\<lambda>(k, p). (k, peer_activity e (if pi_idle_expiry p < keep then p\<lparr>pi_idle_expiry := keep\<rparr> else p))) (peers s)\<rparr> else s))"
  | (refused) "List.find (sn_peer_ok (conn_of SN_ID remote []) incoming outgoing) (peers s) = None"
    "proxy_connect_sn e remote hint optional incoming outgoing eph keep s = (None, s)"
  | (made) addr where "List.find (sn_peer_ok (conn_of SN_ID remote []) incoming outgoing) (peers s) = None"
    "\<not> optional" "\<not> incoming"
    "proxy_connect_sn e remote hint optional incoming outgoing eph keep s =
      (Some (next_conn_id s, []),
       s\<lparr>peers := mm_emplace conn_eq (conn_of SN_ID remote [])
           (new_peer\<lparr>pi_service_node := True, pi_pubkey := remote, pi_conn_id := next_conn_id s, pi_idle_expiry := keep, pi_last_activity := now e\<rparr>) (peers s),
         next_conn_id := next_conn_id s + 1, connections_updated := True,
         outgoing_sn_conns := outgoing_sn_conns s @ [(next_conn_id s, conn_of SN_ID remote [])],
         connections := connections s @ [(next_conn_id s, setup_outgoing_socket addr remote eph s)]\<rparr>)"
proof (cases "List.find (sn_peer_ok (conn_of SN_ID remote []) incoming outgoing) (peers s)")
  case (Some kp)
  obtain k p where "kp = (k, p)" by fastforce
  then show ?thesis using Some assms that(1) by (simp add: proxy_connect_sn_def conn_of_pubkey_def Let_def)
next
  case None
  let ?addr = "if hint = [] then sn_lookup e remote else hint"
  show ?thesis
  proof (cases "optional \<or> incoming \<or> ?addr = [] \<or> zmq_connect e ?addr remote eph \<noteq> None")
    case True
    have "proxy_connect_sn e remote hint optional incoming outgoing eph keep s = (None, s)"
      using True None assms by (auto simp: proxy_connect_sn_def conn_of_pubkey_def Let_def)
    then show ?thesis using None that(2) by blast
  next
    case False
    then have "zmq_connect e ?addr remote eph = None" "?addr \<noteq> []" "\<not> optional" "\<not> incoming" by blast+
    then show ?thesis
      using None assms by (intro that(3) [of ?addr]) (simp_all add: proxy_connect_sn_def conn_of_pubkey_def Let_def)
  qed
qed

lemma net_inv_connect_sn:
  assumes inv: "net_inv s" and len: "length remote = 32"
  shows "net_inv (snd (proxy_connect_sn e remote hint optional incoming outgoing eph keep s))"
  using len
proof (cases rule: connect_sn_cases [where incoming = incoming and outgoing = outgoing and s = s and e = e
    and hint = hint and optional = optional and eph = eph and keep = keep])
  case (reused k p)
  let ?t = "if pi_outgoing p then s\<lparr>peers := upd_first (sn_peer_ok (conn_of SN_ID remote []) incoming outgoing)
     (\<lambda>(k, p). (k, peer_activity e (if pi_idle_expiry p < keep then p\<lparr>pi_idle_expiry := keep\<rparr> else p))) (peers s)\<rparr> else s"
  have "map pcore (peers ?t) = map pcore (peers s)"
    by (simp add: upd_first_map pcore_def peer_activity_def case_prod_unfold)
  then have t: "conns_of ?t = conns_of s" by (simp add: conns_of_def)
  have "(k, p) \<in> set (peers s)" using reused(1) by (auto simp: find_Some_iff)
  then have "map_of (connections ?t) (pi_conn_id p) \<noteq> None"
    using net_inv_peer_conn [OF inv] by (cases "pi_outgoing p") fastforce+
  then have "connections_index (pi_conn_id p) ?t = ?t" by (rule connections_index_id)
  then show ?thesis using net_inv_cong [OF inv t] reused(2) by simp
next
  case refused
  then show ?thesis using inv by simp
next
  case (made addr)
  let ?k = "conn_of SN_ID remote []"
  have "conn_inv (connections s @ [(next_conn_id s, setup_outgoing_socket addr remote eph s)])
      (map pcore (mm_emplace conn_eq ?k (new_peer\<lparr>pi_service_node := True, pi_pubkey := remote,
         pi_conn_id := next_conn_id s, pi_idle_expiry := keep, pi_last_activity := now e\<rparr>) (peers s)))
      (outgoing_sn_conns s @ [(next_conn_id s, ?k)]) (next_conn_id s + 1) (map pn_conn_id (pending_connects s))"
    by (rule net_inv_add_out [OF inv])
      (use net_inv_fresh [OF inv] len conn_inv_distinct(3) [OF net_inv_conn [OF inv]] in
        \<open>auto simp: key_ok_def conn_sn_def conn_of_def new_peer_def pi_outgoing_def setup_outgoing_socket_def is_router_def\<close>)
  then show ?thesis using inv made(4) by (simp add: net_inv_def)
qed

text \<open>Connecting to a remote.\<close>

lemma net_inv_connect_remote:
  assumes inv: "net_inv s"
    and fresh: "i \<notin> fst ` set (connections s)" "0 < i" "i < next_conn_id s" "i \<notin> set (map pn_conn_id (pending_connects s))"
    and hi: "\<And>err. zmq_send e 0 i [''HI''] \<noteq> send_error err"
  shows "net_inv (proxy_connect_remote e i remote pk lvl ok fail timeout eph s)"
proof (cases "zmq_connect e remote pk eph")
  case (Some err)
  then show ?thesis
    by (intro net_inv_cong [OF inv] conns_of_more) (simp add: proxy_connect_remote_def)
next
  case None
  let ?sk = "setup_outgoing_socket remote pk eph s"
  let ?p = "new_peer\<lparr>pi_pubkey := pk, pi_service_node := False, pi_auth_level := lvl, pi_conn_id := i,
      pi_idle_expiry := 24 * 10 * 365 * 3600000, pi_last_activity := now e\<rparr>"
  let ?s = "s\<lparr>connections := connections s @ [(i, ?sk)], connections_updated := True\<rparr>"
  have absent: "map_of (connections s) i = None" using fresh(1) by (simp add: map_of_eq_None_iff)
  have hi_parts: "send_direct_message ''HI'' [] = [''HI'']" by (simp add: send_direct_message_def)
  obtain r t where m: "send_message_parts e 0 i [''HI''] ?s = (r, t)" by fastforce
  have present: "map_of (connections ?s) i = Some ?sk" using absent by (simp add: map_add_def)
  have r: "\<forall>err. r \<noteq> send_error err" using m hi unfolding send_message_parts_def present
    by (auto simp: setup_outgoing_socket_def split: send_result.splits)
  note t = send_parts_fields [OF m]
  have eq: "proxy_connect_remote e i remote pk lvl ok fail timeout eph s =
      t\<lparr>pending_connects := pending_connects t @ [\<lparr>pn_conn_id = i, pn_expiry = now e + ms timeout, pn_on_connect = ok, pn_on_failure = fail\<rparr>],
        peers := mm_emplace conn_eq (conn_of i pk []) ?p (peers t)\<rparr>"
    using m r absent None by (simp add: proxy_connect_remote_def hi_parts split: send_result.splits)
  have "conn_inv (connections s @ [(i, ?sk)]) (map pcore (mm_emplace conn_eq (conn_of i pk []) ?p (peers s)))
      (outgoing_sn_conns s) (next_conn_id s) (map pn_conn_id (pending_connects s) @ [i])"
    by (rule net_inv_add_out [OF inv fresh(1-3)])
      (use fresh conn_inv_distinct(3) [OF net_inv_conn [OF inv]] in
        \<open>auto simp: key_ok_def conn_sn_def conn_of_def SN_ID_def new_peer_def pi_outgoing_def setup_outgoing_socket_def is_router_def\<close>)
  then show ?thesis using inv t unfolding eq by (simp add: net_inv_def conns_of_def)
qed

text \<open>Listeners.\<close>

lemma net_inv_bind:
  assumes inv: "net_inv s" and "proxy_bind zb i b s = (good, b', call, t)"
  shows "net_inv t"
proof (cases "zb (bd_address b)")
  case True
  then have "t = s\<lparr>next_conn_id := next_conn_id s + 1, connections := connections s @ [(next_conn_id s, setup_incoming_socket (bd_curve b) i)],
      connections_updated := True\<rparr>" using assms(2) by (simp add: proxy_bind_def Let_def)
  then show ?thesis using inv net_inv_fresh [OF inv]
      conn_inv_add_router [OF net_inv_conn [OF inv], of "next_conn_id s" "next_conn_id s + 1" "Some i" "bd_curve b"]
    by (simp add: net_inv_def setup_incoming_socket_def)
next
  case False
  then show ?thesis using assms by (auto simp: proxy_bind_def Let_def)
qed

lemma net_inv_upd_binds [simp]: "net_inv (s\<lparr>binds := bs\<rparr>) \<longleftrightarrow> net_inv s"
  by (simp add: net_inv_def)

lemma net_inv_bind_message: "net_inv s \<Longrightarrow> net_inv (snd (proxy_bind_message zb b s))"
  by (auto simp: proxy_bind_message_def Let_def dest: net_inv_bind split: prod.splits)

text \<open>Sending.\<close>

lemma find_route_some:
  assumes "find_route route rng = Some b"
  shows "rng = [] \<and> \<not> b \<or> rng \<noteq> [] \<and> pi_route (snd (hd rng)) = route \<and> b"
  by (rule find_route.raw_induct [OF _ assms]) (auto split: if_splits)

lemma find_route_none: "find_route route rng = None \<longleftrightarrow> rng \<noteq> [] \<and> pi_route (snd (hd rng)) \<noteq> route"
proof
  assume none: "find_route route rng = None"
  show "rng \<noteq> [] \<and> pi_route (snd (hd rng)) \<noteq> route"
    by (rule ccontr) (use none in \<open>subst (asm) find_route.simps, auto split: if_splits\<close>)
next
  assume "rng \<noteq> [] \<and> pi_route (snd (hd rng)) \<noteq> route"
  then show "find_route route rng = None" using find_route_some [of route rng] by (cases "find_route route rng") auto
qed

lemma net_inv_choose_socket:
  assumes "net_inv s" "conn_sn (sm_conn m) \<Longrightarrow> length (cid_pk (sm_conn m)) = 32"
  shows "net_inv (snd (choose_socket e m s))"
  using assms by (auto simp: choose_socket_def Let_def net_inv_connect_sn split: option.splits)

lemma net_inv_give_up:
  "net_inv s \<Longrightarrow> give_up m err s = attempt_done ok nosend t \<Longrightarrow> net_inv t"
  by (auto simp: give_up_def intro: net_inv_cong split: option.splits)

lemma equal_range_hd:
  assumes "mm_equal_range eq k m \<noteq> []"
  shows "List.find (\<lambda>kp. eq (fst kp) k) m = Some (hd (mm_equal_range eq k m))"
  using assms by (induction m) (auto simp: mm_equal_range_def)

lemma net_inv_erase_incoming:
  assumes inv: "net_inv s"
    and rng: "mm_equal_range conn_eq c (peers s) \<noteq> []" "pi_route (snd (hd (mm_equal_range conn_eq c (peers s)))) \<noteq> []"
  shows "net_inv (s\<lparr>peers := erase_first (\<lambda>kp. conn_eq (fst kp) c) (peers s)\<rparr>)"
proof -
  obtain a b where x: "peers s = a @ hd (mm_equal_range conn_eq c (peers s)) # b"
    "erase_first (\<lambda>kp. conn_eq (fst kp) c) (peers s) = a @ b"
    using find_erase_first [OF equal_range_hd [OF rng(1)]] by metis
  then show ?thesis using net_inv_drop_one [OF inv x(1)] rng(2) by (simp add: pi_outgoing_def)
qed

lemma erase_routed:
  assumes inv: "net_inv s" and c: "\<not> conn_sn c" "cid_route c \<noteq> []"
  shows "erase_first (\<lambda>kp. conn_eq (fst kp) c) (peers s) = peers s"
proof (rule erase_first_none)
  have "\<not> conn_eq k c" if "(k, p) \<in> set (peers s)" for k p
    using conn_inv_key [OF net_inv_conn [OF inv] pcore_mem [OF that]] c
    by (auto simp: key_ok_def conn_eq_def conn_of_def)
  then show "\<not> list_ex (\<lambda>kp. conn_eq (fst kp) c) (peers s)" by (auto simp: list_ex_iff)
qed

definition send_ok_msg :: "send_msg \<Rightarrow> bool" where
  "send_ok_msg m \<longleftrightarrow> (conn_sn (sm_conn m) \<longrightarrow> length (cid_pk (sm_conn m)) = 32)"

lemma choose_socket_route:
  "choose_socket e m s = (Some (sock, route), t) \<Longrightarrow> \<not> conn_sn (sm_conn m) \<Longrightarrow> route \<noteq> [] \<Longrightarrow> cid_route (sm_conn m) \<noteq> []"
  by (auto simp: choose_socket_def Let_def split: if_splits option.splits)

fun attempt_state :: "'a attempt \<Rightarrow> 'a" where
  "attempt_state (attempt_retry s) = s"
| "attempt_state (attempt_done ok nosend s) = s"

lemma net_inv_send_attempt:
  assumes inv: "net_inv s" and m: "send_ok_msg m" and r: "send_attempt e m n s = Some r"
  shows "net_inv (attempt_state r)"
proof -
  obtain c t where c: "choose_socket e m s = (c, t)" by fastforce
  have inv_t: "net_inv t"
    using net_inv_choose_socket [OF inv, of m e] m c by (simp add: send_ok_msg_def)
  have give_up: "net_inv (attempt_state (give_up m err u))" if "net_inv u" for err and u :: "'a net_scheme"
    using that by (auto simp: give_up_def intro: net_inv_cong split: option.splits)
  show ?thesis
  proof (cases c)
    case None
    then show ?thesis using r c inv_t by (auto simp: send_attempt_def)
  next
    case (Some sr)
    obtain sock route where sr: "sr = (sock, route)" by fastforce
    obtain q u where u: "send_message_parts e n sock (build_send_parts (sm_send m) route) t = (q, u)" by fastforce
    have inv_u: "net_inv u" by (rule net_inv_cong [OF inv_t send_parts_fields(1) [OF u]])
    note defs = r [unfolded send_attempt_def c Some sr prod.case option.case u]
    show ?thesis
    proof (cases q)
      case (send_error err)
      note defs = defs [unfolded send_error send_result.case]
      consider (plain) "\<not> (err = EHOSTUNREACH \<and> route \<noteq> [])"
        | (sn) "err = EHOSTUNREACH" "route \<noteq> []" "conn_sn (sm_conn m)"
        | (routed) "err = EHOSTUNREACH" "route \<noteq> []" "\<not> conn_sn (sm_conn m)" by blast
      then show ?thesis
      proof cases
        case plain
        then show ?thesis using defs give_up [OF inv_u] by auto
      next
        case sn
        let ?rng = "mm_equal_range conn_eq (sm_conn m) (peers u)"
        obtain b where b: "find_route route ?rng = Some b"
          using defs sn by (cases "find_route route ?rng") auto
        show ?thesis
        proof (cases b)
          case True
          then show ?thesis using find_route_some [OF b] net_inv_erase_incoming [OF inv_u] defs sn b by auto
        next
          case False
          then show ?thesis using defs sn b give_up [OF inv_u] by auto
        qed
      next
        case routed
        then have "erase_first (\<lambda>kp. conn_eq (fst kp) (sm_conn m)) (peers u) = peers u"
          using choose_socket_route [OF c [unfolded Some sr]] by (intro erase_routed [OF inv_u]) auto
        then show ?thesis using defs routed give_up [OF inv_u] by auto
      qed
    qed (use defs inv_u in auto)
  qed
qed

text \<open>What every retry keeps holds before the last iteration.\<close>

lemma send_loop_last:
  fixes s :: "'a net_scheme"
  assumes run: "send_loop e m n s = Some (ok, nosend, t)" and start: "I s"
    and step: "\<And>n s t. I s \<Longrightarrow> send_attempt e m n s = Some (attempt_retry t) \<Longrightarrow> I t"
  shows "\<exists>n s'. I s' \<and> send_attempt e m n s' = Some (attempt_done ok nosend t)"
proof -
  define L where "L = (\<lambda>r. \<exists>n s'. I s' \<and> send_attempt e m n s' = Some (attempt_done (fst r) (fst (snd r)) (snd (snd r))))"
  have "e = e \<longrightarrow> m = m \<longrightarrow> I s \<longrightarrow> L (ok, nosend, t)"
  proof (rule send_loop.raw_induct [OF _ run, where P = "\<lambda>e' m' n s r. e' = e \<longrightarrow> m' = m \<longrightarrow> I s \<longrightarrow> L r"], intro impI)
    fix f :: "env \<Rightarrow> send_msg \<Rightarrow> nat \<Rightarrow> 'a net_scheme \<Rightarrow> (bool \<times> nat option \<times> 'a net_scheme) option"
      and e' m' n' s' r'
    assume ih: "\<And>e' m' n s r. f e' m' n s = Some r \<Longrightarrow> e' = e \<longrightarrow> m' = m \<longrightarrow> I s \<longrightarrow> L r"
      and eq: "Option.bind (send_attempt e' m' n' s') (\<lambda>r. case r of attempt_retry s \<Rightarrow> f e' m' (Suc n') s
         | attempt_done ok nosend s \<Rightarrow> Some (ok, nosend, s)) = Some r'"
      and "e' = e" "m' = m" "I s'"
    then obtain q where q: "send_attempt e m n' s' = Some q"
      "(case q of attempt_retry s \<Rightarrow> f e m (Suc n') s | attempt_done ok nosend s \<Rightarrow> Some (ok, nosend, s)) = Some r'"
      by (auto simp: bind_eq_Some_conv)
    show "L r'"
    proof (cases q)
      case (attempt_retry u)
      then have "I u" using step [OF \<open>I s'\<close>] q(1) by simp
      then show ?thesis using q(2) ih attempt_retry by auto
    next
      case (attempt_done a b u)
      then show ?thesis using q \<open>I s'\<close> unfolding L_def by (intro exI [of _ n'] exI [of _ s']) auto
    qed
  qed
  then show ?thesis using start by (simp add: L_def)
qed

lemma net_inv_send_loop:
  assumes "send_loop e m n s = Some (ok, nosend, t)" "net_inv s" "send_ok_msg m"
  shows "net_inv t"
proof -
  obtain n' s' where "net_inv s'" "send_attempt e m n' s' = Some (attempt_done ok nosend t)"
    using send_loop_last [OF assms(1), of net_inv] assms(2) net_inv_send_attempt [OF _ assms(3)]
    by (metis attempt_state.simps(1))
  then show ?thesis using net_inv_send_attempt [OF _ assms(3)] by (metis attempt_state.simps(2))
qed

lemma net_inv_after_send: "net_inv s \<Longrightarrow> net_inv (after_send e m ok nosend s)"
  by (auto simp: after_send_def Let_def intro!: net_inv_cong [of s] split: option.splits)

lemma net_inv_proxy_send: "net_inv s \<Longrightarrow> send_ok_msg m \<Longrightarrow> proxy_send e m s = Some t \<Longrightarrow> net_inv t"
  by (auto simp: proxy_send_def intro: net_inv_after_send net_inv_send_loop)

lemma net_inv_proxy_reply: "net_inv s \<Longrightarrow> proxy_reply e c parts s = Some t \<Longrightarrow> net_inv t"
  by (auto simp: proxy_reply_def split: option.splits intro: net_inv_reply_loop)

section \<open>Incoming messages\<close>

lemma net_inv_pending: "net_inv s \<Longrightarrow> subseq pcs (pending_connects s) \<Longrightarrow> net_inv (s\<lparr>pending_connects := pcs\<rparr>)"
  by (rule net_inv_drop [of s "peers s" "{}"]) auto

lemma net_inv_more: "net_inv s \<Longrightarrow> pool.more t = pool.more s \<Longrightarrow> net_inv t"
  by (erule net_inv_cong) (rule conns_of_more)

lemma net_inv_schedule: "net_inv s \<Longrightarrow> net_inv (proxy_schedule_reply_job f s)"
  by (rule net_inv_more [of s]) simp_all

lemma net_inv_upd_requests [simp]: "net_inv (s\<lparr>pending_requests := rs\<rparr>) \<longleftrightarrow> net_inv s"
  by (simp add: net_inv_def)

lemma net_inv_finish_request: "net_inv s \<Longrightarrow> net_inv (finish_request tag success data s)"
  by (simp add: finish_request_def Let_def net_inv_schedule split: option.splits)

lemma net_inv_hello: "net_inv s \<Longrightarrow> net_inv (handle_hello conn_id s)"
  by (auto simp: handle_hello_def Let_def intro!: net_inv_pending net_inv_schedule subseq_erase_first split: option.splits)

definition is_bye :: "int \<Rightarrow> string list \<Rightarrow> 'a net_scheme \<Rightarrow> bool" where
  "is_bye conn_id parts s \<longleftrightarrow> \<not> (case map_of (connections s) conn_id of Some k \<Rightarrow> is_router k | None \<Rightarrow> False)
     \<and> parts \<noteq> [] \<and> hd parts = ''BYE''"

lemma net_inv_if:
  "(c \<Longrightarrow> net_inv (snd x)) \<Longrightarrow> (\<not> c \<Longrightarrow> net_inv (snd y)) \<Longrightarrow> net_inv (snd (if c then x else y))"
  "(c \<Longrightarrow> net_inv s) \<Longrightarrow> (\<not> c \<Longrightarrow> net_inv t) \<Longrightarrow> net_inv (snd (b, if c then s else t))"
  "(c \<Longrightarrow> net_inv s) \<Longrightarrow> (\<not> c \<Longrightarrow> net_inv t) \<Longrightarrow> net_inv (if c then s else t)"
  by simp_all

lemma net_inv_builtin:
  assumes inv: "net_inv s" and bye: "\<not> is_bye conn_id parts s"
  shows "net_inv (snd (proxy_handle_builtin e conn_id parts s))"
proof -
  define inc where "inc = (case map_of (connections s) conn_id of Some k \<Rightarrow> is_router k | None \<Rightarrow> False)"
  define body where "body = (if inc then tl parts else parts)"
  have close: "inc" if "\<not> (parts = [] \<or> body = [])" "hd body = ''BYE''"
    using bye that unfolding is_bye_def inc_def [symmetric] body_def by (cases inc) simp_all
  have send: "net_inv (snd (send_message_parts e n c ps s))" for n c ps
    by (rule net_inv_cong [OF inv]) simp
  show ?thesis
    unfolding proxy_handle_builtin_def Let_def inc_def [symmetric] body_def [symmetric]
    by (intro net_inv_if; (simp only: snd_conv)?; (intro inv net_inv_finish_request net_inv_hello send)?; (drule (1) close, blast))
qed

lemma conns_of_upd_peer:
  assumes "\<And>k p. pcore (k, f p) = pcore (k, p)"
  shows "conns_of (upd_peer i f s) = conns_of s"
proof -
  let ?x = "peers s ! i"
  have "map pcore (peers (upd_peer i f s)) = (map pcore (peers s))[i := pcore (fst ?x, snd ?x)]"
    by (simp add: upd_peer_def map_update assms)
  also have "\<dots> = map pcore ((peers s)[i := ?x])" by (simp only: map_update prod.collapse)
  finally have "map pcore (peers (upd_peer i f s)) = map pcore (peers s)" by (simp only: list_update_id)
  then show ?thesis by (simp add: conns_of_def upd_peer_def)
qed

lemma conns_of_check_dispatch [simp]: "conns_of (snd (check_and_dispatch e c out p route parts remote s)) = conns_of s"
proof -
  obtain ok t where a: "proxy_check_auth e c out p (hd parts) (snd (get_command s (hd parts))) (tl parts) s = (ok, t)" by fastforce
  have "conns_of t = conns_of s"
    using a by (auto simp: proxy_check_auth_def Let_def split: option.splits)
  then show ?thesis using a
    by (auto simp: check_and_dispatch_def Let_def case_prod_unfold conns_of_more [OF more_dispatch] split: option.splits)
qed

lemma find_index_some: "find_index P xs = Some i \<Longrightarrow> i < length xs \<and> P (xs ! i) \<and> (\<forall>j < i. \<not> P (xs ! j))"
proof -
  assume "find_index P xs = Some i"
  then obtain js where js: "filter (\<lambda>i. P (xs ! i)) [0..<length xs] = i # js"
    by (auto simp: find_index_def split: list.splits)
  then have "i \<in> set (filter (\<lambda>i. P (xs ! i)) [0..<length xs])" by simp
  then have i: "i < length xs" "P (xs ! i)" by auto
  have "i \<le> j" if "j < length xs" "P (xs ! j)" for j
  proof -
    have "j \<in> set (filter (\<lambda>i. P (xs ! i)) [0..<length xs])" using that by simp
    then show ?thesis using sorted_filter [of "\<lambda>x. x" "[0..<length xs]" "\<lambda>i. P (xs ! i)"] unfolding js by auto
  qed
  then show ?thesis using i by (meson leD less_trans)
qed

lemma net_inv_incoming_sender:
  assumes inv: "net_inv s" and conn: "map_of (connections s) conn_id = Some sk" "is_router sk" "hd (wm_parts m) \<noteq> []"
    and own: "length (omq_pubkey s) = 32"
    and eq: "incoming_sender oc conn_id m s = (p, route, t)"
  shows "net_inv t"
proof -
  define tmp where "tmp = incoming_tmp oc conn_id m s"
  have tmp: "pi_conn_id tmp = conn_id" "pi_route tmp \<noteq> []" "pi_service_node tmp \<Longrightarrow> length (pi_pubkey tmp) = 32"
    using conn(3) own by (auto simp: tmp_def incoming_tmp_def Let_def new_peer_def split: prod.splits)
  let ?k = "conn_of SN_ID (pi_pubkey tmp) []"
  let ?P = "\<lambda>kp. conn_eq (fst kp) ?k \<and> pi_conn_id (snd kp) = conn_id \<and> pi_route (snd kp) = pi_route tmp"
  note eq = eq [unfolded incoming_sender_def Let_def tmp_def [symmetric]]
  show ?thesis
  proof (cases "pi_service_node tmp")
    case False
    then show ?thesis using eq inv by simp
  next
    case True
    show ?thesis
    proof (cases "find_index ?P (peers s)")
      case (Some i)
      then have "t = upd_peer i (\<lambda>p. p\<lparr>pi_auth_level := pi_auth_level tmp, pi_service_node := True\<rparr>) s"
        using eq True by simp
      then show ?thesis using inv by (auto intro!: net_inv_cong [OF inv] conns_of_upd_peer simp: pcore_def)
    next
      case None
      then have t: "t = s\<lparr>peers := mm_emplace conn_eq ?k tmp (peers s)\<rparr>" using eq True by auto
      have "conn_inv (connections s) (map pcore (mm_emplace conn_eq ?k tmp (peers s))) (outgoing_sn_conns s)
          (next_conn_id s) (map pn_conn_id (pending_connects s))"
      proof (rule conn_inv_add_in [OF net_inv_conn [OF inv] map_of_SomeD [OF conn(1)] conn(2) tmp(2)])
        show "mset (map pcore (mm_emplace conn_eq ?k tmp (peers s)))
            = add_mset (?k, conn_id, pi_route tmp, pi_pubkey tmp) (mset (map pcore (peers s)))"
          by (simp only: pcore_emplace tmp(1))
        show "grouped conn_eq (map fst (map pcore (mm_emplace conn_eq ?k tmp (peers s))))"
          by (rule grouped_pcore_emplace [OF inv])
        show "key_ok (?k, conn_id, pi_route tmp, pi_pubkey tmp)" using tmp(3) True by (simp add: key_ok_def)
      qed
      then show ?thesis using inv by (simp add: t net_inv_def)
    qed
  qed
qed

lemma net_inv_to_worker:
  assumes inv: "net_inv s" and route: "\<And>sk. map_of (connections s) conn_id = Some sk \<Longrightarrow> is_router sk \<Longrightarrow> hd (wm_parts m) \<noteq> []"
    and conn: "conn_id \<in> fst ` set (connections s)" and own: "length (omq_pubkey s) = 32"
  shows "net_inv (proxy_to_worker oc e conn_id m s)"
proof -
  obtain sk where sk: "map_of (connections s) conn_id = Some sk" using conn by (metis map_of_eq_None_iff not_None_eq)
  then have "sk \<noteq> null_sock" using conn_inv_sock [OF net_inv_conn [OF inv] map_of_SomeD] by blast
  show ?thesis
  proof (cases "is_router sk")
    case True
    obtain p r t where eq: "incoming_sender oc conn_id m s = (p, r, t)" by (metis prod_cases3)
    have "net_inv t" by (rule net_inv_incoming_sender [OF inv sk True route [OF sk True] own eq])
    then have "net_inv (snd (check_and_dispatch e conn_id False p r (tl (wm_parts m)) (get_peer_address (wm_props m)) t))"
      by (rule net_inv_cong) simp
    then show ?thesis using eq sk True by (simp add: proxy_to_worker_def is_router_def split: sock.splits)
  next
    case False
    then obtain a k r where d: "sk = dealer_sock a k r" using \<open>sk \<noteq> null_sock\<close> by (cases sk) (auto simp: is_router_def)
    show ?thesis
    proof (cases "outgoing_sender conn_id s")
      case None
      then show ?thesis using inv sk d by (simp add: proxy_to_worker_def)
    next
      case (Some it)
      obtain i t where it: "it = (i, t)" by fastforce
      have t: "conns_of t = conns_of s"
        using Some it by (auto simp: outgoing_sender_def Let_def pcore_def intro!: conns_of_upd_peer)
      obtain ran u where u: "check_and_dispatch e conn_id True (snd (peers t ! i)) [] (wm_parts m) (get_peer_address (wm_props m)) t = (ran, u)"
        by fastforce
      then have "conns_of u = conns_of s" using t conns_of_check_dispatch by (metis snd_conv)
      moreover have "conns_of (upd_peer i (peer_activity e) u) = conns_of u"
        by (rule conns_of_upd_peer) (simp add: pcore_def peer_activity_def)
      ultimately show ?thesis using sk d Some it u by (auto intro!: net_inv_cong [OF inv] simp: proxy_to_worker_def)
    qed
  qed
qed

section \<open>Reachable states\<close>

text \<open>
  A state in which the proxy may start, and the operations of the proxy on its connections. The identifier of
  a connection to a remote is taken by the caller (\<open>reserve\<close>) before the proxy hears of it. \<open>wire_ok\<close> is what
  libzmq guarantees of a received message: it came from an open socket, and a router socket puts the
  non-empty identity of the peer in front. The \<^verbatim>\<open>BYE\<close> command on an outgoing connection is left out: see
  \<open>bye_kills_proxy\<close>.
\<close>

definition net_start :: "'a net_scheme \<Rightarrow> bool" where
  "net_start s \<longleftrightarrow> connections s = [] \<and> peers s = [] \<and> outgoing_sn_conns s = [] \<and> 0 < next_conn_id s
     \<and> pending_connects s = [] \<and> \<not> proxy_died s"

definition wire_ok :: "int \<Rightarrow> string list \<Rightarrow> 'a net_scheme \<Rightarrow> bool" where
  "wire_ok conn_id parts s \<longleftrightarrow>
     (case map_of (connections s) conn_id of None \<Rightarrow> False | Some sk \<Rightarrow> is_router sk \<longrightarrow> parts \<noteq> [] \<and> hd parts \<noteq> [])"

inductive net_step :: "'a net_scheme \<Rightarrow> 'a net_scheme \<Rightarrow> bool" where
  send: "send_ok_msg m \<Longrightarrow> proxy_send e m s = Some t \<Longrightarrow> net_step s t"
| reply: "proxy_reply e c parts s = Some t \<Longrightarrow> net_step s t"
| connect_sn: "length pk = 32 \<Longrightarrow> net_step s (snd (proxy_connect_sn e pk hint optional incoming outgoing eph keep s))"
| reserve: "net_step s (s\<lparr>next_conn_id := next_conn_id s + 1\<rparr>)"
| connect_remote: "i \<notin> fst ` set (connections s) \<Longrightarrow> 0 < i \<Longrightarrow> i < next_conn_id s \<Longrightarrow>
    i \<notin> set (map pn_conn_id (pending_connects s)) \<Longrightarrow> (\<And>err. zmq_send e 0 i [''HI''] \<noteq> send_error err) \<Longrightarrow>
    net_step s (proxy_connect_remote e i remote pk lvl on_connect on_failure timeout eph s)"
| disconnect: "net_step s (proxy_disconnect c s)"
| bind: "net_step s (snd (proxy_bind_message zb b s))"
| cleanup: "net_step s (proxy_conn_cleanup e s)"
| builtin: "wire_ok conn_id parts s \<Longrightarrow> \<not> is_bye conn_id parts s \<Longrightarrow> net_step s (snd (proxy_handle_builtin e conn_id parts s))"
| message: "wire_ok conn_id (wm_parts m) s \<Longrightarrow> length (omq_pubkey s) = 32 \<Longrightarrow> net_step s (proxy_to_worker oc e conn_id m s)"
| set_sns: "net_step s (proxy_set_active_sns pks s)"
| update_sns: "net_step s (proxy_update_active_sns added removed s)"
| pool: "pool.more t = pool.more s \<Longrightarrow> net_step s t"

definition reachable_net :: "'a net_scheme \<Rightarrow> bool" where
  "reachable_net s \<longleftrightarrow> (\<exists>s0 zb s1. net_start s0 \<and> snd (init_connections zb s0) = Inr s1 \<and> net_step\<^sup>*\<^sup>* s1 s)"

lemma net_start_inv: "net_start s \<Longrightarrow> net_inv s"
  by (simp add: net_start_def net_inv_def conn_inv_def out_ids_def)

lemma net_inv_bind_all: "net_inv s \<Longrightarrow> bind_all zb i bs s = (bs', calls, Inr t) \<Longrightarrow> net_inv t"
proof (induction bs arbitrary: i s bs' calls t)
  case (Cons b bs)
  obtain good b' call u where u: "proxy_bind zb i b s = (good, b', call, u)" by (metis prod_cases4)
  obtain r1 r2 r3 where r: "bind_all zb (Suc i) bs u = (r1, r2, r3)" by (metis prod_cases3)
  have "net_inv u" by (rule net_inv_bind [OF Cons.prems(1) u])
  then show ?case using Cons.prems(2) u r Cons.IH [of u "Suc i" r1 r2 t] by (auto simp: Let_def split: if_splits)
qed simp

lemma net_inv_init: "net_inv s \<Longrightarrow> snd (init_connections zb s) = Inr t \<Longrightarrow> net_inv t"
proof -
  assume inv: "net_inv s" and t: "snd (init_connections zb s) = Inr t"
  let ?s = "s\<lparr>inproc_listener_connid := next_conn_id s, next_conn_id := next_conn_id s + 1,
      connections := connections s @ [(next_conn_id s, router_sock None False)]\<rparr>"
  have s: "net_inv ?s" using inv net_inv_fresh [OF inv]
      conn_inv_add_router [OF net_inv_conn [OF inv], of "next_conn_id s" "next_conn_id s + 1" None False]
    by (simp add: net_inv_def)
  obtain bs calls r where r: "bind_all zb 0 (binds s) ?s = (bs, calls, r)" by (metis prod_cases3)
  then obtain u where "r = Inr u" "t = u\<lparr>binds := bs, connections_updated := True\<rparr>"
    using t by (auto simp: init_connections_def Let_def split: sum.splits)
  then show ?thesis using net_inv_bind_all [OF s] r by (simp add: net_inv_def)
qed

lemma wire_okD: "wire_ok c parts s \<Longrightarrow> c \<in> fst ` set (connections s)"
    "wire_ok c parts s \<Longrightarrow> map_of (connections s) c = Some sk \<Longrightarrow> is_router sk \<Longrightarrow> hd parts \<noteq> []"
  by (auto simp: wire_ok_def dest!: map_of_SomeD split: option.splits intro: rev_image_eqI)

lemma net_inv_reserve: "net_inv s \<Longrightarrow> net_inv (s\<lparr>next_conn_id := next_conn_id s + 1\<rparr>)"
  by (auto simp: net_inv_def conn_inv_def)

lemma net_step_inv: "net_step s t \<Longrightarrow> net_inv s \<Longrightarrow> net_inv t"
proof (induction rule: net_step.induct)
  case (message conn_id m s oc e)
  then show ?case by (intro net_inv_to_worker) (auto dest: wire_okD)
next
  case (connect_remote i s e remote pk lvl on_connect on_failure timeout eph)
  then show ?case by (intro net_inv_connect_remote) auto
qed (auto intro: net_inv_proxy_send net_inv_proxy_reply net_inv_connect_sn net_inv_reserve
    net_inv_disconnect net_inv_bind_message net_inv_cleanup net_inv_builtin net_inv_sns net_inv_more)

lemma reachable_net_inv: "reachable_net s \<Longrightarrow> net_inv s"
proof -
  have "net_step\<^sup>*\<^sup>* s t \<Longrightarrow> net_inv s \<Longrightarrow> net_inv t" for s t :: "'a net_scheme"
    by (induction rule: rtranclp_induct) (auto intro: net_step_inv)
  then show "reachable_net s \<Longrightarrow> net_inv s" unfolding reachable_net_def by (blast intro: net_start_inv net_inv_init)
qed

text \<open>
  The members of a new \<^verbatim>\<open>OxenMQ\<close>; \<open>threads\<close> is \<^verbatim>\<open>std::thread::hardware_concurrency()\<close>, \<open>sn\<close> and \<open>pk\<close> are the
  arguments of the constructor.
\<close>

definition net_init :: "nat \<Rightarrow> bool \<Rightarrow> string \<Rightarrow> net" where
  "net_init threads sn pk =
     pool.extend (pool_init threads) (net.fields [] [] [] 1 True [] [] [] sn pk [] 0 False [] [] False)"

lemma net_init_sel [simp]:
  "connections (net_init n sn pk) = []" "peers (net_init n sn pk) = []" "outgoing_sn_conns (net_init n sn pk) = []"
  "next_conn_id (net_init n sn pk) = 1" "connections_updated (net_init n sn pk) = True" "pending_connects (net_init n sn pk) = []"
  "pending_requests (net_init n sn pk) = []" "active_service_nodes (net_init n sn pk) = []" "local_service_node (net_init n sn pk) = sn"
  "omq_pubkey (net_init n sn pk) = pk" "binds (net_init n sn pk) = []" "inproc_listener_connid (net_init n sn pk) = 0"
  "EPHEMERAL_ROUTING_ID (net_init n sn pk) = False" "sent (net_init n sn pk) = []" "self_batches (net_init n sn pk) = []"
  "proxy_died (net_init n sn pk) = False" "heap (net_init n sn pk) = Map.empty" "next_ptr (net_init n sn pk) = 1"
  "categories (net_init n sn pk) = []"
  by (simp_all add: net_init_def pool.defs net.defs pool_init_def)

lemma net_start_init: "net_start (net_init n sn pk)"
  by (simp add: net_start_def)

text \<open>An example: the proxy has started and has one connection to a service node.\<close>

definition pk_a :: string where "pk_a = replicate 32 CHR ''a''"

definition example_env :: env where
  "example_env = \<lparr>now = 1000, sn_lookup = (\<lambda>pk. ''tcp://10.0.0.1:22''), zmq_connect = (\<lambda>a k eph. None),
     zmq_send = (\<lambda>n c ps. send_ok)\<rparr>"

definition net_listening :: net where
  "net_listening = (net_init 4 True (replicate 32 CHR ''s''))\<lparr>inproc_listener_connid := 1, next_conn_id := 2,
     connections := [(1, router_sock None False)], binds := [], connections_updated := True\<rparr>"

definition peer_a :: peer_info where
  "peer_a = \<lparr>pi_pubkey = pk_a, pi_service_node = True, pi_auth_level = auth_none, pi_conn_id = 2, pi_route = [],
     pi_last_activity = 1000, pi_idle_expiry = 30000\<rparr>"

definition net_connected :: net where
  "net_connected = net_listening\<lparr>peers := [(conn_of SN_ID pk_a [], peer_a)], next_conn_id := 3,
     outgoing_sn_conns := [(2, conn_of SN_ID pk_a [])],
     connections := [(1, router_sock None False), (2, dealer_sock ''tcp://10.0.0.1:22'' pk_a (Some (CHR ''L'' # replicate 32 CHR ''s'')))]\<rparr>"

lemma length_pk_a [simp]: "length pk_a = 32"
  by (simp add: pk_a_def)

lemma net_listening_reachable: "reachable_net net_listening"
  unfolding reachable_net_def
  by (rule exI [of _ "net_init 4 True (replicate 32 CHR ''s'')"], rule exI [of _ "\<lambda>a. True"], rule exI [of _ net_listening])
    (simp add: net_start_init init_connections_def net_listening_def)

lemma connected_eq: "snd (proxy_connect_sn example_env pk_a [] False False False False 30000 net_listening) = net_connected"
  by (simp add: proxy_connect_sn_def conn_of_pubkey_def Let_def net_listening_def net_connected_def example_env_def new_peer_def
      peer_a_def setup_outgoing_socket_def)

lemma reachable_net_step: "reachable_net s \<Longrightarrow> net_step s t \<Longrightarrow> reachable_net t"
  unfolding reachable_net_def by (meson rtranclp.rtrancl_into_rtrancl)

lemma net_connected_reachable: "reachable_net net_connected"
  by (rule reachable_net_step [OF net_listening_reachable]) (subst connected_eq [symmetric], rule connect_sn, simp)


section \<open>Properties\<close>



lemma map_of_filter_other: "c \<noteq> i \<Longrightarrow> map_of (filter (\<lambda>x. fst x \<noteq> i) xs) c = map_of xs c"
  by (induction xs) auto

lemma close_died: "proxy_died s \<Longrightarrow> proxy_died (fold proxy_close_connection ids s)"
  by (induction ids arbitrary: s) (auto simp: proxy_close_connection_def split: option.splits sock.splits)

lemma close_null_died:
  "map_of (connections s) c = Some null_sock \<Longrightarrow> c \<in> set ids \<Longrightarrow> proxy_died (fold proxy_close_connection ids s)"
proof (induction ids arbitrary: s)
  case (Cons i ids)
  show ?case
  proof (cases "i = c")
    case True
    then have "proxy_died (proxy_close_connection i s)" using Cons.prems by (simp add: proxy_close_connection_def)
    then show ?thesis by (simp add: close_died)
  next
    case False
    then have "map_of (connections (proxy_close_connection i s)) c = Some null_sock"
      using Cons.prems by (auto simp: proxy_close_connection_def map_of_filter_other split: option.splits sock.splits)
    then show ?thesis using Cons False by simp
  qed
qed simp

lemma net_inv_sn_key:
  assumes inv: "net_inv s" and "(k, p) \<in> set (peers s)" "conn_eq k (conn_of SN_ID pk [])"
  shows "length pk = 32 \<and> pi_pubkey p = pk"
proof -
  note ci = net_inv_conn [OF inv]
  have "0 < pi_conn_id p" using conn_inv_peer [OF ci pcore_mem [OF assms(2)]] conn_inv_sock [OF ci] by blast
  then show ?thesis using conn_inv_key [OF ci pcore_mem [OF assms(2)]] assms(3)
    by (auto simp: key_ok_def conn_eq_def conn_sn_def conn_of_def SN_ID_def split: if_splits)
qed

lemma find_upd_first:
  assumes "List.find P xs = Some x" shows "f x \<in> set (upd_first P f xs)"
  using assms by (induction xs) (auto split: if_splits)



end
