(* ===== verification/Net_Send.thy ===== *)
theory Net_Send
  imports Net_Inv
begin

text \<open>
  Sending and replying: when the loop of \<^verbatim>\<open>proxy_send\<close> ends and how often it hands a message to libzmq, when it
  does not end, and to whom \<^verbatim>\<open>proxy_reply\<close> delivers.
\<close>

section \<open>The sending loop ends\<close>

text \<open>No outgoing connection stands in the way when only incoming ones may be used.\<close>

definition clear_way :: "send_msg \<Rightarrow> 'a net_scheme \<Rightarrow> bool" where
  "clear_way m s \<longleftrightarrow> (conn_sn (sm_conn m) \<and> sm_incoming m \<longrightarrow>
     (\<forall>kp \<in> set (peers s). conn_eq (fst kp) (sm_conn m) \<longrightarrow> \<not> pi_outgoing (snd kp)))"

lemma sn_conn_eq: "conn_sn c \<Longrightarrow> conn_eq k c \<longleftrightarrow> conn_eq k (conn_of SN_ID (cid_pk c) [])"
  by (auto simp: conn_eq_def conn_sn_def conn_of_def)

lemma length_upd_first [simp]: "length (upd_first P f xs) = length xs"
  by (induction xs) auto

text \<open>When a routed connection to a service node is chosen, it is one of its peers, and these are the same as before.\<close>

lemma choose_sn_routed:
  assumes sn: "conn_sn (sm_conn m)" and c: "choose_socket e m s = (Some (sock, route), t)" and route: "route \<noteq> []"
  obtains k p where "List.find (sn_peer_ok (conn_of SN_ID (cid_pk (sm_conn m)) []) (sm_incoming m) (sm_outgoing m)) (peers s) = Some (k, p)"
    "sock = pi_conn_id p" "route = pi_route p" "peers t = peers s"
proof -
  let ?pk = "cid_pk (sm_conn m)"
  have c': "proxy_connect_sn e ?pk (sm_hint m) (sm_optional m) (sm_incoming m) (sm_outgoing m) (EPHEMERAL_ROUTING_ID s)
      (sm_keep_alive m) s = (Some (sock, route), t)" using c sn by (simp add: choose_socket_def)
  have len: "length ?pk = 32" using c' by (rule_tac ccontr) (simp add: proxy_connect_sn_def conn_of_pubkey_def)
  then show ?thesis
  proof (cases rule: connect_sn_cases [where incoming = "sm_incoming m" and outgoing = "sm_outgoing m" and s = s and e = e
        and hint = "sm_hint m" and optional = "sm_optional m" and eph = "EPHEMERAL_ROUTING_ID s" and keep = "sm_keep_alive m"])
    case (reused k p)
    then have "sock = pi_conn_id p" "route = pi_route p" using c' by auto
    moreover have "peers t = peers s" using reused(2) c' \<open>route = pi_route p\<close> route by (auto simp: pi_outgoing_def)
    ultimately show ?thesis using that reused(1) by blast
  qed (use c' route in auto)
qed

lemma length_erase_first: "list_ex P xs \<Longrightarrow> length (erase_first P xs) < length xs"
  by (induction xs) auto

lemma range_nonempty: "kp \<in> set m \<Longrightarrow> eq (fst kp) k \<Longrightarrow> mm_equal_range eq k m \<noteq> []"
  by (auto simp: mm_equal_range_def filter_empty_conv)

lemma find_someD: "List.find P xs = Some x \<Longrightarrow> P x \<and> x \<in> set xs"
  by (induction xs) (auto split: if_splits)

lemma find_range_hd:
  assumes "List.find P xs = Some x" and iff: "\<And>y. y \<in> set xs \<Longrightarrow> P y \<longleftrightarrow> Q y"
  shows "hd (filter Q xs) = x"
proof -
  have "filter P xs = filter Q xs" by (rule filter_cong [OF refl iff])
  moreover have "hd (filter P xs) = x" using assms(1) by (induction xs) (auto split: if_splits)
  ultimately show ?thesis by simp
qed

lemma send_attempt_ends:
  assumes clear: "clear_way m s"
  shows "\<exists>r. send_attempt e m n s = Some r \<and>
    (\<forall>t. r = attempt_retry t \<longrightarrow> length (peers t) < length (peers s) \<and> clear_way m t)"
proof -
  obtain c t where c: "choose_socket e m s = (c, t)" by fastforce
  show ?thesis
  proof (cases c)
    case None
    then show ?thesis using c by (simp add: send_attempt_def)
  next
    case (Some sr)
    obtain sock route where sr: "c = Some (sock, route)" using Some by (cases sr) simp
    obtain q u where u: "send_message_parts e n sock (build_send_parts (sm_send m) route) t = (q, u)" by fastforce
    note pu = send_parts_fields(2) [OF u]
    show ?thesis
    proof (cases "q = send_error EHOSTUNREACH \<and> route \<noteq> [] \<and> conn_sn (sm_conn m)")
      case False
      then show ?thesis using c sr u by (auto simp: send_attempt_def give_up_def split: send_result.splits)
    next
      case True
      let ?Q = "\<lambda>kp. conn_eq (fst kp) (sm_conn m)"
      let ?rng = "mm_equal_range conn_eq (sm_conn m) (peers u)"
      obtain k p where kp: "List.find (sn_peer_ok (conn_of SN_ID (cid_pk (sm_conn m)) []) (sm_incoming m) (sm_outgoing m)) (peers s) = Some (k, p)"
        "route = pi_route p" "peers t = peers s"
        using choose_sn_routed [OF _ c [unfolded sr]] True by metis
      have out: "\<not> sm_outgoing m" using find_someD [OF kp(1)] kp(2) True by (simp add: sn_peer_ok_def)
      have hd: "hd ?rng = (k, p)" unfolding mm_equal_range_def pu kp(3)
        by (rule find_range_hd [OF kp(1)])
          (use True clear out in \<open>auto simp: sn_peer_ok_def clear_way_def pi_outgoing_def sn_conn_eq [symmetric]\<close>)
      have mem: "(k, p) \<in> set (peers s)" "?Q (k, p)"
        using find_someD [OF kp(1)] True by (simp_all add: sn_peer_ok_def sn_conn_eq [symmetric])
      then have ne: "?rng \<noteq> []" using range_nonempty [of "(k, p)" "peers u" conn_eq "sm_conn m"] by (simp add: pu kp(3))
      have "find_route route ?rng = Some True"
        using find_route_some [of route ?rng] find_route_none [of route ?rng] ne hd kp(2)
        by (cases "find_route route ?rng") auto
      then have "send_attempt e m n s = Some (attempt_retry (u\<lparr>peers := erase_first ?Q (peers u)\<rparr>))"
        using c sr u True by (simp add: send_attempt_def)
      moreover have "length (erase_first ?Q (peers u)) < length (peers s)"
        unfolding pu kp(3) by (rule length_erase_first) (use mem in \<open>force simp: list_ex_iff\<close>)
      moreover have "clear_way m (u\<lparr>peers := erase_first ?Q (peers u)\<rparr>)"
        using clear subseq_set [OF subseq_erase_first, of ?Q "peers s"] by (auto simp: clear_way_def pu kp(3))
      ultimately show ?thesis by simp
    qed
  qed
qed

lemma send_loop_ends: "clear_way m s \<Longrightarrow> \<exists>r. send_loop e m n s = Some r"
proof (induction "length (peers s)" arbitrary: n s rule: less_induct)
  case less
  obtain r where r: "send_attempt e m n s = Some r"
    "\<forall>t. r = attempt_retry t \<longrightarrow> length (peers t) < length (peers s) \<and> clear_way m t"
    using send_attempt_ends [OF less.prems] by blast
  show ?case
  proof (cases r)
    case (attempt_retry t)
    then obtain q where "send_loop e m (Suc n) t = Some q" using r(2) less.hyps [of t "Suc n"] by blast
    then have "send_loop e m n s = Some q" using r(1) attempt_retry by (subst send_loop.simps) simp
    then show ?thesis by blast
  next
    case (attempt_done ok nosend t)
    then have "send_loop e m n s = Some (ok, nosend, t)" using r(1) by (subst send_loop.simps) simp
    then show ?thesis by blast
  qed
qed

lemma sent_choose_socket: "choose_socket e m s = (c, t) \<Longrightarrow> sent t = sent s"
  by (auto simp: choose_socket_def proxy_connect_sn_def conn_of_pubkey_def connections_index_def Let_def
      split: if_splits option.splits prod.splits)

lemma sent_proxy_job [simp]: "sent (proxy_job f s) = sent s"
  by (simp add: proxy_job_def alloc_def)

lemma sent_send_parts: "send_message_parts e n c parts s = (r, t) \<Longrightarrow>
    sent t = (if r = send_ok then sent s @ [(c, parts)] else sent s)"
  by (auto simp: send_message_parts_def split: option.splits sock.splits send_result.splits)

lemma sent_send_attempt:
  assumes "send_attempt e m n s = Some r"
  shows "(\<forall>t. r = attempt_retry t \<longrightarrow> sent t = sent s)
    \<and> (\<forall>ok nosend t. r = attempt_done ok nosend t \<longrightarrow>
         (if ok then \<exists>c route. sent t = sent s @ [(c, build_send_parts (sm_send m) route)] else sent t = sent s))"
proof -
  obtain c t where c: "choose_socket e m s = (c, t)" by fastforce
  note s = sent_choose_socket [OF c]
  show ?thesis
  proof (cases c)
    case None
    then show ?thesis using assms c s by (auto simp: send_attempt_def)
  next
    case (Some sr)
    obtain sock route where sr: "c = Some (sock, route)" using Some by (cases sr) simp
    obtain q u where u: "send_message_parts e n sock (build_send_parts (sm_send m) route) t = (q, u)" by fastforce
    then have q: "sent u = (if q = send_ok then sent s @ [(sock, build_send_parts (sm_send m) route)] else sent s)"
      using sent_send_parts [OF u] s by simp
    show ?thesis
    proof (cases q)
      case send_ok
      then show ?thesis using assms c sr u q by (auto simp: send_attempt_def)
    next
      case send_blocked
      then show ?thesis using assms c sr u q by (auto simp: send_attempt_def)
    next
      case (send_error err)
      then have "sent u = sent s" using q by simp
      then show ?thesis using assms c sr u send_error
        by (auto simp: send_attempt_def give_up_def bind_eq_Some_conv split: if_splits option.splits)
    qed
  qed
qed

lemma sent_after_send [simp]: "sent (after_send e m ok nosend s) = sent s"
  by (simp add: after_send_def Let_def split: option.splits)

text \<open>C12: sending returns, and sends at most one copy. \<^verbatim>\<open>proxy_send\<close> may try several connections of a service node, and
  drops the ones whose remote is gone. Unless only incoming connections may be used while there is an outgoing one,
  it ends whatever libzmq answers, and has handed libzmq the message once or not at all.\<close>

theorem proxy_send_returns:
  assumes "clear_way m s"
  shows "\<exists>t. proxy_send e m s = Some t
    \<and> (sent t = sent s \<or> (\<exists>c route. sent t = sent s @ [(c, build_send_parts (sm_send m) route)]))"
proof -
  obtain ok nosend t where t: "send_loop e m 0 s = Some (ok, nosend, t)" using send_loop_ends [OF assms] by (metis prod_cases3)
  obtain n s' where last: "sent s' = sent s" "send_attempt e m n s' = Some (attempt_done ok nosend t)"
    using send_loop_last [OF t, of "\<lambda>s'. sent s' = sent s"] sent_send_attempt by (metis (no_types, lifting))
  show ?thesis using t sent_send_attempt [OF last(2)] last(1)
    by (cases ok) (auto simp: proxy_send_def)
qed

theorem proxy_send_returns_witness:
  "\<exists>t. proxy_send example_env \<lparr>sm_conn = conn_of SN_ID pk_a [], sm_hint = [], sm_incoming = False, sm_keep_alive = 30000,
      sm_optional = False, sm_outgoing = False, sm_request = None, sm_send = [''a.b''], sm_fail = None, sm_full = None\<rparr> net_connected = Some t
    \<and> (sent t = sent net_connected \<or> (\<exists>c route. sent t = sent net_connected @ [(c, build_send_parts [''a.b''] route)]))"
  using proxy_send_returns [of "\<lparr>sm_conn = conn_of SN_ID pk_a [], sm_hint = [], sm_incoming = False, sm_keep_alive = 30000,
      sm_optional = False, sm_outgoing = False, sm_request = None, sm_send = [''a.b''], sm_fail = None, sm_full = None\<rparr>"
      net_connected example_env]
  by (simp add: clear_way_def)

text \<open>C30: sending over incoming connections only can hang the proxy. When the first peer of a service node is outgoing and
  the message may only use incoming connections, and libzmq reports that the remote of the incoming connection is gone,
  the loop that looks for the peer to drop never advances its iterator: \<^verbatim>\<open>proxy_send\<close> does not return.\<close>

theorem proxy_send_hangs:
  assumes sn: "conn_sn (sm_conn m)" "length (cid_pk (sm_conn m)) = 32" and only: "sm_incoming m"
    and peer: "List.find (sn_peer_ok (conn_of SN_ID (cid_pk (sm_conn m)) []) True (sm_outgoing m)) (peers s) = Some (k, p)"
    and conn: "map_of (connections s) (pi_conn_id p) = Some sk" "sk \<noteq> null_sock"
    and gone: "zmq_send e 0 (pi_conn_id p) (pi_route p # sm_send m) = send_error EHOSTUNREACH"
    and first: "pi_outgoing (snd (hd (mm_equal_range conn_eq (sm_conn m) (peers s))))"
  shows "proxy_send e m s = None"
proof -
  have p: "(k, p) \<in> set (peers s)" "conn_eq k (sm_conn m)" "pi_route p \<noteq> []"
    using find_someD [OF peer] sn(1) by (simp_all add: sn_peer_ok_def sn_conn_eq [symmetric])
  have choose: "choose_socket e m s = (Some (pi_conn_id p, pi_route p), s)"
    using sn only peer conn(1) p(3)
    by (simp add: choose_socket_def proxy_connect_sn_def conn_of_pubkey_def Let_def pi_outgoing_def connections_index_def)
  have send: "send_message_parts e 0 (pi_conn_id p) (build_send_parts (sm_send m) (pi_route p)) s = (send_error EHOSTUNREACH, s)"
    using conn gone p(3) by (simp add: send_message_parts_def build_send_parts_def split: sock.splits)
  have "find_route (pi_route p) (mm_equal_range conn_eq (sm_conn m) (peers s)) = None"
    using first p range_nonempty [OF p(1), of conn_eq "sm_conn m"] by (simp add: find_route_none pi_outgoing_def)
  then have "send_attempt e m 0 s = None" using choose send sn(1) p(3) by (simp add: send_attempt_def)
  then show ?thesis by (simp add: proxy_send_def send_loop.simps [of e m 0 s])
qed

text \<open>An example: the service node has also connected to a listener.\<close>

definition listener_b :: bind_data where
  "listener_b = \<lparr>bd_address = ''tcp://*:22'', bd_curve = True, bd_conn_id = 0, bd_allow = (\<lambda>ip pk sn. auth_none), bd_on_bind = None\<rparr>"

definition msg_a :: wire_msg where
  "msg_a = \<lparr>wm_parts = [''r1'', ''x''], wm_props = [''User-Id'' \<mapsto> to_hex oxenc_ref pk_a]\<rparr>"

definition net_bound :: net where
  "net_bound = (net_connected\<lparr>next_conn_id := 4, binds := [listener_b\<lparr>bd_conn_id := 3\<rparr>],
     connections := connections net_connected @ [(3, router_sock (Some 0) True)]\<rparr>)\<lparr>active_service_nodes := [pk_a]\<rparr>"

definition peer_in :: peer_info where
  "peer_in = \<lparr>pi_pubkey = pk_a, pi_service_node = True, pi_auth_level = auth_none, pi_conn_id = 3, pi_route = ''r1'',
     pi_last_activity = 0, pi_idle_expiry = 0\<rparr>"

definition net_two :: net where
  "net_two = net_bound\<lparr>peers := [(conn_of SN_ID pk_a [], peer_a), (conn_of SN_ID pk_a [], peer_in)],
     sent := [(3, [''r1'', ''UNKNOWNCOMMAND'', ''x''])]\<rparr>"

lemma net_bound_reachable: "reachable_net net_bound"
proof -
  let ?s = "net_connected\<lparr>next_conn_id := 4, binds := [listener_b\<lparr>bd_conn_id := 3\<rparr>],
     connections := connections net_connected @ [(3, router_sock (Some 0) True)]\<rparr>"
  have "snd (proxy_bind_message (\<lambda>a. True) listener_b net_connected) = ?s"
    by (simp add: proxy_bind_message_def proxy_bind_def Let_def net_connected_def net_listening_def listener_b_def setup_incoming_socket_def)
  then have "reachable_net ?s" using reachable_net_step [OF net_connected_reachable bind] by metis
  moreover have "proxy_set_active_sns [pk_a] ?s = net_bound"
    by (simp add: proxy_set_active_sns_def Let_def proxy_update_active_sns_clean_def net_bound_def set_insert_def net_connected_def net_listening_def)
  ultimately show ?thesis using reachable_net_step set_sns by metis
qed

lemma net_bound_sel: "peers net_bound = [(conn_of SN_ID pk_a [], peer_a)]" "categories net_bound = []" "command_aliases net_bound = []"
    "connections net_bound = [(1, router_sock None False), (2, dealer_sock ''tcp://10.0.0.1:22'' pk_a (Some (CHR ''L'' # replicate 32 CHR ''s''))),
       (3, router_sock (Some 0) True)]" "sent net_bound = []"
  by (simp_all add: net_bound_def net_connected_def net_listening_def net_init_def pool_init_def pool.defs net.defs)

lemma net_two_reachable: "reachable_net net_two"
proof -
  have tmp: "incoming_tmp oxenc_ref 3 msg_a net_bound = peer_in"
    by (simp add: incoming_tmp_def extract_metadata_def msg_a_def net_bound_def net_connected_def net_listening_def new_peer_def peer_in_def
        oref.hex_length oref.hex_inverse)
  have sender: "incoming_sender oxenc_ref 3 msg_a net_bound = (peer_in, [],
      net_bound\<lparr>peers := [(conn_of SN_ID pk_a [], peer_a), (conn_of SN_ID pk_a [], peer_in)]\<rparr>)"
    by (simp add: incoming_sender_def Let_def tmp find_index_def net_bound_sel peer_in_def peer_a_def conn_eq_equiv(1))
  have "proxy_to_worker oxenc_ref example_env 3 msg_a net_bound = net_two"
    using sender by (simp add: proxy_to_worker_def net_two_def net_bound_sel check_and_dispatch_def get_command_def
        msg_a_def MAX_CATEGORY_LENGTH_def MAX_COMMAND_LENGTH_def proxy_check_auth_def auth_failure_def send_message_parts_def
        example_env_def peer_in_def)
  moreover have "net_step net_bound (proxy_to_worker oxenc_ref example_env 3 msg_a net_bound)"
    by (rule message) (simp_all add: wire_ok_def net_bound_def net_connected_def net_listening_def msg_a_def)
  ultimately show ?thesis using reachable_net_step [OF net_bound_reachable] by simp
qed

definition send_in :: send_msg where
  "send_in = \<lparr>sm_conn = conn_of SN_ID pk_a [], sm_hint = [], sm_incoming = True, sm_keep_alive = 30000,
     sm_optional = False, sm_outgoing = False, sm_request = None, sm_send = [''a.b''], sm_fail = None, sm_full = None\<rparr>"

theorem proxy_send_hangs_witness:
  "reachable_net net_two \<and> proxy_send (example_env\<lparr>zmq_send := (\<lambda>n c ps. send_error EHOSTUNREACH)\<rparr>) send_in net_two = None"
proof -
  have "conn_sn (sm_conn send_in)" "length (cid_pk (sm_conn send_in)) = 32" "sm_incoming send_in"
    by (simp_all add: send_in_def conn_sn_def conn_of_def)
  moreover have "List.find (sn_peer_ok (conn_of SN_ID (cid_pk (sm_conn send_in)) []) True (sm_outgoing send_in)) (peers net_two)
      = Some (conn_of SN_ID pk_a [], peer_in)"
    by (simp add: send_in_def net_two_def sn_peer_ok_def conn_eq_equiv(1) peer_a_def peer_in_def conn_of_def)
  moreover have "map_of (connections net_two) (pi_conn_id peer_in) = Some (router_sock (Some 0) True)"
    by (simp add: net_two_def net_bound_sel peer_in_def)
  moreover have "pi_outgoing (snd (hd (mm_equal_range conn_eq (sm_conn send_in) (peers net_two))))"
    by (simp add: send_in_def net_two_def mm_equal_range_def conn_eq_equiv(1) peer_a_def pi_outgoing_def)
  ultimately show ?thesis
    using net_two_reachable proxy_send_hangs [of send_in net_two "conn_of SN_ID pk_a []" peer_in "router_sock (Some 0) True"
        "example_env\<lparr>zmq_send := (\<lambda>n c ps. send_error EHOSTUNREACH)\<rparr>"] by simp
qed

section \<open>Replying\<close>

lemma send_parts_no_ok: "send_message_parts e n c parts s = (r, t) \<Longrightarrow> r \<noteq> send_ok \<Longrightarrow> t = s"
  by (auto simp: send_message_parts_def split: option.splits sock.splits send_result.splits)

lemma zmq_of_send: "map_of (connections s) c = Some sk \<Longrightarrow> sk \<noteq> null_sock \<Longrightarrow>
    fst (send_message_parts e n c parts s) = zmq_send e n c parts"
  by (auto simp: send_message_parts_def split: sock.splits send_result.splits)

text \<open>
  The loop over one range, for a range without failing outgoing connections: the reply goes out on the first
  connection whose remote takes it; incoming peers whose remote is gone are dropped, and nobody else is touched.
\<close>

fun reply_spec :: "env \<Rightarrow> string list \<Rightarrow> nat \<Rightarrow> peer_map \<Rightarrow> peer_map \<times> (int \<times> string list) list" where
  "reply_spec e parts n [] = ([], [])"
| "reply_spec e parts n (x # rng) =
     (let m = build_send_parts parts (pi_route (snd x)) in
      case zmq_send e n (pi_conn_id (snd x)) m of
        send_ok \<Rightarrow> (x # rng, [(pi_conn_id (snd x), m)])
      | send_blocked \<Rightarrow> (x # rng, [])
      | send_error err \<Rightarrow>
          (let (kept, out) = reply_spec e parts (Suc n) rng
           in (if err = EHOSTUNREACH then kept else x # kept, out)))"

lemma reply_loop_spec:
  fixes s :: "'a net_scheme"
  assumes "net_inv s" "peers s = a @ rng @ b"
    and "\<forall>x \<in> set rng. pi_outgoing (snd x) \<longrightarrow> (\<forall>n m. zmq_send e n (pi_conn_id (snd x)) m \<noteq> send_error EHOSTUNREACH)"
  shows "reply_loop e parts n (length a) (length a + length rng) s =
    Some (s\<lparr>peers := a @ fst (reply_spec e parts n rng) @ b, sent := sent s @ snd (reply_spec e parts n rng)\<rparr>)"
  using assms
proof (induction rng arbitrary: s a n)
  case Nil
  then show ?case by (simp add: reply_loop.simps)
next
  case (Cons x rng)
  have x: "x \<in> set (peers s)" "x = peers s ! length a" using Cons.prems(2) by (simp_all add: nth_append)
  obtain sk where sk: "map_of (connections s) (pi_conn_id (snd x)) = Some sk" "sk \<noteq> null_sock"
    using net_inv_peer_conn [OF Cons.prems(1), of "fst x" "snd x"] x(1) by auto
  have idx: "connections_index (pi_conn_id (snd x)) s = s" using sk by (simp add: connections_index_def)
  let ?m = "build_send_parts parts (pi_route (snd x))"
  obtain r u where ru: "send_message_parts e n (pi_conn_id (snd x)) ?m s = (r, u)" by fastforce
  have r: "r = zmq_send e n (pi_conn_id (snd x)) ?m" using zmq_of_send [OF sk, of e n ?m] ru by simp
  note step = reply_loop_step [of "length a" "length a + length (x # rng)" s x e n parts r u]
  have len: "length a \<noteq> length a + length (x # rng)" "length a < length (peers s)" using Cons.prems(2) by auto
  note step = step [OF len x(2), unfolded idx, OF ru]
  show ?case
  proof (cases r)
    case send_ok
    have "u = s\<lparr>sent := sent s @ [(pi_conn_id (snd x), ?m)]\<rparr>"
      using ru send_ok by (auto simp: send_message_parts_def split: option.splits sock.splits send_result.splits)
    then show ?thesis using step send_ok r Cons.prems(2) by (simp add: Let_def)
  next
    case send_blocked
    have "u = s" using send_parts_no_ok [OF ru] send_blocked by simp
    then show ?thesis using step send_blocked r Cons.prems(2) by (simp add: Let_def)
  next
    case (send_error err)
    have u: "u = s" using send_parts_no_ok [OF ru] send_error by simp
    show ?thesis
    proof (cases "err = EHOSTUNREACH")
      case True
      then have inc: "\<not> pi_outgoing (snd x)" using Cons.prems(3) r send_error by (metis list.set_intros(1))
      let ?t = "s\<lparr>peers := a @ rng @ b\<rparr>"
      have rem: "remove_at (length a) (peers s) = a @ rng @ b" using Cons.prems(2) by (simp add: remove_at_def)
      have "net_inv ?t" using net_inv_drop_one [OF Cons.prems(1), of a x "rng @ b"] Cons.prems(2) inc by simp
      then have "reply_loop e parts (Suc n) (length a) (length a + length rng) ?t =
          Some (?t\<lparr>peers := a @ fst (reply_spec e parts (Suc n) rng) @ b, sent := sent ?t @ snd (reply_spec e parts (Suc n) rng)\<rparr>)"
        by (rule Cons.IH) (use Cons.prems(3) in auto)
      then show ?thesis using step True send_error r inc rem u by (simp add: Let_def case_prod_unfold)
    next
      case False
      have "reply_loop e parts (Suc n) (length (a @ [x])) (length (a @ [x]) + length rng) s =
          Some (s\<lparr>peers := (a @ [x]) @ fst (reply_spec e parts (Suc n) rng) @ b, sent := sent s @ snd (reply_spec e parts (Suc n) rng)\<rparr>)"
        by (rule Cons.IH [OF Cons.prems(1)]) (use Cons.prems in auto)
      then show ?thesis using step False send_error r u by (simp add: Let_def case_prod_unfold)
    qed
  qed
qed

lemma find_index_split:
  assumes "\<forall>x \<in> set pre. \<not> P x" "P y"
  shows "find_index P (pre @ y # post) = Some (length pre)"
proof -
  have "filter (\<lambda>i. P ((pre @ y # post) ! i)) [0..<length pre] = []"
    using assms(1) by (auto simp: filter_empty_conv nth_append)
  moreover have "[0..<length (pre @ y # post)] = [0..<length pre] @ length pre # [Suc (length pre)..<length (pre @ y # post)]"
    by (metis add_Suc_right length_append length_Cons less_add_Suc1 upt_add_eq_append upt_conv_Cons zero_le le_add1)
  ultimately show ?thesis using assms(2) unfolding find_index_def by (simp add: nth_append)
qed

lemma find_index_none: "\<forall>x \<in> set xs. \<not> P x \<Longrightarrow> find_index P xs = None"
  by (auto simp: find_index_def filter_empty_conv split: list.splits dest: arg_cong [where f = set])



text \<open>An example: connections to three service nodes.\<close>

definition pk_b :: string where "pk_b = replicate 32 CHR ''b''"

definition pk_c :: string where "pk_c = replicate 32 CHR ''c''"

definition out_peer :: "string \<Rightarrow> int \<Rightarrow> connection_id \<times> peer_info" where
  "out_peer pk i = (conn_of SN_ID pk [], peer_a\<lparr>pi_pubkey := pk, pi_conn_id := i\<rparr>)"

definition net_three :: net where
  "net_three = net_listening\<lparr>peers := [out_peer pk_a 2, out_peer pk_b 3, out_peer pk_c 4], next_conn_id := 5,
     outgoing_sn_conns := [(2, conn_of SN_ID pk_a []), (3, conn_of SN_ID pk_b []), (4, conn_of SN_ID pk_c [])],
     connections := [(1, router_sock None False), (2, dealer_sock ''a'' pk_a None), (3, dealer_sock ''b'' pk_b None), (4, dealer_sock ''c'' pk_c None)]\<rparr>"

definition gone_env :: env where
  "gone_env = example_env\<lparr>zmq_send := (\<lambda>n c ps. if c = 2 then send_error EHOSTUNREACH else send_ok)\<rparr>"

lemma net_three_reachable: "reachable_net net_three"
proof -
  let ?c = "\<lambda>pk a s. snd (proxy_connect_sn example_env pk a False False False True 30000 s)"
  have r: "reachable_net (?c pk a s)" if "reachable_net s" "length pk = 32" for pk a and s :: net
    by (rule reachable_net_step [OF that(1) connect_sn [OF that(2)]])
  have "conn_eq (conn_of SN_ID p []) (conn_of SN_ID q []) \<longleftrightarrow> p = q" for p q
    by (simp add: conn_eq_def conn_sn_def conn_of_def)
  then have "?c pk_c ''c'' (?c pk_b ''b'' (?c pk_a ''a'' net_listening)) = net_three"
    by (simp add: proxy_connect_sn_def conn_of_pubkey_def pk_a_def pk_b_def pk_c_def net_listening_def example_env_def new_peer_def
        setup_outgoing_socket_def net_three_def out_peer_def peer_a_def sn_peer_ok_def)
  moreover have "length pk_b = 32" "length pk_c = 32" by (simp_all add: pk_b_def pk_c_def)
  ultimately show ?thesis using r [OF r [OF r [OF net_listening_reachable length_pk_a]]] by metis
qed


end
