(* ===== verification/Net_Requests.thy ===== *)
theory Net_Requests
  imports Net_Send
begin

text \<open>
  What the proxy owes its users: the callback of a request (\<^verbatim>\<open>pending_requests\<close>) and one of the two callbacks of a
  \<^verbatim>\<open>connect_remote\<close> (\<^verbatim>\<open>pending_connects\<close>). Each operation of the proxy is shown to turn exactly the promises that leave
  these lists into jobs that call the callbacks; the clean-up is computed exactly.
\<close>

section \<open>Callbacks that are owed\<close>

datatype promise = request_promise nat | connect_promise nat nat

fun settles :: "promise \<Rightarrow> task \<Rightarrow> bool" where
  "settles (request_promise cb) (reply_task f success data) \<longleftrightarrow> f = cb"
| "settles (connect_promise ok fail) (connect_success f c) \<longleftrightarrow> f = ok"
| "settles (connect_promise ok fail) (connect_failure f c what) \<longleftrightarrow> f = fail"
| "settles _ _ \<longleftrightarrow> False"

fun is_callback :: "task \<Rightarrow> bool" where
  "is_callback (reply_task f success data) \<longleftrightarrow> True"
| "is_callback (connect_success f c) \<longleftrightarrow> True"
| "is_callback (connect_failure f c what) \<longleftrightarrow> True"
| "is_callback _ \<longleftrightarrow> False"

definition request_promises :: "(string \<times> int \<times> nat) list \<Rightarrow> promise multiset" where
  "request_promises rs = image_mset (\<lambda>(tag, x, cb). request_promise cb) (mset rs)"

definition connect_promises :: "pending_connect list \<Rightarrow> promise multiset" where
  "connect_promises pcs = image_mset (\<lambda>pc. connect_promise (pn_on_connect pc) (pn_on_failure pc)) (mset pcs)"

definition promises :: "'a net_scheme \<Rightarrow> promise multiset" where
  "promises s = request_promises (pending_requests s) + connect_promises (pending_connects s)"

text \<open>The jobs that an operation creates: objects at new addresses.\<close>

definition creates :: "'a net_scheme \<Rightarrow> 'a net_scheme \<Rightarrow> task list \<Rightarrow> bool" where
  "creates s t ts \<longleftrightarrow> next_ptr t = next_ptr s + length ts \<and> (\<forall>ptr < next_ptr s. heap t ptr = heap s ptr)
     \<and> (\<forall>i < length ts. heap t (next_ptr s + i) = Some (JobObj (new_job_in (ts ! i) 0)))"

definition keeps :: "'a net_scheme \<Rightarrow> 'a net_scheme \<Rightarrow> task list \<Rightarrow> promise multiset \<Rightarrow> bool" where
  "keeps s t ts issued \<longleftrightarrow> creates s t ts \<and>
     (\<exists>settled. list_all2 settles settled (filter is_callback ts) \<and> mset settled + promises t = promises s + issued)"

definition quiet :: "'a net_scheme \<Rightarrow> 'a net_scheme \<Rightarrow> bool" where
  "quiet s t \<longleftrightarrow> heap t = heap s \<and> next_ptr t = next_ptr s \<and> pending_requests t = pending_requests s
     \<and> pending_connects t = pending_connects s"

lemma quiet_keeps: "quiet s t \<Longrightarrow> keeps s t [] {#}"
  by (simp add: quiet_def keeps_def creates_def promises_def)

lemma quiet_trans: "quiet s t \<Longrightarrow> quiet t u \<Longrightarrow> quiet s u"
  by (simp add: quiet_def)

lemma quiet_refl [simp]: "quiet s s"
  by (simp add: quiet_def)

lemma creates_trans:
  assumes "creates s t ts" "creates t u us" shows "creates s u (ts @ us)"
  unfolding creates_def
proof (intro conjI allI impI)
  show "next_ptr u = next_ptr s + length (ts @ us)" using assms by (simp add: creates_def)
  show "heap u ptr = heap s ptr" if "ptr < next_ptr s" for ptr using assms that by (simp add: creates_def)
  show "heap u (next_ptr s + i) = Some (JobObj (new_job_in ((ts @ us) ! i) 0))" if "i < length (ts @ us)" for i
  proof (cases "i < length ts")
    case True
    then show ?thesis using assms by (simp add: creates_def nth_append)
  next
    case False
    then obtain j where j: "i = length ts + j" using le_Suc_ex not_less by blast
    then have "heap u (next_ptr t + j) = Some (JobObj (new_job_in (us ! j) 0))"
      using assms(2) that by (simp add: creates_def)
    then show ?thesis using assms(1) by (simp add: creates_def nth_append j add.assoc)
  qed
qed

lemma keeps_trans:
  assumes "keeps s t ts i" "keeps t u us j" shows "keeps s u (ts @ us) (i + j)"
proof -
  obtain xs where xs: "list_all2 settles xs (filter is_callback ts)" "mset xs + promises t = promises s + i"
    using assms(1) by (auto simp: keeps_def)
  obtain ys where ys: "list_all2 settles ys (filter is_callback us)" "mset ys + promises u = promises t + j"
    using assms(2) by (auto simp: keeps_def)
  have "mset (xs @ ys) + promises u = promises s + (i + j)" using xs(2) ys(2) by (simp add: ac_simps)
  moreover have "list_all2 settles (xs @ ys) (filter is_callback (ts @ us))" using xs(1) ys(1) by (simp add: list_all2_appendI)
  moreover have "creates s u (ts @ us)" using assms by (auto simp: keeps_def intro: creates_trans)
  ultimately show ?thesis unfolding keeps_def by blast
qed

lemma creates_unique: "creates s t ts \<Longrightarrow> creates s t us \<Longrightarrow> ts = us"
  by (rule nth_equalityI) (auto simp: creates_def new_job_in_def)

text \<open>A job that settles a promise which is no longer pending.\<close>

lemma keeps_job:
  assumes "heap t = (heap s)(next_ptr s \<mapsto> JobObj (new_job_in f 0))" "next_ptr t = Suc (next_ptr s)"
    and "if is_callback f then \<exists>p. settles p f \<and> add_mset p (promises t) = promises s + issued
      else promises t = promises s + issued"
  shows "keeps s t [f] issued"
proof -
  have "creates s t [f]" using assms(1,2) by (simp add: creates_def)
  moreover have "\<exists>settled. list_all2 settles settled (filter is_callback [f]) \<and> mset settled + promises t = promises s + issued"
  proof (cases "is_callback f")
    case True
    then obtain p where "settles p f" "add_mset p (promises t) = promises s + issued" using assms(3) by auto
    then show ?thesis using True by (intro exI [of _ "[p]"]) simp
  next
    case False
    then show ?thesis using assms(3) by simp
  qed
  ultimately show ?thesis by (simp add: keeps_def)
qed

section \<open>Each operation keeps its promises\<close>

lemma quiet_close [simp]: "quiet s (proxy_close_connection c s)"
  by (simp add: quiet_def proxy_close_connection_def split: option.splits sock.splits)

lemma quiet_close_all [simp]: "quiet s (fold proxy_close_connection ids s)"
  by (induction ids arbitrary: s) (auto intro: quiet_trans [OF quiet_close])

lemma quiet_index [simp]: "quiet s (connections_index c s)"
  by (simp add: quiet_def connections_index_def)

lemma quiet_send [simp]: "quiet s (snd (send_message_parts e n c parts s))"
  by (simp add: quiet_def send_message_parts_def split: option.splits sock.splits send_result.splits)

lemma quiet_send_eq: "send_message_parts e n c parts s = (r, t) \<Longrightarrow> quiet s t"
  using quiet_send [of s e n c parts] by simp

lemma quiet_peers [simp]: "quiet s (t\<lparr>peers := ps\<rparr>) \<longleftrightarrow> quiet s t"
  by (simp add: quiet_def)

lemma quiet_connect_sn [simp]: "quiet s (snd (proxy_connect_sn e remote hint optional incoming outgoing eph keep s))"
  by (auto simp: proxy_connect_sn_def Let_def quiet_def connections_index_def split: sum.splits option.splits)

lemma quiet_choose_socket: "choose_socket e m s = (c, t) \<Longrightarrow> quiet s t"
proof -
  have "quiet s (snd (choose_socket e m s))"
    unfolding choose_socket_def by (auto simp: Let_def split: option.splits)
  then show "choose_socket e m s = (c, t) \<Longrightarrow> quiet s t" by simp
qed

lemma quiet_upd_peer [simp]: "quiet s (upd_peer i f t) \<longleftrightarrow> quiet s t"
  by (simp add: upd_peer_def)

lemma quiet_expire_idle: "quiet s (proxy_expire_idle_peers e s)"
  by (simp add: proxy_expire_idle_peers_def expire_peers_eq)

lemma quiet_disconnect: "quiet s (proxy_disconnect c s)"
  by (auto simp: proxy_disconnect_def Let_def split: option.splits)

lemma quiet_remove_sn: "quiet s (remove_sn pk s)"
proof -
  have "quiet s (s\<lparr>active_service_nodes := a\<rparr>)" for a by (simp add: quiet_def)
  then show ?thesis unfolding remove_sn_eq by (auto intro: quiet_trans quiet_close_all)
qed

lemma quiet_sns: "quiet s (proxy_set_active_sns pks s)" "quiet s (proxy_update_active_sns added removed s)"
proof -
  have "quiet s (fold remove_sn ks s)" for ks and s :: "'a net_scheme"
    by (induction ks arbitrary: s) (auto intro: quiet_trans [OF quiet_remove_sn])
  moreover have "quiet s (t\<lparr>active_service_nodes := a\<rparr>) \<longleftrightarrow> quiet s t" for a and t :: "'a net_scheme" by (simp add: quiet_def)
  ultimately have "quiet s (proxy_update_active_sns_clean xs ys s)" for xs ys
    by (simp add: proxy_update_active_sns_clean_def Let_def)
  then show "quiet s (proxy_set_active_sns pks s)" "quiet s (proxy_update_active_sns added removed s)"
    by (simp_all add: proxy_set_active_sns_def proxy_update_active_sns_def Let_def)
qed

lemma quiet_bind: "quiet s (snd (proxy_bind_message zb b s))"
  by (simp add: proxy_bind_message_def proxy_bind_def Let_def quiet_def)

lemma quiet_reply_loop: "reply_loop e parts n i stop s = Some t \<Longrightarrow> quiet s t"
proof (induction "length (peers s) - i" arbitrary: n i stop s rule: less_induct)
  case less
  show ?case
  proof (cases "i = stop \<or> length (peers s) \<le> i")
    case True
    then show ?thesis using less.prems by (auto simp: reply_loop.simps [of e parts n i stop s] split: if_splits)
  next
    case False
    then have i: "i \<noteq> stop" "i < length (peers s)" by auto
    define x where "x = peers s ! i"
    obtain r u where m: "send_message_parts e n (pi_conn_id (snd x)) (build_send_parts parts (pi_route (snd x)))
      (connections_index (pi_conn_id (snd x)) s) = (r, u)" by fastforce
    have u: "quiet s u" "peers u = peers s"
      using quiet_trans [OF quiet_index quiet_send_eq [OF m]] send_parts_fields(2) [OF m] by simp_all
    define v where "v = (if pi_outgoing (snd x) then proxy_close_connection (pi_conn_id (snd x)) u else u)\<lparr>peers := remove_at i (peers s)\<rparr>"
    have v: "quiet s v" "length (peers v) = length (peers s) - 1"
      using u quiet_trans [OF u(1) quiet_close] i by (auto simp: v_def length_remove_at)
    have next_v: "quiet s t" if "reply_loop e parts (Suc n) j stop' v = Some t" "j = i \<or> j = Suc i" for j stop'
      by (rule quiet_trans [OF v(1) less.hyps [OF _ that(1)]]) (use that(2) i v in auto)
    have next_u: "quiet s t" if "reply_loop e parts (Suc n) (Suc i) stop u = Some t"
      by (rule quiet_trans [OF u(1) less.hyps [OF _ that]]) (use i u in auto)
    note step = reply_loop_step [OF i x_def m]
    show ?thesis
    proof (cases r)
      case (send_error err)
      show ?thesis
      proof (cases "err = EHOSTUNREACH")
        case True
        then show ?thesis using less.prems next_v unfolding step send_error
          by (simp add: Let_def v_def [symmetric] split: if_splits)
      next
        case False
        then show ?thesis using less.prems next_u unfolding step send_error by simp
      qed
    qed (use less.prems u in \<open>simp_all add: step\<close>)
  qed
qed

lemma quiet_reply: "proxy_reply e c parts s = Some t \<Longrightarrow> quiet s t"
  by (auto simp: proxy_reply_def intro: quiet_reply_loop split: option.splits)

lemma heap_dispatch: "heap (snd (dispatch_command n c d cb conn acc r s)) = heap s"
    "next_ptr (snd (dispatch_command n c d cb conn acc r s)) = next_ptr s"
  by (simp_all add: dispatch_command_def enqueue_pending_def on_category_def start_worker_def get_idle_worker_def Let_def split: prod.splits)

lemma quiet_check_dispatch: "quiet s (snd (check_and_dispatch e c out p route parts remote s))"
proof -
  obtain ok t where a: "proxy_check_auth e c out p (hd parts) (snd (get_command s (hd parts))) (tl parts) s = (ok, t)" by fastforce
  have "quiet s t" using a by (auto simp: proxy_check_auth_def Let_def split: option.splits)
  moreover have "quiet t (snd (dispatch_command n c d cb conn acc r t))" for n c d cb conn acc r
    using net_more [OF more_dispatch, of n c d cb conn acc r t] by (simp add: quiet_def heap_dispatch)
  ultimately show ?thesis using a
    by (auto simp: check_and_dispatch_def Let_def case_prod_unfold intro: quiet_trans split: option.splits)
qed

lemma quiet_to_worker: "quiet s (proxy_to_worker oc e conn_id m s)"
proof (cases "\<exists>a k r. map_of (connections s) conn_id = Some (dealer_sock a k r)")
  case True
  then obtain a k r where c: "map_of (connections s) conn_id = Some (dealer_sock a k r)" by blast
  show ?thesis
  proof (cases "outgoing_sender conn_id s")
    case None
    then show ?thesis using c by (simp add: proxy_to_worker_def)
  next
    case (Some it)
    obtain i t where it: "it = (i, t)" by fastforce
    have "quiet s t" using Some it by (auto simp: outgoing_sender_def Let_def)
    then show ?thesis using quiet_trans [OF _ quiet_check_dispatch] c Some it
      by (simp add: proxy_to_worker_def case_prod_unfold Let_def)
  qed
next
  case False
  obtain p r t where t: "incoming_sender oc conn_id m s = (p, r, t)" by (metis prod_cases3)
  have "quiet s t" using t by (auto simp: incoming_sender_def Let_def split: if_splits option.splits)
  then have "quiet s (snd (check_and_dispatch e conn_id False p r (tl (wm_parts m)) (get_peer_address (wm_props m)) t))"
    using quiet_trans quiet_check_dispatch by blast
  then show ?thesis using False t by (auto simp: proxy_to_worker_def split: option.splits sock.splits)
qed

lemma proxy_job_heap: "heap (proxy_job f s) = (heap s)(next_ptr s \<mapsto> JobObj (new_job_in f 0))"
    "next_ptr (proxy_job f s) = Suc (next_ptr s)"
  by (simp_all add: proxy_job_def alloc_def)

lemma schedule_heap: "heap (proxy_schedule_reply_job f s) = (heap s)(next_ptr s \<mapsto> JobObj (new_job_in f 0))"
    "next_ptr (proxy_schedule_reply_job f s) = Suc (next_ptr s)"
  by (simp_all add: proxy_schedule_reply_job_def alloc_def)

lemma promises_job [simp]: "promises (proxy_job f s) = promises s"
  by (simp add: promises_def)

lemma promises_schedule [simp]: "promises (proxy_schedule_reply_job f s) = promises s"
  by (simp add: promises_def net_more [OF more_schedule])

lemma keeps_cong: "keeps s t ts i \<Longrightarrow> quiet t u \<Longrightarrow> keeps s u ts i"
  using keeps_trans [OF _ quiet_keeps] by fastforce

lemma keeps_cong': "quiet s t \<Longrightarrow> keeps t u ts i \<Longrightarrow> keeps s u ts i"
  using keeps_trans [OF quiet_keeps] by fastforce

lemma keeps_extra_job: "\<not> is_callback f \<Longrightarrow> keeps s (proxy_job f s) [f] {#}"
  by (rule keeps_job) (simp_all add: proxy_job_heap)

text \<open>The two loops of the clean-up: what they keep, and the jobs for what has expired.\<close>

definition timeout_reply :: "string \<times> int \<times> nat \<Rightarrow> task" where
  "timeout_reply r = reply_task (snd (snd r)) False [''TIMEOUT'']"

definition timeout_connect :: "pending_connect \<Rightarrow> task" where
  "timeout_connect pc = connect_failure (pn_on_failure pc) (conn_of_id (pn_conn_id pc)) ''connection attempt timed out''"

lemma expire_requests_exact:
  "fst (expire_requests e rs s) = filter (\<lambda>r. now e \<le> fst (snd r)) rs \<and>
   creates s (snd (expire_requests e rs s)) (map timeout_reply (filter (\<lambda>r. fst (snd r) < now e) rs)) \<and>
   pending_connects (snd (expire_requests e rs s)) = pending_connects s"
proof (induction e rs s rule: expire_requests.induct)
  case (2 e tag x cb rs s)
  show ?case
  proof (cases "x < now e")
    case True
    let ?f = "timeout_reply (tag, x, cb)"
    have "creates s (proxy_job ?f s) [?f]" by (simp add: creates_def proxy_job_heap)
    from creates_trans [OF this] 2(1) [OF True] True show ?thesis by (simp add: timeout_reply_def)
  next
    case False
    then show ?thesis using 2(2) [OF False] by (simp add: case_prod_unfold Let_def)
  qed
qed (simp add: creates_def)

lemma expire_connects_exact:
  "fst (expire_connects e pcs s) = filter (\<lambda>pc. now e \<le> pn_expiry pc) pcs \<and>
   creates s (snd (expire_connects e pcs s)) (map timeout_connect (filter (\<lambda>pc. pn_expiry pc < now e) pcs)) \<and>
   pending_requests (snd (expire_connects e pcs s)) = pending_requests s"
proof (induction e pcs s rule: expire_connects.induct)
  case (2 e pc pcs s)
  show ?case
  proof (cases "pn_expiry pc < now e")
    case True
    let ?f = "timeout_connect pc"
    let ?t = "(proxy_close_connection (pn_conn_id pc) (proxy_job ?f s))\<lparr>peers := mm_erase_key conn_eq (conn_of_id (pn_conn_id pc)) (peers s)\<rparr>"
    have "quiet (proxy_job ?f s) ?t" by simp
    then have t: "creates s ?t [?f]" "pending_requests ?t = pending_requests s"
      by (simp_all add: creates_def proxy_job_heap quiet_def)
    from creates_trans [OF t(1)] t(2) 2(1) [OF True refl refl refl refl] True show ?thesis
      by (simp add: timeout_connect_def Let_def)
  next
    case False
    then show ?thesis using 2(2) [OF False] by (simp add: case_prod_unfold Let_def)
  qed
qed (simp add: creates_def)

lemma cleanup_pending:
  fixes e s defines "t \<equiv> proxy_conn_cleanup e s"
  shows "pending_connects t = filter (\<lambda>pc. now e \<le> pn_expiry pc) (pending_connects s)" (is ?C)
    "pending_requests t = filter (\<lambda>r. now e \<le> fst (snd r)) (pending_requests s)" (is ?R)
    "creates s t (map timeout_connect (filter (\<lambda>pc. pn_expiry pc < now e) (pending_connects s)) @
       map timeout_reply (filter (\<lambda>r. fst (snd r) < now e) (pending_requests s)))" (is ?J)
proof -
  let ?s = "proxy_expire_idle_peers e s"
  let ?c = "expire_connects e (pending_connects s) ?s"
  let ?u = "(snd ?c)\<lparr>pending_connects := fst ?c\<rparr>"
  let ?r = "expire_requests e (pending_requests s) ?u"
  note c = expire_connects_exact [of e "pending_connects s" ?s] and r = expire_requests_exact [of e "pending_requests s" ?u]
  have q: "quiet s ?s" by (rule quiet_expire_idle)
  then have t: "t = (snd ?r)\<lparr>pending_requests := fst ?r\<rparr>"
    using c by (simp add: t_def proxy_conn_cleanup_def case_prod_unfold Let_def quiet_def)
  show ?C ?R using c r by (simp_all add: t)
  have "creates s ?u (map timeout_connect (filter (\<lambda>pc. pn_expiry pc < now e) (pending_connects s)))"
    using c q by (simp add: creates_def quiet_def)
  from creates_trans [OF this r [THEN conjunct2, THEN conjunct1]] show ?J by (simp add: t creates_def)
qed

lemma image_mset_split:
  "image_mset f (mset xs) = image_mset f (mset (filter P xs)) + image_mset f (mset (filter (\<lambda>x. \<not> P x) xs))"
  by (induction xs) auto

lemma keeps_cleanup: "\<exists>ts. keeps s (proxy_conn_cleanup e s) ts {#}"
proof -
  let ?C = "filter (\<lambda>pc. pn_expiry pc < now e) (pending_connects s)"
  let ?R = "filter (\<lambda>r. fst (snd r) < now e) (pending_requests s)"
  let ?settled = "map (\<lambda>pc. connect_promise (pn_on_connect pc) (pn_on_failure pc)) ?C @ map (\<lambda>r. request_promise (snd (snd r))) ?R"
  have "filter is_callback (map timeout_connect cs @ map timeout_reply rs) = map timeout_connect cs @ map timeout_reply rs" for cs rs
    by (simp add: filter_empty_conv timeout_connect_def timeout_reply_def filter_id_conv)
  then have "list_all2 settles ?settled (filter is_callback (map timeout_connect ?C @ map timeout_reply ?R))"
    by (auto intro!: list_all2_appendI simp: list_all2_map1 list_all2_map2 list.rel_refl_strong timeout_connect_def timeout_reply_def)
  moreover have "mset ?settled + promises (proxy_conn_cleanup e s) = promises s"
    using image_mset_split [of "\<lambda>pc. connect_promise (pn_on_connect pc) (pn_on_failure pc)" "pending_connects s" "\<lambda>pc. pn_expiry pc < now e"]
      image_mset_split [of "\<lambda>r. request_promise (snd (snd r))" "pending_requests s" "\<lambda>r. fst (snd r) < now e"]
    by (simp add: promises_def connect_promises_def request_promises_def cleanup_pending not_less case_prod_unfold ac_simps
        del: mset_filter)
  ultimately show ?thesis unfolding keeps_def using cleanup_pending(3) [of s e] by fastforce
qed

definition issued_by :: "send_msg \<Rightarrow> promise multiset" where
  "issued_by m = (case sm_request m of None \<Rightarrow> {#} | Some (cb, tag, timeout) \<Rightarrow> {#request_promise cb#})"

lemma keeps_refl: "keeps s s [] {#}"
  by (rule quiet_keeps) simp

lemma keeps_give_up: "\<exists>ts nosend t. give_up m err s = attempt_done False nosend t \<and> keeps s t ts {#}
    \<and> pending_requests t = pending_requests s"
proof (cases "sm_fail m")
  case None
  then show ?thesis using keeps_refl by (auto simp: give_up_def)
next
  case (Some cb)
  then show ?thesis using keeps_extra_job [of "send_failure cb (Some err)" s] by (auto simp: give_up_def)
qed

lemma keeps_send_attempt:
  assumes "send_attempt e m n s = Some r"
  shows "(\<forall>t. r = attempt_retry t \<longrightarrow> quiet s t) \<and> (\<forall>ok nosend t. r = attempt_done ok nosend t \<longrightarrow>
    (\<exists>ts. keeps s t ts {#}) \<and> pending_requests t = pending_requests s)"
proof -
  obtain c t where c: "choose_socket e m s = (c, t)" by fastforce
  note s = quiet_choose_socket [OF c]
  show ?thesis
  proof (cases c)
    case None
    then show ?thesis using assms c quiet_keeps [OF s] s by (auto simp: send_attempt_def quiet_def)
  next
    case (Some sr)
    obtain sock route where sr: "c = Some (sock, route)" using Some by (cases sr) simp
    obtain q u where u: "send_message_parts e n sock (build_send_parts (sm_send m) route) t = (q, u)" by fastforce
    have su: "quiet s u" using quiet_trans [OF s quiet_send_eq [OF u]] .
    have give_up: "(\<exists>ts. keeps s w ts {#}) \<and> pending_requests w = pending_requests s" if "give_up m err v = attempt_done ok nosend w" "quiet s v" for err v ok nosend w
      using keeps_give_up [of m err v] that keeps_cong' [OF that(2)] by (auto simp: quiet_def)
    show ?thesis
    proof (cases q)
      case (send_error err)
      have no_retry: "give_up m err v \<noteq> attempt_retry w" for v w :: "'a net_scheme" by (simp add: give_up_def)
      define v where "v = u\<lparr>peers := erase_first (\<lambda>kp. conn_eq (fst kp) (sm_conn m)) (peers u)\<rparr>"
      have sv: "quiet s v" using su by (simp add: v_def)
      consider "r = give_up m err u" | "r = give_up m err v" | "r = attempt_retry v"
        using assms c sr u send_error by (auto simp: send_attempt_def v_def bind_eq_Some_conv split: if_splits)
      then show ?thesis
      proof cases
        case 1
        then show ?thesis using give_up [OF _ su] no_retry by auto
      next
        case 2
        then show ?thesis using give_up [OF _ sv] no_retry by auto
      next
        case 3
        then show ?thesis using sv by simp
      qed
    qed (use assms c sr u quiet_keeps [OF su] su in \<open>auto simp: send_attempt_def quiet_def\<close>)
  qed
qed

lemma keeps_after_send:
  assumes "\<And>cb tag timeout. sm_request m = Some (cb, tag, timeout) \<Longrightarrow> map_of (pending_requests s) tag = None"
  shows "\<exists>ts. keeps s (after_send e m ok nosend s) ts (issued_by m)"
proof -
  define t where "t = (case sm_request m of None \<Rightarrow> s
     | Some (cb, tag, timeout) \<Rightarrow> if ok then
         (if map_of (pending_requests s) tag = None then s\<lparr>pending_requests := pending_requests s @ [(tag, now e + ms timeout, cb)]\<rparr> else s)
       else proxy_job (reply_task cb False [''TIMEOUT'']) s)"
  have "\<exists>ts. keeps s t ts (issued_by m)"
  proof (cases "sm_request m")
    case None
    then show ?thesis using keeps_refl by (auto simp: t_def issued_by_def)
  next
    case (Some q)
    obtain cb tag timeout where q: "q = (cb, tag, timeout)" by (metis prod_cases3)
    show ?thesis
    proof (cases ok)
      case True
      then have "t = s\<lparr>pending_requests := pending_requests s @ [(tag, now e + ms timeout, cb)]\<rparr>"
        using assms Some q by (simp add: t_def)
      then have "keeps s t [] (issued_by m)"
        using Some q by (simp add: keeps_def creates_def promises_def request_promises_def issued_by_def)
      then show ?thesis by blast
    next
      case False
      have "keeps s (proxy_job (reply_task cb False [''TIMEOUT'']) s) [reply_task cb False [''TIMEOUT'']] {#request_promise cb#}"
        by (rule keeps_job) (auto simp: proxy_job_heap intro!: exI [of _ "request_promise cb"])
      then show ?thesis using False Some q by (auto simp: t_def issued_by_def)
    qed
  qed
  then obtain ts where ts: "keeps s t ts (issued_by m)" by blast
  have after: "after_send e m ok nosend s = (if ok then t else case nosend of Some cb \<Rightarrow> proxy_job (send_failure cb None) t
      | None \<Rightarrow> (case sm_full m of Some cb \<Rightarrow> proxy_job (queue_full cb) t | None \<Rightarrow> t))"
    unfolding after_send_def t_def Let_def ..
  have "\<exists>us. keeps t (after_send e m ok nosend s) us {#}"
  proof (cases "ok \<or> nosend = None \<and> sm_full m = None")
    case True
    then have "after_send e m ok nosend s = t" by (auto simp: after)
    then show ?thesis using keeps_refl by auto
  next
    case False
    then obtain f where "\<not> is_callback f" "after_send e m ok nosend s = proxy_job f t"
    proof (cases nosend)
      case None
      then obtain cb where "sm_full m = Some cb" using False by auto
      then have "after_send e m ok nosend s = proxy_job (queue_full cb) t" unfolding after using None False by simp
      then show ?thesis using that [of "queue_full cb"] by simp
    next
      case (Some cb)
      then have "after_send e m ok nosend s = proxy_job (send_failure cb None) t" unfolding after using False by simp
      then show ?thesis using that [of "send_failure cb None"] by simp
    qed
    then show ?thesis using keeps_extra_job by fastforce
  qed
  then show ?thesis using keeps_trans [OF ts] by fastforce
qed

lemma keeps_proxy_send:
  assumes "proxy_send e m s = Some t"
    and fresh: "\<And>cb tag timeout. sm_request m = Some (cb, tag, timeout) \<Longrightarrow> map_of (pending_requests s) tag = None"
  shows "\<exists>ts. keeps s t ts (issued_by m)"
proof -
  obtain ok nosend u where u: "send_loop e m 0 s = Some (ok, nosend, u)" "t = after_send e m ok nosend u"
    using assms(1) by (auto simp: proxy_send_def)
  obtain n s' where last: "quiet s s'" "send_attempt e m n s' = Some (attempt_done ok nosend u)"
    using send_loop_last [OF u(1), of "quiet s", OF quiet_refl] keeps_send_attempt [of e m] quiet_trans [of s] by blast
  then obtain ts where ts: "keeps s u ts {#}" using keeps_send_attempt [OF last(2)] keeps_cong' [OF last(1)] by blast
  have "pending_requests u = pending_requests s" using keeps_send_attempt [OF last(2)] last(1) by (simp add: quiet_def)
  then obtain us where "keeps u t us (issued_by m)" using keeps_after_send [of m u e ok nosend] fresh u(2) by auto
  then show ?thesis using keeps_trans [OF ts] by fastforce
qed

lemma keeps_finish_request: "\<exists>ts. keeps s (finish_request tag success data s) ts {#}"
proof (cases "map_of (pending_requests s) tag")
  case None
  then show ?thesis using keeps_refl by (auto simp: finish_request_def)
next
  case (Some xc)
  obtain x cb where xc: "xc = (x, cb)" by fastforce
  let ?f = "reply_task cb success data"
  have rest: "add_mset (request_promise cb) (request_promises (erase_first (\<lambda>r. fst r = tag) rs)) = request_promises rs"
    if "map_of rs tag = Some (x, cb)" for rs
    using that by (induction rs) (auto simp: request_promises_def split: if_splits)
  have "keeps s ((proxy_schedule_reply_job ?f s)\<lparr>pending_requests := erase_first (\<lambda>r. fst r = tag) (pending_requests s)\<rparr>) [?f] {#}"
  proof (rule keeps_job)
    show "if is_callback ?f then \<exists>p. settles p ?f \<and> add_mset p (promises ((proxy_schedule_reply_job ?f s)
        \<lparr>pending_requests := erase_first (\<lambda>r. fst r = tag) (pending_requests s)\<rparr>)) = promises s + {#}
      else promises ((proxy_schedule_reply_job ?f s)\<lparr>pending_requests := erase_first (\<lambda>r. fst r = tag) (pending_requests s)\<rparr>) = promises s + {#}"
      using rest [OF Some [unfolded xc]]
      by (auto simp: promises_def net_more [OF more_schedule] intro!: exI [of _ "request_promise cb"])
  qed (simp_all add: schedule_heap)
  then show ?thesis using Some xc by (auto simp: finish_request_def Let_def net_more [OF more_schedule])
qed

lemma keeps_hello: "\<exists>ts. keeps s (handle_hello conn_id s) ts {#}"
proof (cases "List.find (\<lambda>pc. pn_conn_id pc = conn_id) (pending_connects s)")
  case None
  then show ?thesis using keeps_refl by (auto simp: handle_hello_def)
next
  case (Some pc)
  show ?thesis
  proof (cases "mm_find conn_eq (conn_of_id (pn_conn_id pc)) (peers s)")
    case None
    then show ?thesis using keeps_refl Some by (auto simp: handle_hello_def)
  next
    case (Some cp)
    let ?f = "connect_success (pn_on_connect pc) (fst cp)"
    let ?p = "connect_promise (pn_on_connect pc) (pn_on_failure pc)"
    let ?pcs = "erase_first (\<lambda>pc. pn_conn_id pc = conn_id) (pending_connects s)"
    have "add_mset ?p (connect_promises ?pcs) = connect_promises (pending_connects s)"
      using find_erase_first [OF \<open>List.find _ _ = Some pc\<close>] by (metis (no_types, lifting) connect_promises_def
          image_mset_add_mset mset.simps(2) mset_append union_mset_add_mset_right)
    then have "keeps s ((proxy_schedule_reply_job ?f s)\<lparr>pending_connects := ?pcs\<rparr>) [?f] {#}"
      by (intro keeps_job) (auto simp: schedule_heap promises_def net_more [OF more_schedule] intro!: exI [of _ ?p])
    then show ?thesis using Some \<open>List.find _ _ = Some pc\<close>
      by (auto simp: handle_hello_def Let_def case_prod_unfold net_more [OF more_schedule])
  qed
qed

lemma keeps_builtin: "\<exists>ts. keeps s (snd (proxy_handle_builtin e conn_id parts s)) ts {#}"
proof -
  have same: "\<exists>ts. keeps s s ts {#}" using keeps_refl by blast
  have q: "\<exists>ts. keeps s t ts {#}" if "quiet s t" for t using quiet_keeps [OF that] by blast
  have pair: "(c \<Longrightarrow> \<exists>ts. keeps s (snd x) ts {#}) \<Longrightarrow> (\<not> c \<Longrightarrow> \<exists>ts. keeps s (snd y) ts {#}) \<Longrightarrow> \<exists>ts. keeps s (snd (if c then x else y)) ts {#}"
    for c and x y :: "bool \<times> 'a net_scheme" by simp
  have single: "(c \<Longrightarrow> \<exists>ts. keeps s t ts {#}) \<Longrightarrow> (\<not> c \<Longrightarrow> \<exists>ts. keeps s u ts {#}) \<Longrightarrow> \<exists>ts. keeps s (snd (b, if c then t else u)) ts {#}"
    for b c and t u :: "'a net_scheme" by simp
  have single2: "(c \<Longrightarrow> \<exists>ts. keeps s t ts {#}) \<Longrightarrow> (\<not> c \<Longrightarrow> \<exists>ts. keeps s u ts {#}) \<Longrightarrow> \<exists>ts. keeps s (if c then t else u) ts {#}"
    for c and t u :: "'a net_scheme" by simp
  show ?thesis unfolding proxy_handle_builtin_def Let_def
    by (intro pair single single2; (simp only: snd_conv)?; (intro same keeps_finish_request keeps_hello q quiet_send quiet_close)?)
qed

lemma keeps_connect_remote:
  "\<exists>ts. keeps s (proxy_connect_remote e i remote pk lvl ok fail timeout eph s) ts {#connect_promise ok fail#}"
proof (cases "zmq_connect e remote pk eph")
  case (Some err)
  let ?f = "connect_failure fail (conn_of_id i) (''connect() failed: '' @ err)"
  have "keeps s (proxy_schedule_reply_job ?f s) [?f] {#connect_promise ok fail#}"
    by (intro keeps_job) (auto simp: schedule_heap intro!: exI [of _ "connect_promise ok fail"])
  then show ?thesis using Some by (auto simp: proxy_connect_remote_def)
next
  case None
  let ?pc = "\<lparr>pn_conn_id = i, pn_expiry = now e + ms timeout, pn_on_connect = ok, pn_on_failure = fail\<rparr>"
  define s1 where "s1 = (if map_of (connections s) i = None
      then s\<lparr>connections := connections s @ [(i, setup_outgoing_socket remote pk eph s)]\<rparr> else s)\<lparr>connections_updated := True\<rparr>"
  obtain r t where m: "send_message_parts e 0 i (send_direct_message ''HI'' []) s1 = (r, t)" by fastforce
  have "quiet s s1" by (simp add: s1_def quiet_def)
  then have "quiet s t" using quiet_trans quiet_send_eq [OF m] by blast
  then have q: "quiet s (case r of send_error err \<Rightarrow> t\<lparr>proxy_died := True\<rparr> | _ \<Rightarrow> t)"
    by (simp add: quiet_def split: send_result.splits)
  have "quiet (u\<lparr>pending_connects := pcs\<rparr>) (u\<lparr>pending_connects := pcs, peers := ps\<rparr>)" for pcs ps and u :: "'a net_scheme"
    by (simp add: quiet_def)
  moreover have "keeps u (u\<lparr>pending_connects := pending_connects u @ [?pc]\<rparr>) [] {#connect_promise ok fail#}" for u :: "'a net_scheme"
    by (simp add: keeps_def creates_def promises_def connect_promises_def)
  ultimately have "\<exists>ts. keeps s (u\<lparr>pending_connects := pending_connects u @ [?pc], peers := ps\<rparr>) ts {#connect_promise ok fail#}"
    if "quiet s u" for u ps using keeps_cong' [OF that keeps_cong] by blast
  then show ?thesis using q
    unfolding proxy_connect_remote_def None option.case Let_def s1_def [symmetric] m case_prod_conv by blast
qed

section \<open>Runs of the proxy\<close>

text \<open>
  One operation of the proxy, with the promises that it makes: a request promises its callback, \<^verbatim>\<open>connect_remote\<close>
  one of its two callbacks. A request's tag is random and is not the tag of a request that is still pending.
\<close>

inductive net_op :: "promise multiset \<Rightarrow> 'a net_scheme \<Rightarrow> 'a net_scheme \<Rightarrow> bool" where
  op_send: "proxy_send e m s = Some t \<Longrightarrow>
    (\<And>cb tag timeout. sm_request m = Some (cb, tag, timeout) \<Longrightarrow> map_of (pending_requests s) tag = None) \<Longrightarrow> net_op (issued_by m) s t"
| op_reply: "proxy_reply e c parts s = Some t \<Longrightarrow> net_op {#} s t"
| op_connect_sn: "net_op {#} s (snd (proxy_connect_sn e pk hint optional incoming outgoing eph keep s))"
| op_connect_remote: "net_op {#connect_promise ok fail#} s (proxy_connect_remote e i remote pk lvl ok fail timeout eph s)"
| op_disconnect: "net_op {#} s (proxy_disconnect c s)"
| op_bind: "net_op {#} s (snd (proxy_bind_message zb b s))"
| op_cleanup: "net_op {#} s (proxy_conn_cleanup e s)"
| op_builtin: "net_op {#} s (snd (proxy_handle_builtin e conn_id parts s))"
| op_message: "net_op {#} s (proxy_to_worker oc e conn_id m s)"
| op_set_sns: "net_op {#} s (proxy_set_active_sns pks s)"
| op_update_sns: "net_op {#} s (proxy_update_active_sns added removed s)"

text \<open>
  A run: the promises made and, in order, the jobs created by the operations above. In between, the worker pool
  runs: it starts, finishes and frees jobs, and leaves the state of the connections alone.
\<close>

inductive net_run :: "'a net_scheme \<Rightarrow> promise multiset \<Rightarrow> task list \<Rightarrow> 'a net_scheme \<Rightarrow> bool" for s where
  run_start: "net_run s {#} [] s"
| run_op: "net_run s issued done_jobs t \<Longrightarrow> net_op p t u \<Longrightarrow> creates t u js \<Longrightarrow> net_run s (issued + p) (done_jobs @ js) u"
| run_pool: "net_run s issued done_jobs t \<Longrightarrow> pool.more u = pool.more t \<Longrightarrow> net_run s issued done_jobs u"

lemma net_op_keeps: "net_op p s t \<Longrightarrow> \<exists>ts. keeps s t ts p"
proof (induction rule: net_op.induct)
  case (op_send e m s t)
  then show ?case by (intro keeps_proxy_send) auto
qed (auto intro: keeps_connect_remote keeps_cleanup keeps_builtin quiet_keeps quiet_reply quiet_disconnect quiet_bind
    quiet_to_worker quiet_sns quiet_connect_sn)

text \<open>So an operation can always be recorded in a run.\<close>

lemma net_run_step: "net_run s issued done_jobs t \<Longrightarrow> net_op p t u \<Longrightarrow> \<exists>js. net_run s (issued + p) (done_jobs @ js) u"
  using net_op_keeps [of p t u] by (auto simp: keeps_def intro: run_op)

lemma net_run_keeps:
  assumes "net_run s issued done_jobs t"
  shows "\<exists>settled. list_all2 settles settled (filter is_callback done_jobs) \<and> mset settled + promises t = promises s + issued"
  using assms
proof (induction rule: net_run.induct)
  case run_start
  show ?case by simp
next
  case (run_op issued done_jobs t p u js)
  obtain ts where ts: "keeps t u ts p" using net_op_keeps [OF run_op.hyps(2)] by blast
  then have "ts = js" using run_op.hyps(3) creates_unique by (auto simp: keeps_def)
  then obtain xs ys where "list_all2 settles xs (filter is_callback done_jobs)" "mset xs + promises t = promises s + issued"
    "list_all2 settles ys (filter is_callback js)" "mset ys + promises u = promises t + p"
    using run_op.IH ts by (auto simp: keeps_def)
  moreover from this have "mset (xs @ ys) + promises u = promises s + (issued + p)" by (simp add: ac_simps)
  ultimately show ?case by (intro exI [of _ "xs @ ys"]) (simp add: list_all2_appendI)
next
  case (run_pool issued done_jobs t u)
  then show ?case by (simp add: promises_def net_more [OF run_pool.hyps(2)])
qed

section \<open>Properties\<close>

text \<open>C5: every callback that is owed is called exactly once. In every run of the proxy, whatever libzmq answers and in
  whatever order messages, replies, connects and clean-ups come, the promises made (the callback of each request, one
  of the two callbacks of each \<^verbatim>\<open>connect_remote\<close>) are settled one to one by the callback jobs that were created,
  up to those still in \<^verbatim>\<open>pending_requests\<close> and \<^verbatim>\<open>pending_connects\<close>: none is lost, none is settled twice and no
  callback runs that was not promised.\<close>

theorem promises_kept:
  assumes "net_run s issued done_jobs t"
  shows "\<exists>settled. list_all2 settles settled (filter is_callback done_jobs) \<and> mset settled + promises t = promises s + issued"
  by (rule net_run_keeps [OF assms])

text \<open>After a clean-up late enough, nothing is owed.\<close>

definition late_env :: "env \<Rightarrow> 'a net_scheme \<Rightarrow> env" where
  "late_env e s = e\<lparr>now := fold max (map (\<lambda>r. fst (snd r)) (pending_requests s) @ map pn_expiry (pending_connects s)) 0 + 1\<rparr>"

lemma fold_max_bound: "x \<in> set xs \<or> x = (a :: int) \<Longrightarrow> x \<le> fold max xs a"
proof (induction xs arbitrary: a x)
  case (Cons y ys)
  show ?case
  proof (cases "x \<in> set ys")
    case False
    then have "x \<le> max y a" using Cons.prems by auto
    then show ?thesis using Cons.IH [of "max y a" "max y a"] by (simp add: max_def split: if_splits)
  qed (use Cons.IH in simp)
qed simp

lemma late_cleanup: "promises (proxy_conn_cleanup (late_env e s) s) = {#}"
proof -
  let ?xs = "map (\<lambda>r. fst (snd r)) (pending_requests s) @ map pn_expiry (pending_connects s)"
  have "x < now (late_env e s)" if "x \<in> set ?xs" for x
    using fold_max_bound [OF disjI1, OF that, of 0] by (simp add: late_env_def del: fold_append)
  then have "filter (\<lambda>r. now (late_env e s) \<le> fst (snd r)) (pending_requests s) = []"
    "filter (\<lambda>pc. now (late_env e s) \<le> pn_expiry pc) (pending_connects s) = []"
    by (fastforce simp: filter_empty_conv not_le)+
  then show ?thesis by (simp add: promises_def cleanup_pending request_promises_def connect_promises_def)
qed

definition request_a :: send_msg where
  "request_a = \<lparr>sm_conn = conn_of SN_ID pk_a [], sm_hint = [], sm_incoming = False, sm_keep_alive = 30000,
      sm_optional = False, sm_outgoing = False, sm_request = Some (7, ''tag00001'', 15000), sm_send = [''a.b'', ''tag00001''],
      sm_fail = None, sm_full = None\<rparr>"

theorem promises_kept_witness:
  "\<exists>done_jobs t. net_run net_connected {#request_promise 7#} done_jobs t \<and> promises t = {#} \<and>
     length (filter is_callback done_jobs) = 1 \<and> list_all (settles (request_promise 7)) (filter is_callback done_jobs)"
proof -
  have "clear_way request_a net_connected" by (simp add: clear_way_def request_a_def)
  from send_loop_ends [OF this, of example_env 0] obtain t where t: "proxy_send example_env request_a net_connected = Some t"
    by (auto simp: proxy_send_def)
  have pend: "promises net_connected = {#}" "pending_requests net_connected = []"
    by (simp_all add: promises_def request_promises_def connect_promises_def net_connected_def net_listening_def)
  have "net_op (issued_by request_a) net_connected t" by (rule op_send [OF t]) (simp add: pend)
  then have "net_op {#request_promise 7#} net_connected t" by (simp add: issued_by_def request_a_def)
  from net_run_step [OF run_start this] obtain js where "net_run net_connected {#request_promise 7#} js t" by auto
  from net_run_step [OF this op_cleanup] obtain ks where
    run: "net_run net_connected {#request_promise 7#} (js @ ks) (proxy_conn_cleanup (late_env example_env t) t)" by auto
  from promises_kept [OF run] obtain settled where s: "list_all2 settles settled (filter is_callback (js @ ks))"
    "mset settled = {#request_promise 7#}" by (auto simp: late_cleanup pend)
  then have "settled = [request_promise 7]" by simp
  then have "length (filter is_callback (js @ ks)) = 1 \<and> list_all (settles (request_promise 7)) (filter is_callback (js @ ks))"
    using s(1) by (auto simp: list_all2_Cons1 simp del: filter_append)
  then show ?thesis using run late_cleanup [of example_env t] by blast
qed

text \<open>The clean-up expires exactly what is due. A clean-up keeps the requests and the connects that have not expired, in
  order, and drops the others; it creates one job for each of the latter and no other job: a failure callback with
  \<^verbatim>\<open>connection attempt timed out\<close> for a connect, a failed reply with \<^verbatim>\<open>TIMEOUT\<close> for a request.\<close>

theorem cleanup_exact:
  "pending_connects (proxy_conn_cleanup e s) = filter (\<lambda>pc. now e \<le> pn_expiry pc) (pending_connects s) \<and>
   pending_requests (proxy_conn_cleanup e s) = filter (\<lambda>r. now e \<le> fst (snd r)) (pending_requests s) \<and>
   creates s (proxy_conn_cleanup e s) (map timeout_connect (filter (\<lambda>pc. pn_expiry pc < now e) (pending_connects s)) @
       map timeout_reply (filter (\<lambda>r. fst (snd r) < now e) (pending_requests s)))"
  by (simp add: cleanup_pending)

lemma creates_job: "creates s (proxy_job f s) [f]"
  by (simp add: creates_def proxy_job_heap)

text \<open>C33: a send error also calls the full-queue callback. \<^verbatim>\<open>send_option::queue_full\<close> is documented to be called only
  when the queue is full, and send errors to be dropped for it. But when libzmq reports an error other than an unreachable
  host, \<^verbatim>\<open>proxy_send\<close> schedules the \<^verbatim>\<open>queue_failure\<close> callback with the error and after it the \<^verbatim>\<open>queue_full\<close> callback.\<close>

theorem queue_full_misreported:
  assumes "choose_socket e m s = (Some (c, route), s)" "map_of (connections s) c = Some sk" "sk \<noteq> null_sock"
    and err: "zmq_send e 0 c (build_send_parts (sm_send m) route) = send_error err" "err \<noteq> EHOSTUNREACH"
    and opts: "sm_fail m = Some f" "sm_full m = Some q" "sm_request m = None"
  shows "\<exists>t. proxy_send e m s = Some t \<and> creates s t [send_failure f (Some err), queue_full q]"
proof -
  let ?t = "proxy_job (queue_full q) (proxy_job (send_failure f (Some err)) s)"
  have "send_message_parts e 0 c (build_send_parts (sm_send m) route) s = (send_error err, s)"
    using assms(2,3) err(1) by (simp add: send_message_parts_def split: sock.splits)
  then have "send_attempt e m 0 s = Some (attempt_done False None (proxy_job (send_failure f (Some err)) s))"
    using assms(1) err(2) opts(1) by (simp add: send_attempt_def give_up_def)
  then have "proxy_send e m s = Some ?t"
    using opts by (simp add: proxy_send_def send_loop.simps [of e m 0 s] after_send_def)
  moreover have "creates s ?t ([send_failure f (Some err)] @ [queue_full q])"
    using creates_trans creates_job by blast
  ultimately show ?thesis by simp
qed

definition noisy_send :: send_msg where
  "noisy_send = \<lparr>sm_conn = conn_of SN_ID pk_a [], sm_hint = [], sm_incoming = False, sm_keep_alive = 0,
      sm_optional = False, sm_outgoing = False, sm_request = None, sm_send = [''a.b''], sm_fail = Some 1, sm_full = Some 2\<rparr>"

theorem queue_full_misreported_witness:
  "reachable_net net_connected \<and>
   (\<exists>t. proxy_send (example_env\<lparr>zmq_send := (\<lambda>n c ps. send_error ENOTSOCK)\<rparr>) noisy_send net_connected = Some t
     \<and> creates net_connected t [send_failure 1 (Some ENOTSOCK), queue_full 2])"
proof -
  let ?e = "example_env\<lparr>zmq_send := (\<lambda>n c ps. send_error ENOTSOCK)\<rparr>"
  have "choose_socket ?e noisy_send net_connected = (Some (2, []), net_connected)"
    by (simp add: choose_socket_def noisy_send_def proxy_connect_sn_def conn_of_pubkey_def Let_def net_connected_def conn_of_def conn_sn_def
      sn_peer_ok_def conn_eq_def peer_a_def peer_activity_def example_env_def connections_index_def pi_outgoing_def)
  moreover have "map_of (connections net_connected) 2 = Some (dealer_sock ''tcp://10.0.0.1:22'' pk_a (Some (CHR ''L'' # replicate 32 CHR ''s'')))"
    by (simp add: net_connected_def)
  ultimately show ?thesis
    using queue_full_misreported [of ?e noisy_send net_connected 2 "[]" _ ENOTSOCK 1 2] net_connected_reachable
    by (auto simp: noisy_send_def ENOTSOCK_def EHOSTUNREACH_def)
qed

end
