(* ===== verification/Net_Access.thy ===== *)
theory Net_Access
  imports Net_Requests
begin

text \<open>
  Who may do what. The set of active service nodes after \<^verbatim>\<open>set_active_sns\<close> and \<^verbatim>\<open>update_active_sns\<close>, with the peers and
  sockets of the nodes that leave it, and the commands that \<^verbatim>\<open>proxy_to_worker\<close> lets through, both against specifications.
\<close>

section \<open>The set of active service nodes\<close>

text \<open>The peers of the service nodes \<open>ks\<close>, and the sockets of the outgoing ones.\<close>

definition peers_of :: "string set \<Rightarrow> connection_id \<times> peer_info \<Rightarrow> bool" where
  "peers_of ks kp \<longleftrightarrow> conn_sn (fst kp) \<and> cid_pk (fst kp) \<in> ks"

definition sockets_of :: "string set \<Rightarrow> 'a net_scheme \<Rightarrow> int set" where
  "sockets_of ks s = (\<lambda>kp. pi_conn_id (snd kp)) ` {kp \<in> set (peers s). peers_of ks kp \<and> pi_outgoing (snd kp)}"

text \<open>What a change of the set of service nodes to \<open>A\<close> means: the peers of the nodes that are gone are forgotten, and their
  outgoing connections closed, and nothing else changes.\<close>

definition sns_changed :: "string set \<Rightarrow> 'a net_scheme \<Rightarrow> 'a net_scheme \<Rightarrow> bool" where
  "sns_changed A s t \<longleftrightarrow> (let gone = set (active_service_nodes s) - A in
     set (active_service_nodes t) = A \<and> distinct (active_service_nodes t)
     \<and> peers t = filter (\<lambda>kp. \<not> peers_of gone kp) (peers s)
     \<and> connections t = filter (\<lambda>c. fst c \<notin> sockets_of gone s) (connections s)
     \<and> outgoing_sn_conns t = filter (\<lambda>c. fst c \<notin> sockets_of gone s) (outgoing_sn_conns s)
     \<and> pending_connects t = pending_connects s \<and> pending_requests t = pending_requests s
     \<and> proxy_died t = proxy_died s \<and> pool.truncate t = pool.truncate s)"

lemma conn_eq_sn: "conn_eq k (conn_of SN_ID pk []) \<longleftrightarrow> conn_sn k \<and> cid_pk k = pk"
  by (auto simp: conn_eq_def conn_sn_def conn_of_def)

text \<open>What the removal of nodes leaves alone.\<close>

definition sns_rest :: "'a net_scheme \<Rightarrow> pending_connect list \<times> (string \<times> int \<times> nat) list \<times> bool \<times> pool" where
  "sns_rest s = (pending_connects s, pending_requests s, proxy_died s, pool.truncate s)"

lemma remove_sn_exact:
  assumes inv: "net_inv s" and t: "t = remove_sn pk s"
  shows "active_service_nodes t = filter (\<lambda>k. k \<noteq> pk) (active_service_nodes s)"
    "peers t = filter (\<lambda>kp. \<not> peers_of {pk} kp) (peers s)"
    "connections t = filter (\<lambda>c. fst c \<notin> sockets_of {pk} s) (connections s)"
    "outgoing_sn_conns t = filter (\<lambda>c. fst c \<notin> sockets_of {pk} s) (outgoing_sn_conns s)"
    "sns_rest t = sns_rest s"
proof -
  let ?ids = "map (\<lambda>kp. pi_conn_id (snd kp))
        (filter (\<lambda>kp. pi_outgoing (snd kp)) (mm_equal_range conn_eq (conn_of SN_ID pk []) (peers s)))"
  let ?s = "s\<lparr>active_service_nodes := filter (\<lambda>k. k \<noteq> pk) (active_service_nodes s)\<rparr>"
  have ids: "set ?ids = sockets_of {pk} s"
    by (auto simp: mm_equal_range_def conn_eq_sn sockets_of_def peers_of_def)
  have "closable ?s" using net_inv_closable [OF inv] by (simp add: closable_def)
  from close_all_eq [OF this, of ?ids] obtain u where u: "fold proxy_close_connection ?ids ?s =
      ?s\<lparr>connections := filter (\<lambda>c. fst c \<notin> sockets_of {pk} s) (connections s), connections_updated := u,
        outgoing_sn_conns := filter (\<lambda>c. fst c \<notin> sockets_of {pk} s) (outgoing_sn_conns s)\<rparr>" unfolding ids by auto
  show "active_service_nodes t = filter (\<lambda>k. k \<noteq> pk) (active_service_nodes s)"
    "peers t = filter (\<lambda>kp. \<not> peers_of {pk} kp) (peers s)"
    "connections t = filter (\<lambda>c. fst c \<notin> sockets_of {pk} s) (connections s)"
    "outgoing_sn_conns t = filter (\<lambda>c. fst c \<notin> sockets_of {pk} s) (outgoing_sn_conns s)"
    "sns_rest t = sns_rest s"
    unfolding t remove_sn_eq u by (simp_all add: mm_erase_key_def conn_eq_sn peers_of_def sns_rest_def pool.defs)
qed

lemma sockets_of_filter:
  assumes "net_inv s" "peers t = filter (\<lambda>kp. \<not> peers_of {pk} kp) (peers s)"
  shows "sockets_of {pk} s \<union> sockets_of ks t = sockets_of (insert pk ks) s"
  using assms(2) by (auto simp: sockets_of_def peers_of_def)

lemma fold_remove_sn_exact:
  assumes "net_inv s" "t = fold remove_sn ks s"
  shows "active_service_nodes t = filter (\<lambda>k. k \<notin> set ks) (active_service_nodes s) \<and>
    peers t = filter (\<lambda>kp. \<not> peers_of (set ks) kp) (peers s) \<and>
    connections t = filter (\<lambda>c. fst c \<notin> sockets_of (set ks) s) (connections s) \<and>
    outgoing_sn_conns t = filter (\<lambda>c. fst c \<notin> sockets_of (set ks) s) (outgoing_sn_conns s) \<and>
    sns_rest t = sns_rest s"
  using assms
proof (induction ks arbitrary: s)
  case Nil
  then show ?case by (simp add: peers_of_def sockets_of_def)
next
  case (Cons pk ks)
  let ?u = "remove_sn pk s"
  note u = remove_sn_exact [OF Cons.prems(1) refl, of pk]
  have ih: "active_service_nodes t = filter (\<lambda>k. k \<notin> set ks) (active_service_nodes ?u) \<and>
    peers t = filter (\<lambda>kp. \<not> peers_of (set ks) kp) (peers ?u) \<and>
    connections t = filter (\<lambda>c. fst c \<notin> sockets_of (set ks) ?u) (connections ?u) \<and>
    outgoing_sn_conns t = filter (\<lambda>c. fst c \<notin> sockets_of (set ks) ?u) (outgoing_sn_conns ?u) \<and> sns_rest t = sns_rest ?u"
    using Cons by (intro Cons.IH) (simp_all add: net_inv_remove_sn)
  have "sockets_of (set (pk # ks)) s = sockets_of {pk} s \<union> sockets_of (set ks) ?u"
    using sockets_of_filter [OF Cons.prems(1) u(2), of "set ks"] by simp
  then show ?case using ih unfolding u
    by (auto simp: filter_filter peers_of_def intro!: filter_cong)
qed

lemma set_fold_insert: "set (fold set_insert xs ys) = set ys \<union> set xs"
  by (induction xs arbitrary: ys) (auto simp: set_insert_def)

lemma distinct_fold_insert: "distinct ys \<Longrightarrow> distinct (fold set_insert xs ys)"
  by (induction xs arbitrary: ys) (auto simp: set_insert_def)

lemma update_clean_exact:
  assumes inv: "net_inv s" and "distinct (active_service_nodes s)" "set removed \<subseteq> set (active_service_nodes s)" "set removed \<inter> set added = {}"
    and A: "A = set (active_service_nodes s) - set removed \<union> set added"
  shows "sns_changed A s (proxy_update_active_sns_clean added removed s)"
proof -
  let ?t = "fold remove_sn removed s"
  have "set (active_service_nodes s) - A = set removed" using assms(3,4) unfolding A by auto
  moreover have "set (active_service_nodes s) - set removed = {k \<in> set (active_service_nodes s). k \<notin> set removed}" by auto
  ultimately show ?thesis using fold_remove_sn_exact [OF inv refl, of removed] assms(2)
    by (simp add: sns_changed_def Let_def proxy_update_active_sns_clean_def set_fold_insert distinct_fold_insert A sns_rest_def pool.defs)
qed

text \<open>The early exit of the loop of \<^verbatim>\<open>proxy_set_active_sns\<close> does not miss a node.\<close>

lemma sns_removed_exact:
  assumes "distinct (xs @ ys)" "distinct pks" "int (length (xs @ ys)) + int (length pks) < 2 ^ 64"
  shows "sns_removed (length (xs @ ys)) (length (filter (\<lambda>k. k \<notin> set (xs @ ys)) pks)) pks ys (filter (\<lambda>k. k \<notin> set pks) xs)
    = filter (\<lambda>k. k \<notin> set pks) (xs @ ys)"
  using assms
proof (induction ys arbitrary: xs)
  case (Cons y ys)
  let ?all = "xs @ y # ys" and ?P = "\<lambda>k. k \<notin> set pks"
  let ?r = "if y \<notin> set pks then set_insert y (filter ?P xs) else filter ?P xs"
  have r: "?r = filter ?P (xs @ [y])" using Cons.prems(1) by (auto simp: set_insert_def)
  have both: "length (filter (\<lambda>k. k \<in> set ?all) pks) = length (filter (\<lambda>k. k \<in> set pks) ?all)"
    using distinct_length_filter [OF Cons.prems(2), of "\<lambda>k. k \<in> set ?all"]
      distinct_length_filter [OF Cons.prems(1), of "\<lambda>k. k \<in> set pks"] by (simp only: Collect_mem_eq Int_commute)
  have "length pks = length (filter (\<lambda>k. k \<in> set ?all) pks) + length (filter (\<lambda>k. k \<notin> set ?all) pks)"
    by (rule sum_length_filter_compl [symmetric])
  moreover have "length ?all = length (filter (\<lambda>k. k \<in> set pks) ?all) + length (filter ?P ?all)"
    by (rule sum_length_filter_compl [symmetric])
  ultimately have size: "int (length ?all) + int (length (filter (\<lambda>k. k \<notin> set ?all) pks)) = int (length pks) + int (length (filter ?P ?all))"
    using both by linarith
  have le: "length (filter ?P (xs @ [y])) \<le> length (filter ?P ?all)" by simp
  have stop: "(int (length ?all) + int (length (filter (\<lambda>k. k \<notin> set ?all) pks)) - int (length ?r)) mod 2 ^ 64 = int (length pks)
      \<longleftrightarrow> length (filter ?P (xs @ [y])) = length (filter ?P ?all)"
  proof -
    have "int (length pks) + int (length (filter ?P ?all)) - int (length (filter ?P (xs @ [y]))) < 2 ^ 64"
      using Cons.prems(3) length_filter_le [of ?P ?all] by linarith
    then show ?thesis unfolding size r using le by (subst mod_pos_pos_trivial) auto
  qed
  show ?case
  proof (cases "length (filter ?P (xs @ [y])) = length (filter ?P ?all)")
    case True
    then have "filter ?P ys = []" by (simp split: if_splits)
    then show ?thesis using stop True r by (simp add: Let_def)
  next
    case False
    then have "sns_removed (length ?all) (length (filter (\<lambda>k. k \<notin> set ?all) pks)) pks (y # ys) (filter ?P xs) =
      sns_removed (length ((xs @ [y]) @ ys)) (length (filter (\<lambda>k. k \<notin> set ((xs @ [y]) @ ys)) pks)) pks ys (filter ?P (xs @ [y]))"
      using stop unfolding sns_removed.simps(2) Let_def r by simp
    then show ?thesis using Cons.IH [of "xs @ [y]"] Cons.prems by simp
  qed
qed simp

lemma set_active_sns_exact:
  assumes inv: "net_inv s" and act: "distinct (active_service_nodes s)" and pks: "distinct pks"
    and size: "int (length (active_service_nodes s)) + int (length pks) < 2 ^ 64"
  shows "sns_changed {pk \<in> set pks. length pk = 32} s (proxy_set_active_sns pks s)"
proof -
  let ?a = "active_service_nodes s" and ?p = "filter (\<lambda>pk. length pk = 32) pks"
  let ?added = "filter (\<lambda>pk. pk \<notin> set ?a) ?p"
  have p: "distinct ?p" "set ?p = {pk \<in> set pks. length pk = 32}" using pks by auto
  have "int (length ([] @ ?a)) + int (length ?p) < 2 ^ 64"
    using size length_filter_le [of "\<lambda>pk. length pk = 32" pks] by (simp del: length_filter_le)
  from sns_removed_exact [OF _ p(1) this] act have rem: "sns_removed (length ?a) (length ?added) ?p ?a [] = filter (\<lambda>k. k \<notin> set ?p) ?a"
    by simp
  show ?thesis
  proof (cases "?added = [] \<and> length ?a = length ?p")
    case True
    then have "set ?p \<subseteq> set ?a" by (auto simp: filter_empty_conv)
    then have "set ?p = set ?a" using True act p(1) by (metis card_subset_eq distinct_card finite_set)
    moreover have "proxy_set_active_sns pks s = s" using True by (simp add: proxy_set_active_sns_def Let_def)
    ultimately show ?thesis using act p(2) by (simp add: sns_changed_def peers_of_def sockets_of_def)
  next
    case False
    then have "proxy_set_active_sns pks s = proxy_update_active_sns_clean ?added (filter (\<lambda>k. k \<notin> set ?p) ?a) s"
      using rem by (auto simp: proxy_set_active_sns_def Let_def)
    moreover have "sns_changed (set ?p) s (proxy_update_active_sns_clean ?added (filter (\<lambda>k. k \<notin> set ?p) ?a) s)"
      by (rule update_clean_exact [OF inv act]) auto
    ultimately show ?thesis using p(2) by simp
  qed
qed

lemma update_active_sns_exact:
  assumes inv: "net_inv s" and act: "distinct (active_service_nodes s)"
  shows "sns_changed ({pk \<in> set (active_service_nodes s). pk \<notin> set removed \<or> length pk \<noteq> 32 \<or> pk \<in> set added} \<union> {pk \<in> set added. length pk = 32})
    s (proxy_update_active_sns added removed s)"
  unfolding proxy_update_active_sns_def Let_def by (rule update_clean_exact [OF inv act]) auto

section \<open>Which commands reach a worker\<close>

text \<open>The specification: a command may run when its sender has at least the level of the category, is a service node if the
  category asks for one, the local node is one if the category asks for that, and a request has a reply tag.\<close>

definition permitted :: "category \<Rightarrow> auth_level \<Rightarrow> bool \<Rightarrow> bool \<Rightarrow> bool \<Rightarrow> string list \<Rightarrow> bool" where
  "permitted cat lvl sn own_sn is_request data \<longleftrightarrow> auth (cat_access cat) \<le> lvl
     \<and> (remote_sn (cat_access cat) \<longrightarrow> sn) \<and> (local_sn (cat_access cat) \<longrightarrow> own_sn) \<and> (is_request \<longrightarrow> data \<noteq> [])"

definition gate :: "int \<Rightarrow> string \<Rightarrow> auth_level \<Rightarrow> bool \<Rightarrow> string \<Rightarrow> bool \<Rightarrow> string list \<Rightarrow> string \<Rightarrow> pool \<Rightarrow> pool" where
  "gate conn_id pk lvl sn route own_sn body remote w =
     (case get_command w (hd body) of
        (command, None) \<Rightarrow> w
      | (command, Some (cat, entry)) \<Rightarrow>
          if permitted (get_category cat w) lvl sn own_sn (snd entry) (tl body)
          then snd (dispatch_command cat command (tl body) entry (conn_of (if sn then SN_ID else conn_id) pk route)
                 \<lparr>auth = lvl, remote_sn = sn, local_sn = own_sn\<rparr> remote w)
          else w)"

text \<open>Who sent a message, and its frames without the route: on a listener the pubkey and level that the ZAP handler
  attached (the owner of the process on the internal listener), on an outgoing socket the pubkey of the remote with the
  level of a peer of the same connection identifier. A sender is a service node when its pubkey is in the active set.\<close>

definition sent_by :: "oxenc \<Rightarrow> int \<Rightarrow> wire_msg \<Rightarrow> 'a net_scheme \<Rightarrow> string \<Rightarrow> auth_level \<Rightarrow> bool \<Rightarrow> string \<Rightarrow> string list \<Rightarrow> bool" where
  "sent_by oc conn_id m s pk lvl sn route body \<longleftrightarrow>
     (case map_of (connections s) conn_id of
        Some (dealer_sock a k r) \<Rightarrow>
          body = wm_parts m \<and> route = [] \<and>
          (\<exists>key p q. (key, p) \<in> set (peers s) \<and> pi_outgoing p \<and> pi_conn_id p = conn_id \<and> pk = pi_pubkey p
             \<and> (key, q) \<in> set (peers s) \<and> lvl = pi_auth_level q \<and> (sn \<longleftrightarrow> (if pk = [] then pi_service_node q else pk \<in> set (active_service_nodes s))))
      | _ \<Rightarrow>
          body = tl (wm_parts m) \<and> (pk, lvl) = (if conn_id = inproc_listener_connid s then (omq_pubkey s, auth_admin) else extract_metadata oc (wm_props m))
          \<and> (sn \<longleftrightarrow> length pk = 32 \<and> pk \<in> set (active_service_nodes s)) \<and> (route = hd (wm_parts m) \<or> sn \<and> route = []))"

text \<open>Handing out work depends on the pool only.\<close>

lemma truncate_sel: "categories (pool.truncate s) = categories s" "command_aliases (pool.truncate s) = command_aliases s"
    "workers (pool.truncate s) = workers s"
  by (simp_all add: pool.defs)

lemma truncate_upd: "pool.truncate (s\<lparr>categories := cs\<rparr>) = (pool.truncate s)\<lparr>categories := cs\<rparr>"
    "pool.truncate (s\<lparr>pending_commands := ps\<rparr>) = (pool.truncate s)\<lparr>pending_commands := ps\<rparr>"
    "pending_commands (pool.truncate s) = pending_commands s"
  by (simp_all add: pool.defs)

lemma get_truncate: "get_command (pool.truncate s) c = get_command s c" "get_category n (pool.truncate s) = get_category n s"
  unfolding get_command_def get_category_def truncate_sel by (rule refl)+

lemma truncate_on_category: "pool.truncate (on_category n f s) = on_category n f (pool.truncate s)"
  by (simp add: on_category_def truncate_upd truncate_sel)

lemma truncate_start_worker: "pool.truncate (start_worker f s) = start_worker f (pool.truncate s)"
  by (simp add: start_worker_def get_idle_worker_def Let_def pool.defs split: prod.splits)

lemma truncate_tests: "no_free_worker n (pool.truncate s) = no_free_worker n s" "queue_is_full n (pool.truncate s) = queue_is_full n s"
proof -
  have "active_workers (pool.truncate s) = active_workers s" "general_workers (pool.truncate s) = general_workers s"
    by (simp_all add: active_workers_def pool.defs)
  then show "no_free_worker n (pool.truncate s) = no_free_worker n s" "queue_is_full n (pool.truncate s) = queue_is_full n s"
    by (simp_all add: no_free_worker_def queue_is_full_def get_truncate)
qed

lemma dispatch_truncate: "pool.truncate (snd (dispatch_command n c d cb conn acc r s)) = snd (dispatch_command n c d cb conn acc r (pool.truncate s))"
  by (simp add: dispatch_command_def enqueue_pending_def truncate_on_category truncate_start_worker truncate_tests truncate_upd)

lemma truncate_send [simp]: "pool.truncate (snd (send_message_parts e n c parts s)) = pool.truncate s"
  by (simp add: send_message_parts_def pool.defs split: option.splits sock.splits send_result.splits)

lemma truncate_upd_peer [simp]: "pool.truncate (upd_peer i f s) = pool.truncate s"
  by (simp add: upd_peer_def pool.defs)

lemma truncate_check_dispatch:
  "pool.truncate (snd (check_and_dispatch e c out p route parts remote s)) =
     gate c (pi_pubkey p) (pi_auth_level p) (pi_service_node p) route (local_service_node s) parts remote (pool.truncate s)"
proof (cases "get_command s (hd parts)")
  case (Pair command cat_call)
  show ?thesis
  proof (cases cat_call)
    case None
    then show ?thesis using Pair by (simp add: check_and_dispatch_def gate_def get_truncate proxy_check_auth_def auth_failure_def Let_def)
  next
    case (Some ce)
    obtain cat entry where ce: "ce = (cat, entry)" by (metis surj_pair)
    have ok: "auth_failure p cat_call (tl parts) s = None \<longleftrightarrow>
        permitted (get_category cat s) (pi_auth_level p) (pi_service_node p) (local_service_node s) (snd entry) (tl parts)"
      using Some ce by (auto simp: auth_failure_def permitted_def Let_def not_less)
    show ?thesis
    proof (cases "auth_failure p cat_call (tl parts) s")
      case None
      then show ?thesis using Pair Some ce ok
        by (simp add: check_and_dispatch_def gate_def get_truncate proxy_check_auth_def Let_def dispatch_truncate)
    next
      case (Some reply)
      then show ?thesis using Pair \<open>cat_call = Some ce\<close> ce ok
        by (simp add: check_and_dispatch_def gate_def get_truncate proxy_check_auth_def Let_def)
    qed
  qed
qed

text \<open>The peer of an outgoing socket is always found, and has the pubkey of the socket's own peer.\<close>

lemma find_index_ex: "x \<in> set xs \<Longrightarrow> P x \<Longrightarrow> \<exists>i. find_index P xs = Some i"
  by (force simp: find_index_def in_set_conv_nth filter_empty_conv split: list.splits)

lemma outgoing_sender_found:
  assumes inv: "net_inv s" and conn: "map_of (connections s) conn_id = Some (dealer_sock a k r)"
  obtains key p q i where "(key, p) \<in> set (peers s)" "pi_outgoing p" "pi_conn_id p = conn_id"
    "(key, q) \<in> set (peers s)" "pi_pubkey q = pi_pubkey p"
    "outgoing_sender conn_id s = Some (i, upd_peer i (\<lambda>p. if pi_pubkey p \<noteq> []
             then p\<lparr>pi_service_node := (pi_pubkey p \<in> set (active_service_nodes s))\<rparr> else p) s)"
    "i < length (peers s)" "snd (peers s ! i) = q"
proof -
  have mem: "(conn_id, dealer_sock a k r) \<in> set (connections s)" using map_of_SomeD [OF conn] .
  note I = net_inv_conn [OF inv]
  have "conn_id \<in> set (out_ids (map pcore (peers s)))" using conn_inv_dealer [OF I mem] by (simp add: is_router_def)
  then obtain key p where p: "(key, p) \<in> set (peers s)" "pi_outgoing p" "pi_conn_id p = conn_id"
    by (auto simp: out_ids_pcore)
  have ok: "key_ok (key, conn_id, [], pi_pubkey p)" using conn_inv_key [OF I pcore_mem [OF p(1)]] p by (simp add: pi_outgoing_def)
  have pos: "0 < conn_id" using conn_inv_sock [OF I mem] by simp
  define f where "f = (case map_of (outgoing_sn_conns s) conn_id of Some c \<Rightarrow> c | None \<Rightarrow> conn_of_id conn_id)"
  have f: "conn_eq key f"
  proof (cases "conn_sn key")
    case True
    then have "(conn_id, key) \<in> set (outgoing_sn_conns s)"
      using conn_inv_sn [OF I] pcore_mem [OF p(1)] p by (auto simp: pi_outgoing_def)
    then have "map_of (outgoing_sn_conns s) conn_id = Some key" using conn_inv_distinct(2) [OF I] by simp
    then show ?thesis by (simp add: f_def conn_eq_equiv(1))
  next
    case False
    then have key: "key = conn_of conn_id (pi_pubkey p) []" using ok by (auto simp: key_ok_def conn_sn_def conn_of_def)
    have "map_of (outgoing_sn_conns s) conn_id = None"
    proof (rule ccontr)
      assume "map_of (outgoing_sn_conns s) conn_id \<noteq> None"
      then obtain c where "(conn_id, c) \<in> set (outgoing_sn_conns s)" by (meson map_of_SomeD not_None_eq)
      then obtain c' q where q: "(c', q) \<in> set (peers s)" "pi_outgoing q" "pi_conn_id q = conn_id" "conn_sn c'"
        using conn_inv_sn [OF I] by (auto simp: pcore_def pi_outgoing_def)
      then show False using out_peer_unique [OF inv p(1) q(1)] p False by simp
    qed
    then show ?thesis using key pos by (simp add: f_def conn_eq_id) (simp add: conn_of_def)
  qed
  obtain i where i: "find_index (\<lambda>kp. conn_eq (fst kp) f) (peers s) = Some i" using find_index_ex [OF p(1)] f by force
  then have il: "i < length (peers s)" "conn_eq (fst (peers s ! i)) f" using find_index_some by fastforce+
  obtain kq q where q: "peers s ! i = (kq, q)" by fastforce
  then have qm: "(kq, q) \<in> set (peers s)" using il(1) nth_mem by metis
  have "conn_eq kq key" using il(2) f q conn_eq_equiv by (metis fst_conv)
  have qok: "key_ok (kq, pi_conn_id q, pi_route q, pi_pubkey q)" using conn_inv_key [OF I pcore_mem [OF qm]] .
  have qpos: "0 < pi_conn_id q" using conn_inv_peer [OF I pcore_mem [OF qm]] conn_inv_sock [OF I] by blast
  have "kq = key \<and> pi_pubkey q = pi_pubkey p"
  proof (cases "conn_sn key")
    case True
    then show ?thesis using \<open>conn_eq kq key\<close> ok qok pos qpos by (auto simp: key_ok_def conn_eq_def conn_sn_def conn_of_def SN_ID_def)
  next
    case False
    then have "kq = conn_of (pi_conn_id q) (pi_pubkey q) []" "pi_route q = []" "pi_conn_id q = conn_id"
      using \<open>conn_eq kq key\<close> ok qok pos by (auto simp: key_ok_def conn_eq_def conn_sn_def conn_of_def split: if_splits)
    then show ?thesis using out_peer_unique [OF inv p(1) qm] p by (simp add: pi_outgoing_def)
  qed
  then show thesis using that [OF p, of q i] qm q il i by (simp add: outgoing_sender_def Let_def f_def)
qed

lemma gate_incoming:
  assumes inv: "net_inv s" and eq: "incoming_sender oc conn_id m s = (p, route, t)" and route: "hd (wm_parts m) \<noteq> []"
    and own: "length (omq_pubkey s) = 32"
  shows "pool.truncate t = pool.truncate s \<and> local_service_node t = local_service_node s \<and>
    (pi_pubkey p, pi_auth_level p) = (if conn_id = inproc_listener_connid s then (omq_pubkey s, auth_admin) else extract_metadata oc (wm_props m))
    \<and> (pi_service_node p \<longleftrightarrow> length (pi_pubkey p) = 32 \<and> pi_pubkey p \<in> set (active_service_nodes s))
    \<and> (route = hd (wm_parts m) \<or> pi_service_node p \<and> route = [])"
proof -
  define tmp where "tmp = incoming_tmp oc conn_id m s"
  have tmp: "pi_route tmp = hd (wm_parts m)" "(pi_pubkey tmp, pi_auth_level tmp) =
      (if conn_id = inproc_listener_connid s then (omq_pubkey s, auth_admin) else extract_metadata oc (wm_props m))"
    "pi_service_node tmp \<longleftrightarrow> length (pi_pubkey tmp) = 32 \<and> pi_pubkey tmp \<in> set (active_service_nodes s)"
    using own by (auto simp: tmp_def incoming_tmp_def Let_def new_peer_def split: prod.splits)
  note eq = eq [unfolded incoming_sender_def Let_def tmp_def [symmetric]]
  let ?P = "\<lambda>kp. conn_eq (fst kp) (conn_of SN_ID (pi_pubkey tmp) []) \<and> pi_conn_id (snd kp) = conn_id \<and> pi_route (snd kp) = pi_route tmp"
  consider (plain) "\<not> pi_service_node tmp" | (new) "pi_service_node tmp" "find_index ?P (peers s) = None"
    | (known) i where "pi_service_node tmp" "find_index ?P (peers s) = Some i" by fastforce
  then show ?thesis
  proof cases
    case (known i)
    obtain k q where q: "peers s ! i = (k, q)" by fastforce
    have i: "i < length (peers s)" "?P (peers s ! i)" using find_index_some [OF known(2)] by auto
    then have mem: "(k, q) \<in> set (peers s)" using q nth_mem by metis
    have key: "key_ok (k, pi_conn_id q, pi_route q, pi_pubkey q)" using conn_inv_key [OF net_inv_conn [OF inv] pcore_mem [OF mem]] .
    have k: "conn_sn k" "cid_pk k = pi_pubkey tmp" "pi_route q \<noteq> []"
      using i(2) q tmp(1) route by (auto simp: conn_eq_sn)
    then have "pi_pubkey q = pi_pubkey tmp" using key by (auto simp: key_ok_def conn_of_def)
    then show ?thesis using eq known tmp q i(1)
      by (auto simp: upd_peer_def pool.defs)
  qed (use eq tmp in \<open>auto simp: pool.defs\<close>)
qed

lemma command_gate_lemma:
  assumes inv: "net_inv s" and wire: "wire_ok conn_id (wm_parts m) s" and own: "length (omq_pubkey s) = 32"
  shows "\<exists>pk lvl sn route body. sent_by oc conn_id m s pk lvl sn route body \<and>
    pool.truncate (proxy_to_worker oc e conn_id m s) =
      gate conn_id pk lvl sn route (local_service_node s) body (get_peer_address (wm_props m)) (pool.truncate s)"
proof -
  obtain sk where sk: "map_of (connections s) conn_id = Some sk" "is_router sk \<Longrightarrow> hd (wm_parts m) \<noteq> []"
    using wire by (auto simp: wire_ok_def split: option.splits)
  then have "sk \<noteq> null_sock" using conn_inv_sock [OF net_inv_conn [OF inv] map_of_SomeD] by blast
  show ?thesis
  proof (cases "is_router sk")
    case True
    obtain p route t where eq: "incoming_sender oc conn_id m s = (p, route, t)" by (metis prod_cases3)
    have "sent_by oc conn_id m s (pi_pubkey p) (pi_auth_level p) (pi_service_node p) route (tl (wm_parts m))"
      using gate_incoming [OF inv eq sk(2) [OF True] own] sk(1) True by (auto simp: sent_by_def is_router_def split: sock.splits)
    moreover have "proxy_to_worker oc e conn_id m s =
        snd (check_and_dispatch e conn_id False p route (tl (wm_parts m)) (get_peer_address (wm_props m)) t)"
      using sk(1) True eq by (auto simp: proxy_to_worker_def is_router_def split: sock.splits)
    then have "pool.truncate (proxy_to_worker oc e conn_id m s) = gate conn_id (pi_pubkey p) (pi_auth_level p) (pi_service_node p) route
        (local_service_node s) (tl (wm_parts m)) (get_peer_address (wm_props m)) (pool.truncate s)"
      using gate_incoming [OF inv eq sk(2) [OF True] own] by (simp add: truncate_check_dispatch)
    ultimately show ?thesis by blast
  next
    case False
    then obtain a k r where d: "sk = dealer_sock a k r" using \<open>sk \<noteq> null_sock\<close> by (cases sk) (auto simp: is_router_def)
    then have conn: "map_of (connections s) conn_id = Some (dealer_sock a k r)" using sk(1) by simp
    obtain key p q i where p: "(key, p) \<in> set (peers s)" "pi_outgoing p" "pi_conn_id p = conn_id"
        "(key, q) \<in> set (peers s)" "pi_pubkey q = pi_pubkey p"
      and i: "outgoing_sender conn_id s = Some (i, upd_peer i (\<lambda>p. if pi_pubkey p \<noteq> []
             then p\<lparr>pi_service_node := (pi_pubkey p \<in> set (active_service_nodes s))\<rparr> else p) s)"
        "i < length (peers s)" "snd (peers s ! i) = q"
      by (rule outgoing_sender_found [OF inv conn])
    define t where "t = upd_peer i (\<lambda>p. if pi_pubkey p \<noteq> [] then p\<lparr>pi_service_node := (pi_pubkey p \<in> set (active_service_nodes s))\<rparr> else p) s"
    let ?q = "snd (peers t ! i)"
    have q: "?q = (if pi_pubkey q \<noteq> [] then q\<lparr>pi_service_node := (pi_pubkey q \<in> set (active_service_nodes s))\<rparr> else q)"
      using i(2,3) by (simp add: t_def upd_peer_def)
    have "sent_by oc conn_id m s (pi_pubkey ?q) (pi_auth_level ?q) (pi_service_node ?q) [] (wm_parts m)"
      unfolding sent_by_def conn option.case sock.case using p q by (intro conjI exI [of _ key] exI [of _ p] exI [of _ q]) auto
    moreover have "pool.truncate (proxy_to_worker oc e conn_id m s) =
        pool.truncate (snd (check_and_dispatch e conn_id True ?q [] (wm_parts m) (get_peer_address (wm_props m)) t))"
      using conn i(1) by (simp add: proxy_to_worker_def t_def case_prod_unfold Let_def)
    then have "pool.truncate (proxy_to_worker oc e conn_id m s) = gate conn_id (pi_pubkey ?q) (pi_auth_level ?q) (pi_service_node ?q) []
        (local_service_node s) (wm_parts m) (get_peer_address (wm_props m)) (pool.truncate s)"
      by (simp add: truncate_check_dispatch) (simp add: t_def upd_peer_def pool.defs)
    ultimately show ?thesis by blast
  qed
qed

section \<open>Properties\<close>

text \<open>C6: only permitted commands reach a worker. In every reachable state and for every message, the worker pool changes
  exactly as the specification says: an unknown command, a sender below the level of the category, a sender that is not
  a service node where one is required, and a request without a tag change nothing; otherwise the command is
  handed out under the sender's connection identifier with the sender's own level. The sender is the one that the ZAP handler
  authenticated, or the remote that the outgoing connection was made to.\<close>

theorem command_gate:
  assumes "reachable_net s" "wire_ok conn_id (wm_parts m) s" "length (omq_pubkey s) = 32"
  shows "\<exists>pk lvl sn route body. sent_by oc conn_id m s pk lvl sn route body \<and>
    pool.truncate (proxy_to_worker oc e conn_id m s) =
      gate conn_id pk lvl sn route (local_service_node s) body (get_peer_address (wm_props m)) (pool.truncate s)"
  by (rule command_gate_lemma [OF reachable_net_inv [OF assms(1)] assms(2,3)])

definition net_serving :: net where
  "net_serving = net_listening\<lparr>categories := [(''a'', (mk_category \<lparr>auth = auth_admin, remote_sn = False, local_sn = True\<rparr> 0 10)
     \<lparr>commands := [(''b'', (3, True))]\<rparr>)]\<rparr>"

lemma net_serving_reachable: "reachable_net net_serving"
  by (rule reachable_net_step [OF net_listening_reachable]) (rule pool, simp add: net_serving_def)

definition own_request :: wire_msg where
  "own_request = \<lparr>wm_parts = [''r1'', ''a.b'', ''tag00001''], wm_props = Map.empty\<rparr>"

theorem command_gate_witness:
  "reachable_net net_serving \<and> length (workers (proxy_to_worker oxenc_ref example_env 1 own_request net_serving)) = 1"
proof -
  have "wire_ok 1 (wm_parts own_request) net_serving"
    by (simp add: wire_ok_def own_request_def net_serving_def net_listening_def)
  moreover have "length (omq_pubkey net_serving) = 32" by (simp add: net_serving_def net_listening_def)
  ultimately obtain pk lvl sn route body where who: "sent_by oxenc_ref 1 own_request net_serving pk lvl sn route body"
    and t: "pool.truncate (proxy_to_worker oxenc_ref example_env 1 own_request net_serving) = gate 1 pk lvl sn route (local_service_node net_serving) body
      (get_peer_address (wm_props own_request)) (pool.truncate net_serving)"
    using command_gate [OF net_serving_reachable] by blast
  have body: "body = [''a.b'', ''tag00001'']" "lvl = auth_admin"
    using who by (simp_all add: sent_by_def net_serving_def net_listening_def own_request_def)
  have init: "general_workers (net_init n b k) = max 1 (int n)" "workers (net_init n b k) = []" "idle_worker_count (net_init n b k) = 0"
      "command_aliases (net_init n b k) = []" for n b k
    by (simp_all add: net_init_def pool.defs net.defs pool_init_def)
  have cat: "get_category ''a'' net_serving = (mk_category \<lparr>auth = auth_admin, remote_sn = False, local_sn = True\<rparr> 0 10)\<lparr>commands := [(''b'', (3, True))]\<rparr>"
    by (simp add: get_category_def net_serving_def)
  have "get_command net_serving ''a.b'' = (''a.b'', Some (''a'', (3, True)))"
    by (simp add: get_command_def net_serving_def net_listening_def init MAX_CATEGORY_LENGTH_def MAX_COMMAND_LENGTH_def)
  moreover have "\<not> no_free_worker ''a'' net_serving"
    by (simp add: no_free_worker_def cat active_workers_def) (simp add: net_serving_def net_listening_def init)
  moreover have "workers (on_category n f (start_worker g net_serving)) = [fst (proxy_run_worker (g (new_run_info CHR ''w'' 0)) (to_workers net_serving))]" for n f g
    by (simp add: on_category_def start_worker_def get_idle_worker_def Let_def case_prod_unfold) (simp add: net_serving_def net_listening_def init)
  moreover have "local_service_node net_serving" by (simp add: net_serving_def net_listening_def)
  moreover have "workers (proxy_to_worker oxenc_ref example_env 1 own_request net_serving) = workers (gate 1 pk lvl sn route (local_service_node net_serving) body
      (get_peer_address (wm_props own_request)) (pool.truncate net_serving))" unfolding t [symmetric] truncate_sel ..
  ultimately show ?thesis using net_serving_reachable
    by (simp add: gate_def body get_truncate permitted_def cat mk_category_def dispatch_command_def truncate_tests
        truncate_start_worker [symmetric] truncate_on_category [symmetric] truncate_sel)
qed

text \<open>C15: the set of service nodes is exactly what was given. After \<^verbatim>\<open>set_active_sns\<close> the active set is the given one, after
  \<^verbatim>\<open>update_active_sns\<close> the old one without the removed and with the added nodes (a node in both lists stays); keys that
  are not 32 bytes long are ignored. Exactly the peers of the nodes that are gone are forgotten and their outgoing
  connections closed. The early exit of the loop that collects these nodes, computed on unsigned sizes, misses none.\<close>

theorem active_sns_exact:
  assumes "reachable_net s" "distinct (active_service_nodes s)" "distinct pks"
    "int (length (active_service_nodes s)) + int (length pks) < 2 ^ 64"
  shows "sns_changed {pk \<in> set pks. length pk = 32} s (proxy_set_active_sns pks s)
    \<and> sns_changed ({pk \<in> set (active_service_nodes s). pk \<notin> set removed \<or> length pk \<noteq> 32 \<or> pk \<in> set added} \<union> {pk \<in> set added. length pk = 32})
        s (proxy_update_active_sns added removed s)"
  using set_active_sns_exact update_active_sns_exact reachable_net_inv assms by blast

theorem active_sns_exact_witness:
  "reachable_net net_two \<and> active_service_nodes net_two = [pk_a] \<and> set (active_service_nodes (proxy_set_active_sns [pk_b] net_two)) = {pk_b}
    \<and> peers (proxy_set_active_sns [pk_b] net_two) = []"
proof -
  have a: "active_service_nodes net_two = [pk_a]" by (simp add: net_two_def net_bound_def)
  have "sns_changed {pk \<in> set [pk_b]. length pk = 32} net_two (proxy_set_active_sns [pk_b] net_two)"
    using active_sns_exact [OF net_two_reachable, of "[pk_b]" "[]" "[]"] by (simp add: a)
  moreover have "{pk \<in> set [pk_b]. length pk = 32} = {pk_b}" by (auto simp: pk_b_def)
  moreover have "pk_a \<noteq> pk_b" by (simp add: pk_a_def pk_b_def numeral_eq_Suc)
  ultimately show ?thesis using net_two_reachable a
    by (simp add: sns_changed_def Let_def) (simp add: net_two_def peers_of_def conn_of_def conn_sn_def)
qed

end
