(* ===== verification/Timers.thy ===== *)
theory Timers
  imports Net_Access "HOL-Library.AList"
begin

text \<open>
  Timers: \<^verbatim>\<open>proxy_timer\<close>, \<^verbatim>\<open>proxy_timer_del\<close> and \<^verbatim>\<open>_queue_timer_job\<close> of \<^verbatim>\<open>jobs.cpp\<close>, and the record \<open>omq\<close> of the whole proxy.
  The timers of libzmq are an argument. The flag that keeps a squelched timer from being queued twice is shown exact, over the
  steps of the worker pool of \<open>Pool_Batches\<close>.
\<close>

section \<open>State\<close>

text \<open>
  The members for timers, on top of those of \<open>net\<close>. \<open>ran_in_proxy\<close> lists the functions that the proxy thread has called
  itself and \<open>zmq_cancelled\<close> the identifiers passed to \<^verbatim>\<open>zmq_timers_cancel\<close>. Objects that threads pass to the proxy by
  address live in \<open>objs\<close>.
\<close>

record timer_data =
  td_function :: nat
  td_squelch :: bool
  td_running :: bool
  td_thread :: int

datatype shared_obj =
    shared_callback nat
  | shared_keys "string list"
  | shared_bind bind_data
  | shared_task injected_task

record omq = net +
  timer_jobs :: "(int \<times> timer_data) list"
  have_timers :: bool
  next_timer_id :: int
  timer_zmq_id :: "(int \<times> int) list"
  ran_in_proxy :: "nat list"
  zmq_cancelled :: "int list"
  objs :: "nat \<Rightarrow> shared_obj option"
  next_obj :: nat


section \<open>Operations\<close>

text \<open>\<^verbatim>\<open>proxy_timer\<close>: \<open>zmq_add\<close> is what \<^verbatim>\<open>zmq_timers_add\<close> returns for an interval, \<open>-1\<close> for an error.\<close>

definition proxy_timer :: "(int \<Rightarrow> int) \<Rightarrow> int \<Rightarrow> nat \<Rightarrow> int \<Rightarrow> bool \<Rightarrow> int \<Rightarrow> 'a omq_scheme \<Rightarrow> 'a omq_scheme res" where
  "proxy_timer zmq_add timer_id f interval squelch thread s =
     (let s = s\<lparr>have_timers := True\<rparr>;
          zmq_id = zmq_add interval
      in if zmq_id = -1 then Inl (zmq_error 0)
         else Inr (s\<lparr>timer_jobs := AList.update zmq_id \<lparr>td_function = f, td_squelch = squelch, td_running = False, td_thread = thread\<rparr> (timer_jobs s),
                timer_zmq_id := AList.update timer_id zmq_id (timer_zmq_id s)\<rparr>))"

definition proxy_timer_del :: "int \<Rightarrow> 'a omq_scheme \<Rightarrow> 'a omq_scheme" where
  "proxy_timer_del timer_id s =
     (if \<not> have_timers s then s
      else
        (case map_of (timer_zmq_id s) timer_id of
           None \<Rightarrow> s
         | Some zmq_id \<Rightarrow> s\<lparr>zmq_cancelled := zmq_cancelled s @ [zmq_id], timer_zmq_id := AList.delete timer_id (timer_zmq_id s)\<rparr>))"

text \<open>
  \<^verbatim>\<open>_queue_timer_job\<close>, which libzmq calls when a timer expires. A squelched job is a batch whose completion function runs in the
  proxy thread; other jobs are plain ones.
\<close>

definition set_running :: "bool \<Rightarrow> int \<Rightarrow> 'a omq_scheme \<Rightarrow> 'a omq_scheme" where
  "set_running b zmq_id s =
     s\<lparr>timer_jobs := map (\<lambda>(i, d). (i, if i = zmq_id then d\<lparr>td_running := b\<rparr> else d)) (timer_jobs s)\<rparr>"

definition timer_batch :: "int \<Rightarrow> timer_data \<Rightarrow> batch_r res" where
  "timer_batch zmq_id d =
     set_completion (timer_completion zmq_id) (Some (-1)) (add_job_in (user_task (td_function d)) (td_thread d) new_batch)"

definition queue_timer_job :: "int \<Rightarrow> 'a omq_scheme \<Rightarrow> 'a omq_scheme" where
  "queue_timer_job zmq_id s =
     (case map_of (timer_jobs s) zmq_id of
        None \<Rightarrow> s
      | Some d \<Rightarrow>
          if td_squelch d \<and> td_running d then s
          else if td_thread d = -1 then s\<lparr>ran_in_proxy := ran_in_proxy s @ [td_function d]\<rparr>
          else if td_squelch d then
            (case timer_batch zmq_id d of
               Inl err \<Rightarrow> s
             | Inr b \<Rightarrow>
                 (let (ptr, s) = alloc (BatchObj b) (set_running True zmq_id s) in push_job (td_thread d) (ptr, 0) s))
          else (let (ptr, s) = alloc (JobObj (new_job_in (user_task (td_function d)) (td_thread d))) s
                in push_job (td_thread d) (ptr, 0) s))"

text \<open>
  A message from a worker, with the completion function that the proxy then runs itself: that of a timer clears its flag.
\<close>

definition run_completion :: "(completion_fn \<times> job_result list) option \<Rightarrow> 'a omq_scheme \<Rightarrow> 'a omq_scheme" where
  "run_completion c s =
     (case c of
        Some (timer_completion zmq_id, rs) \<Rightarrow> set_running False zmq_id s
      | Some (user_completion f, rs) \<Rightarrow> s\<lparr>ran_in_proxy := ran_in_proxy s @ [f]\<rparr>
      | None \<Rightarrow> s)"

definition handle_worker_message :: "string list \<Rightarrow> 'a omq_scheme \<Rightarrow> 'a omq_scheme" where
  "handle_worker_message parts s = (let (s, c) = proxy_worker_message parts s in run_completion c s)"

section \<open>The flag of a squelched timer\<close>

text \<open>
  What an object says about a timer: the timer of its completion function, the thread of the completion and the number of
  jobs. The invariant: the flag \<^verbatim>\<open>running\<close> is set exactly for the squelched timers that have such an object, they
  have one each, and its one job is queued or runs.
\<close>

definition timer_info :: "batch_obj option \<Rightarrow> (int \<times> int \<times> nat) option" where
  "timer_info x = (case x of
     Some (BatchObj b) \<Rightarrow> (case completion b of Some (timer_completion i) \<Rightarrow> Some (i, complete_in_thread b, length (jobs b)) | _ \<Rightarrow> None)
   | _ \<Rightarrow> None)"

definition has_timer :: "'a pool_scheme \<Rightarrow> int \<Rightarrow> nat \<Rightarrow> bool" where
  "has_timer s i p \<longleftrightarrow> (\<exists>x. timer_info (heap s p) = Some (i, x))"

definition timers_ok :: "'a omq_scheme \<Rightarrow> bool" where
  "timers_ok s \<longleftrightarrow>
     (\<forall>p i th n. timer_info (heap s p) = Some (i, th, n) \<longrightarrow> th = -1 \<and> n = 1 \<and> uses p (pool_jobs s) = {#0#}
        \<and> (\<exists>d. map_of (timer_jobs s) i = Some d \<and> td_squelch d \<and> td_running d))
     \<and> (\<forall>i d. map_of (timer_jobs s) i = Some d \<longrightarrow> td_running d \<longrightarrow> (\<exists>p. has_timer s i p))
     \<and> (\<forall>i p q. has_timer s i p \<longrightarrow> has_timer s i q \<longrightarrow> p = q)"

lemma timer_info_simps [simp]: "timer_info None = None" "timer_info (Some (JobObj j)) = None"
  by (simp_all add: timer_info_def)

lemma timer_info_run [simp]: "timer_info (Some (obj_run_job exec j b)) = timer_info (Some b)"
  by (cases b) (simp_all add: timer_info_def batch_run_job_def Let_def split: option.splits completion_fn.splits)

lemma timer_info_completion [simp]: "timer_info (Some (snd (obj_job_completion b))) = timer_info (Some b)"
  by (cases b) (simp_all add: timer_info_def batch_job_completion_def split: option.splits completion_fn.splits)

lemma timers_ok_frame:
  assumes ok: "timers_ok s" and jobs: "timer_jobs t = timer_jobs s" and info: "\<And>p. timer_info (heap t p) = timer_info (heap s p)"
    and same: "\<And>p. timer_info (heap s p) \<noteq> None \<Longrightarrow> uses p (pool_jobs t) = uses p (pool_jobs s)"
  shows "timers_ok t"
proof -
  have "uses p (pool_jobs t) = {#0#}" if "timer_info (heap s p) = Some (i, th, n)" for p i th n
    using same [of p] that ok unfolding timers_ok_def by simp
  then show ?thesis using ok unfolding timers_ok_def has_timer_def jobs info by blast
qed

text \<open>The steps of the pool that leave the timers alone.\<close>

definition user_obj :: "batch_obj \<Rightarrow> bool" where
  "user_obj b \<longleftrightarrow> timer_info (Some b) = None"

inductive plain_step :: "(task \<Rightarrow> exn + nat option) \<Rightarrow> 'a pool_scheme \<Rightarrow> 'a pool_scheme \<Rightarrow> bool" for exec where
  command: "n \<in> fst ` set (categories s) \<Longrightarrow>
    plain_step exec s (snd (dispatch_command n command data cb conn acc remote s))"
| inject: "inj_cat t \<in> fst ` set (categories s) \<Longrightarrow> plain_step exec s (proxy_inject_task t s)"
| alloc: "fresh_obj s b \<Longrightarrow> user_obj b \<Longrightarrow> plain_step exec s (snd (alloc b s))"
| batch: "heap s p = Some b \<Longrightarrow> uses p (pool_jobs s) = {#} \<Longrightarrow> plain_step exec s (proxy_batch p s)"
| reply: "plain_step exec s (proxy_schedule_reply_job f s)"
| process: "plain_step exec s (proxy_process_queue s)"
| run: "(p, int j) \<in># pool_jobs s \<Longrightarrow> heap s p = Some b \<Longrightarrow>
    plain_step exec s (s\<lparr>heap := (heap s)(p \<mapsto> obj_run_job exec j b)\<rparr>)"
| completion: "(p, -1) \<in># pool_jobs s \<Longrightarrow> heap s p = Some b \<Longrightarrow>
    plain_step exec s (s\<lparr>heap := (heap s)(p \<mapsto> snd (obj_job_completion b))\<rparr>)"

lemma plain_step_job: "plain_step exec s t \<Longrightarrow> job_step exec s t"
  by (induction rule: plain_step.induct) (auto intro: job_step.intros)

lemma timer_process_jobs: "all_inv s \<Longrightarrow> pool_jobs (proxy_process_queue s) = pool_jobs s"
  using process_queue_jobs [of s] inv_max [of s] by (simp add: all_inv_def)

lemma plain_step_effect:
  assumes "plain_step exec s t" "all_inv s" "batches_ok s"
  shows "(\<forall>p. timer_info (heap t p) = timer_info (heap s p)) \<and>
    (\<forall>p. uses p (pool_jobs s) \<noteq> {#} \<longrightarrow> uses p (pool_jobs t) = uses p (pool_jobs s))"
  using assms
proof (induction rule: plain_step.induct)
  case (command n s command data cb conn acc remote)
  then show ?case by (simp add: dispatch_command_def start_command_jobs [OF all_inv_shape loads_intros(4)])
next
  case (inject t s)
  then show ?case by (simp add: proxy_inject_task_def start_command_jobs [OF all_inv_shape loads_intros(5)])
next
  case (alloc s b)
  have "heap s (next_ptr s) = None" using alloc by (simp add: batches_ok_def)
  moreover have "pool_jobs (snd (Pool.alloc b s)) = pool_jobs s" by (simp add: alloc_def pool_jobs_def running_def busy_def idle_set_def)
  ultimately show ?case using alloc by (simp add: alloc_def user_obj_def)
next
  case (batch s p b)
  then show ?case using proxy_batch_jobs [of s p b] by auto
next
  case (reply s f)
  have n: "heap s (next_ptr s) = None" using reply by (simp add: batches_ok_def)
  then have "uses (next_ptr s) (pool_jobs s) = {#}" using reply heap_ok_None by (auto simp: batches_ok_def)
  then show ?case using n by (simp add: schedule_jobs) (simp add: proxy_schedule_reply_job_def alloc_def)
next
  case (process s)
  then show ?case by (simp add: timer_process_jobs)
next
  case (run p j s b)
  have "pool_jobs (s\<lparr>heap := h\<rparr>) = pool_jobs s" for h by (simp add: pool_jobs_def running_def busy_def idle_set_def)
  then show ?case using run by simp
next
  case (completion p s b)
  have "pool_jobs (s\<lparr>heap := h\<rparr>) = pool_jobs s" for h by (simp add: pool_jobs_def running_def busy_def idle_set_def)
  then show ?case using completion by simp
qed

lemma more_push_job [simp]: "pool.more (push_job t bj s) = pool.more s"
  by (simp add: push_job_def push_tagged_def)

lemma more_fold_push [simp]: "pool.more (fold (\<lambda>i. push_job (f i) (g i)) xs s) = pool.more s"
  by (induction xs arbitrary: s) simp_all

lemma more_proxy_batch [simp]: "pool.more (proxy_batch p s) = pool.more s"
  by (simp add: proxy_batch_def case_prod_beta split: option.splits)

lemma more_inject [simp]: "pool.more (proxy_inject_task t s) = pool.more s"
  by (simp add: proxy_inject_task_def enqueue_pending_def)

lemma more_run_batch_jobs [simp]: "pool.more (proxy_run_batch_jobs reply s) = pool.more s"
proof (induction reply s rule: proxy_run_batch_jobs.induct)
  case (1 reply s)
  have "pool.more (run_batch_job reply s) = pool.more s" by (simp add: run_batch_job_def pop_job_def)
  with 1 show ?case by (subst proxy_run_batch_jobs.simps) simp
qed

lemma more_run_pending: "run_pending ps s = (kept, t) \<Longrightarrow> pool.more t = pool.more s"
proof (induction ps s arbitrary: kept t rule: run_pending.induct)
  case (2 p ps s)
  have "pool.more (run_pending_command p s) = pool.more s" by (simp add: run_pending_command_def)
  with 2 show ?case by (auto simp: Let_def split: if_splits prod.splits)
qed simp

lemma more_process [simp]: "pool.more (proxy_process_queue s) = pool.more s"
proof -
  obtain t m where "fold run_tagged [0..<length (tagged_workers s)] s = s\<lparr>tagged_workers := t, to_workers := m\<rparr>"
    using run_tagged_fold_upd [of "[0..<length (tagged_workers s)]" s] by (elim exE)
  then show ?thesis
    by (simp add: proxy_process_queue_def Let_def case_prod_beta more_run_pending [OF surjective_pairing])
qed

lemma more_plain_step: "plain_step exec s t \<Longrightarrow> pool.more t = pool.more s"
  by (induction rule: plain_step.induct) simp_all

lemma more_batch_ran [simp]: "pool.more (fst (batch_ran r s)) = pool.more s"
  by (simp add: batch_ran_def Let_def push_tagged_def split: to_run.splits option.splits batch_state.splits prod.splits)

lemma more_proxy_ran [simp]: "pool.more (fst (proxy_ran tagged i route s)) = pool.more s"
  by (simp add: proxy_ran_def Let_def case_prod_beta)

lemma timer_jobs_more: "pool.more t = pool.more s \<Longrightarrow> timer_jobs t = timer_jobs s"
  by (cases s; cases t) simp

lemma plain_step_timers: "plain_step exec s t \<Longrightarrow> all_inv s \<Longrightarrow> batches_ok s \<Longrightarrow> timers_ok s \<Longrightarrow> timers_ok t"
proof (rule timers_ok_frame)
  assume step: "plain_step exec s t" "all_inv s" "batches_ok s" and ok: "timers_ok s"
  show "timer_jobs t = timer_jobs s" by (rule timer_jobs_more [OF more_plain_step [OF step(1)]])
  note effect = plain_step_effect [OF step]
  show "timer_info (heap t p) = timer_info (heap s p)" for p using effect by blast
  show "uses p (pool_jobs t) = uses p (pool_jobs s)" if "timer_info (heap s p) \<noteq> None" for p
  proof -
    obtain i th n where "timer_info (heap s p) = Some (i, th, n)" using \<open>timer_info (heap s p) \<noteq> None\<close> by (auto simp: not_None_eq)
    then have "uses p (pool_jobs s) = {#0#}" using ok unfolding timers_ok_def by blast
    then show ?thesis using effect by simp
  qed
qed

text \<open>The end of a job.\<close>

lemma map_of_set_running: "map_of (timer_jobs (set_running b i s)) j =
    (if j = i then map_option (\<lambda>d. d\<lparr>td_running := b\<rparr>) (map_of (timer_jobs s) j) else map_of (timer_jobs s) j)"
proof -
  have "map_of (map (\<lambda>(i', d). (i', if i' = i then d\<lparr>td_running := b\<rparr> else d)) xs) j =
      (if j = i then map_option (\<lambda>d. d\<lparr>td_running := b\<rparr>) (map_of xs j) else map_of xs j)" for xs :: "(int \<times> timer_data) list"
    by (induction xs) auto
  then show ?thesis by (simp add: set_running_def)
qed

text \<open>Statements about the pool do not depend on the other members.\<close>

lemma pool_fields:
  assumes "pool.truncate t = pool.truncate s"
  shows "categories t = categories s" "general_workers t = general_workers s" "max_workers t = max_workers s"
    "batch_jobs_reserved t = batch_jobs_reserved s" "reply_jobs_reserved t = reply_jobs_reserved s"
    "batch_jobs_active t = batch_jobs_active s" "reply_jobs_active t = reply_jobs_active s" "batch_jobs t = batch_jobs s"
    "reply_jobs t = reply_jobs s" "pending_commands t = pending_commands s" "workers t = workers s" "worker_sockets t = worker_sockets s"
    "idle_workers t = idle_workers s" "idle_worker_count t = idle_worker_count s" "tagged_workers t = tagged_workers s"
    "heap t = heap s" "next_ptr t = next_ptr s" "to_workers t = to_workers s"
  using assms by (simp_all add: pool.defs)

lemma all_inv_truncate:
  assumes "pool.truncate t = pool.truncate s" shows "all_inv t = all_inv s"
proof -
  note f = pool_fields [OF assms]
  have cat: "get_category n t = get_category n s" for n by (simp add: get_category_def f)
  have "core_inv t = core_inv s"
    by (rule core_cong) (simp_all add: f cat, (case_tac k; simp add: f cat)+)
  moreover have "queue_inv t = queue_inv s" by (rule queue_cong) (simp_all add: f cat)
  ultimately show ?thesis by (simp add: all_inv_def pool_inv_def tagged_inv_def f)
qed

lemma pool_jobs_truncate: "pool.truncate t = pool.truncate s \<Longrightarrow> pool_jobs t = pool_jobs s"
  using pool_fields [of t s] by (simp add: pool_jobs_def running_def busy_def idle_set_def)

lemma batches_ok_truncate:
  assumes "pool.truncate t = pool.truncate s" shows "batches_ok t = batches_ok s"
  by (simp add: batches_ok_def pool_fields [OF assms] pool_jobs_truncate [OF assms])

lemma truncate_set_running [simp]: "pool.truncate (set_running b i s) = pool.truncate s"
  by (simp add: set_running_def pool.defs)

lemmas set_running_pool [simp] = pool_fields(16) [OF truncate_set_running] pool_jobs_truncate [OF truncate_set_running]
  batches_ok_truncate [OF truncate_set_running] all_inv_truncate [OF truncate_set_running]

lemma timer_info_finished: "obj_job_finished b = (b', r) \<Longrightarrow> timer_info (Some b') = timer_info (Some b)"
  by (cases b) (auto simp: timer_info_def batch_job_finished_def Let_def job_job_finished_def split: if_splits prod.splits option.splits completion_fn.splits)

lemma batch_ran_plain:
  assumes "heap d p = Some b" "timer_info (Some b) = None" "to_run r = run_batch p"
  shows "timer_info (heap (fst (batch_ran r d)) q) = timer_info (heap d q)" "snd (batch_ran r d) \<noteq> Some (timer_completion i, rs)"
proof -
  obtain b' st th where fin: "obj_job_finished b = (b', st, th)" by (metis prod_cases3)
  have b': "timer_info (Some b') = None" using timer_info_finished [OF fin] assms(2) by simp
  then have "fst (obj_job_completion b') \<noteq> Some (timer_completion i, rs)"
    by (cases b') (auto simp: timer_info_def batch_job_completion_def split: option.splits completion_fn.splits)
  with b' show "timer_info (heap (fst (batch_ran r d)) q) = timer_info (heap d q)" "snd (batch_ran r d) \<noteq> Some (timer_completion i, rs)"
    using assms fin by (auto simp: batch_ran_def Let_def push_tagged_def split: batch_state.splits)
qed

lemma batch_ran_timer:
  assumes "heap d p = Some (BatchObj b)" "completion b = Some (timer_completion i)" "complete_in_thread b = -1" "jobs_outstanding b = 1"
    "to_run r = run_batch p" "batch_jobno r = 0"
  shows "heap (fst (batch_ran r d)) = (heap d)(p := None)" "\<exists>rs. snd (batch_ran r d) = Some (timer_completion i, rs)"
  using assms by (simp_all add: batch_ran_def batch_job_finished_def batch_job_completion_def Let_def)

lemma uses_other: "set_mset X \<subseteq> {(p, j)} \<Longrightarrow> q \<noteq> p \<Longrightarrow> uses q X = {#}"
  by (auto simp: uses_def filter_mset_eq_conv)

lemma timer_infoD:
  assumes "timer_info x = Some (i, th, n)"
  obtains b where "x = Some (BatchObj b)" "completion b = Some (timer_completion i)" "complete_in_thread b = th" "length (jobs b) = n"
  using assms that by (auto simp: timer_info_def split: option.splits batch_obj.splits completion_fn.splits)

lemma timers_okD:
  assumes "timers_ok s"
  shows timers_ok_obj: "\<And>p i th n. timer_info (heap s p) = Some (i, th, n) \<Longrightarrow> th = -1 \<and> n = 1 \<and> uses p (pool_jobs s) = {#0#}
      \<and> (\<exists>d. map_of (timer_jobs s) i = Some d \<and> td_squelch d \<and> td_running d)"
    and timers_ok_flag: "\<And>i d. map_of (timer_jobs s) i = Some d \<Longrightarrow> td_running d \<Longrightarrow> \<exists>p. has_timer s i p"
    and timers_ok_unique: "\<And>i p q. has_timer s i p \<Longrightarrow> has_timer s i q \<Longrightarrow> p = q"
  using assms unfolding timers_ok_def by blast+

lemma timers_okI:
  assumes "\<And>p i th n. timer_info (heap s p) = Some (i, th, n) \<Longrightarrow> th = -1 \<and> n = 1 \<and> uses p (pool_jobs s) = {#0#}
      \<and> (\<exists>d. map_of (timer_jobs s) i = Some d \<and> td_squelch d \<and> td_running d)"
    and "\<And>i d. map_of (timer_jobs s) i = Some d \<Longrightarrow> td_running d \<Longrightarrow> \<exists>p. has_timer s i p"
    and "\<And>i p q. has_timer s i p \<Longrightarrow> has_timer s i q \<Longrightarrow> p = q"
  shows "timers_ok s"
  unfolding timers_ok_def using assms by blast

lemma ran_timers:
  assumes ok: "batches_ok s" "timers_ok s" and eff: "ran_effect s (t, c)" and same: "timer_jobs t = timer_jobs s"
  shows "timers_ok (run_completion c t)"
proof -
  consider (none) "heap t = heap s" "pool_jobs t = pool_jobs s" "c = None"
    | (job) p j r T X and d :: "'a omq_scheme" where "pool_jobs s = add_mset (p, j) T" "pool_jobs t = X + T" "set_mset X \<subseteq> {(p, -1)}"
      "to_run r = run_batch p" "batch_jobno r = j" "heap d = heap s" "heap t = heap (fst (batch_ran r d))" "c = snd (batch_ran r d)"
    using eff unfolding ran_effect_def fst_conv snd_conv by blast
  then show ?thesis
  proof cases
    case none
    have "timers_ok t" by (rule timers_ok_frame [OF ok(2) same]) (simp_all add: none)
    then show ?thesis using none by (simp add: run_completion_def)
  next
    case (job p j r T X d)
    have hok: "heap_ok (heap s) (add_mset (p, j) T)" using ok(1) job(1) by (simp add: batches_ok_def)
    obtain b where b: "heap s p = Some b" using heap_ok_live [OF hok, of p j] by auto
    have uses: "uses q (pool_jobs t) = uses q (pool_jobs s)" if "q \<noteq> p" for q
      using uses_other [OF job(3) that] job(1,2) that by simp
    show ?thesis
    proof (cases "timer_info (Some b)")
      case None
      note plain = batch_ran_plain [OF _ None job(4), of d]
      have t: "timers_ok t"
      proof (rule timers_ok_frame [OF ok(2) same])
        show "timer_info (heap t q) = timer_info (heap s q)" for q using plain(1) b job(6,7) by simp
        show "uses q (pool_jobs t) = uses q (pool_jobs s)" if "timer_info (heap s q) \<noteq> None" for q
          using uses that None b by (cases "q = p") auto
      qed
      have "timers_ok (t\<lparr>ran_in_proxy := xs\<rparr>)" for xs
        by (rule timers_ok_frame [OF t]) (simp_all add: pool_jobs_def running_def busy_def idle_set_def)
      then show ?thesis using t plain(2) b job(6,8) by (auto simp: run_completion_def split: option.splits prod.splits completion_fn.splits)
    next
      case (Some x)
      obtain i th n where x: "x = (i, th, n)" by (metis prod_cases3)
      with Some obtain bb where bb: "b = BatchObj bb" "completion bb = Some (timer_completion i)"
        "complete_in_thread bb = th" "length (jobs bb) = n" by (metis timer_infoD option.inject)
      have info: "timer_info (heap s p) = Some (i, th, n)" using b Some x by simp
      note p = timers_ok_obj [OF ok(2) info]
      then have "j = 0" "uses p T = {#}" using job(1) by auto
      then have "jobs_outstanding bb = 1" using heap_ok_job(4) [OF hok b] bb(1) by simp
      note ran = batch_ran_timer [OF _ bb(2) _ this job(4), of d]
      have heap: "heap t = (heap s)(p := None)" using ran(1) b bb p \<open>j = 0\<close> job by simp
      obtain rs where "c = Some (timer_completion i, rs)" using ran(2) b bb p \<open>j = 0\<close> job by auto
      then have c: "run_completion c t = set_running False i t" by (simp add: run_completion_def)
      have hasT: "has_timer (set_running False i t) k q \<longleftrightarrow> has_timer s k q \<and> q \<noteq> p" for k q
        by (simp add: has_timer_def heap)
      have "has_timer s i p" using info by (simp add: has_timer_def)
      then have i: "k \<noteq> i" if "has_timer s k q" "q \<noteq> p" for k q using timers_ok_unique [OF ok(2)] that by blast
      show ?thesis unfolding c
      proof (rule timers_okI)
        fix q k th' n'
        assume "timer_info (heap (set_running False i t) q) = Some (k, th', n')"
        then have q: "timer_info (heap s q) = Some (k, th', n')" "q \<noteq> p" by (auto simp: heap split: if_splits)
        then have "k \<noteq> i" using i by (auto simp: has_timer_def)
        then show "th' = -1 \<and> n' = 1 \<and> uses q (pool_jobs (set_running False i t)) = {#0#}
            \<and> (\<exists>d. map_of (timer_jobs (set_running False i t)) k = Some d \<and> td_squelch d \<and> td_running d)"
          using timers_ok_obj [OF ok(2) q(1)] uses [OF q(2)] by (simp add: map_of_set_running same)
      next
        fix k e
        assume "map_of (timer_jobs (set_running False i t)) k = Some e" "td_running e"
        then have k: "k \<noteq> i" "map_of (timer_jobs s) k = Some e" by (auto simp: map_of_set_running same split: if_splits)
        obtain q where "has_timer s k q" using timers_ok_flag [OF ok(2) k(2) \<open>td_running e\<close>] by blast
        moreover from this have "q \<noteq> p" using info k(1) by (auto simp: has_timer_def)
        ultimately show "\<exists>q. has_timer (set_running False i t) k q" using hasT by blast
      next
        show "q = q'" if "has_timer (set_running False i t) k q" "has_timer (set_running False i t) k q'" for k q q'
          using that timers_ok_unique [OF ok(2)] unfolding hasT by blast
      qed
    qed
  qed
qed

text \<open>A timer expires.\<close>

lemma timer_batch_eq: "timer_batch i d = Inr (let b = add_job_in (user_task (td_function d)) (td_thread d) new_batch in
    b\<lparr>completion := Some (timer_completion i), complete_in_thread := -1\<rparr>)"
  by (simp add: timer_batch_def set_completion_def batch_check_not_started_def add_job_in_def new_batch_def)

text \<open>The job is queued like a batch of one job.\<close>

lemma push_as_batch:
  assumes "heap s p = Some b" "obj_size b = (1, th \<noteq> 0)" "obj_threads b = [th]"
  shows "push_job th (p, 0) s = (proxy_batch p s)\<lparr>proxy_skip_one_poll := proxy_skip_one_poll s\<rparr>"
  using assms by (simp add: proxy_batch_def push_job_def push_tagged_def)

lemma push_one:
  assumes ok: "all_inv s" "batches_ok s" and b: "fresh_obj s b" "obj_size b = (1, th \<noteq> 0)" "obj_threads b = [th]"
    and t: "t = push_job th (next_ptr s, 0) (snd (alloc b s))"
  shows "all_inv t" "batches_ok t" "heap t = (heap s)(next_ptr s \<mapsto> b)"
    "\<And>p. uses p (pool_jobs t) = (if p = next_ptr s then {#0#} else uses p (pool_jobs s))" "heap s (next_ptr s) = None"
    "pool.more t = pool.more s"
proof -
  let ?a = "snd (alloc b s)" and ?p = "next_ptr s"
  have aok: "all_inv ?a" "batches_ok ?a"
    using job_step_ok [OF job_step.alloc [of s b "\<lambda>_. undefined"]] ok b(1) by simp_all
  show none: "heap s ?p = None" using ok(2) by (simp add: batches_ok_def)
  then have "uses ?p (pool_jobs s) = {#}" using ok(2) heap_ok_None by (auto simp: batches_ok_def)
  moreover have a: "heap ?a = (heap s)(?p \<mapsto> b)" "pool_jobs ?a = pool_jobs s" "proxy_skip_one_poll ?a = proxy_skip_one_poll s"
    by (simp_all add: alloc_def pool_jobs_def running_def busy_def idle_set_def)
  ultimately have new: "uses ?p (pool_jobs ?a) = {#}" "heap ?a ?p = Some b" by simp_all
  have t': "t = (proxy_batch ?p ?a)\<lparr>proxy_skip_one_poll := proxy_skip_one_poll s\<rparr>"
    unfolding t using push_as_batch [OF new(2) b(2,3)] a(3) by simp
  have skip: "pool_jobs (u\<lparr>proxy_skip_one_poll := x\<rparr>) = pool_jobs u" for u :: "'a pool_scheme" and x
    by (simp add: pool_jobs_def running_def busy_def idle_set_def)
  note jobs = proxy_batch_jobs [OF aok(2) new(2,1)]
  show "all_inv t" using proxy_batch_all [OF aok(1)] by (simp add: t')
  show "batches_ok t" using proxy_batch_batches [OF aok(2) new(2,1)] by (simp add: t' batches_ok_def skip)
  show "heap t = (heap s)(?p \<mapsto> b)" using jobs a by (simp add: t')
  show "uses p (pool_jobs t) = (if p = ?p then {#0#} else uses p (pool_jobs s))" for p
    using jobs a b(2) \<open>uses ?p (pool_jobs s) = {#}\<close> by (simp add: t' skip)
  show "pool.more t = pool.more s" by (simp add: t)
qed

lemma fire_ok:
  assumes ok: "all_inv s" "batches_ok s" "timers_ok s"
    and th: "\<And>d. map_of (timer_jobs s) i = Some d \<Longrightarrow> td_thread d \<le> int (length (tagged_workers s))"
  shows "all_inv (queue_timer_job i s) \<and> batches_ok (queue_timer_job i s) \<and> timers_ok (queue_timer_job i s)"
proof -
  have frame: "all_inv (s\<lparr>ran_in_proxy := xs\<rparr>) \<and> batches_ok (s\<lparr>ran_in_proxy := xs\<rparr>) \<and> timers_ok (s\<lparr>ran_in_proxy := xs\<rparr>)" for xs
  proof -
    have "pool.truncate (s\<lparr>ran_in_proxy := xs\<rparr>) = pool.truncate s" by (simp add: pool.defs)
    from all_inv_truncate [OF this] batches_ok_truncate [OF this] pool_jobs_truncate [OF this] ok show ?thesis
      by (auto intro: timers_ok_frame [OF ok(3)])
  qed
  consider (nothing) "queue_timer_job i s = s" | (inline) xs where "queue_timer_job i s = s\<lparr>ran_in_proxy := xs\<rparr>"
    | (squelched) d where "map_of (timer_jobs s) i = Some d" "td_squelch d" "\<not> td_running d" "td_thread d \<noteq> -1"
    | (plain) d where "map_of (timer_jobs s) i = Some d" "\<not> td_squelch d" "td_thread d \<noteq> -1"
  proof (cases "map_of (timer_jobs s) i")
    case None
    then have "queue_timer_job i s = s" by (simp add: queue_timer_job_def)
    then show thesis by (rule that(1))
  next
    case (Some d)
    show thesis
    proof (cases "td_squelch d \<and> td_running d")
      case True
      then have "queue_timer_job i s = s" using Some by (simp add: queue_timer_job_def)
      then show thesis by (rule that(1))
    next
      case run: False
      show thesis
      proof (cases "td_thread d = -1")
        case True
        then have "queue_timer_job i s = s\<lparr>ran_in_proxy := ran_in_proxy s @ [td_function d]\<rparr>"
          using run Some by (simp add: queue_timer_job_def)
        then show thesis by (rule that(2))
      next
        case False
        then show thesis using run that(3,4) [OF Some] by blast
      qed
    qed
  qed
  then show ?thesis
  proof cases
    case nothing
    then show ?thesis using ok by simp
  next
    case (inline xs)
    then show ?thesis using frame by simp
  next
    case (plain d)
    let ?b = "JobObj (new_job_in (user_task (td_function d)) (td_thread d))"
    let ?t = "push_job (td_thread d) (next_ptr s, 0) (snd (alloc ?b s))"
    have t: "queue_timer_job i s = ?t" using plain by (simp add: queue_timer_job_def alloc_def)
    have "fresh_obj s ?b" using th [OF plain(1)] by (simp add: fresh_obj_def threads_ok_def job_size_def job_threads_def new_job_in_def)
    note one = push_one [OF ok(1,2) this _ _ refl, of "td_thread d"]
    have b: "obj_size ?b = (1, td_thread d \<noteq> 0)" "obj_threads ?b = [td_thread d]" by (simp_all add: job_size_def job_threads_def new_job_in_def)
    have "timers_ok ?t"
    proof (rule timers_ok_frame [OF ok(3)])
      show "timer_jobs ?t = timer_jobs s" by (rule timer_jobs_more [OF one(6) [OF b]])
      show "timer_info (heap ?t p) = timer_info (heap s p)" for p using one(3,5) [OF b] by simp
      show "uses p (pool_jobs ?t) = uses p (pool_jobs s)" if "timer_info (heap s p) \<noteq> None" for p
        using one(4,5) [OF b] that by auto
    qed
    then show ?thesis unfolding t using one(1,2) [OF b] by simp
  next
    case (squelched d)
    define u where "u = set_running True i s"
    obtain bb where bb: "timer_batch i d = Inr bb" "completion bb = Some (timer_completion i)" "complete_in_thread bb = -1"
      "jobs bb = [(user_task (td_function d), td_thread d)]" "batch_ok bb" "jobs_outstanding bb = 1" "tagged_thread_jobs bb \<longleftrightarrow> td_thread d \<noteq> 0"
      by (auto simp: timer_batch_eq Let_def add_job_in_def new_batch_def batch_ok_def inc64_def)
    obtain t where t_def: "t = push_job (td_thread d) (next_ptr u, 0) (snd (alloc (BatchObj bb) u))" by simp
    have t: "queue_timer_job i s = t" using squelched bb(1) by (simp add: queue_timer_job_def alloc_def u_def t_def)
    have u: "heap u = heap s" "pool_jobs u = pool_jobs s" "all_inv u" "batches_ok u" "tagged_workers u = tagged_workers s"
      using ok pool_fields(15) [OF truncate_set_running] by (simp_all add: u_def)
    have "fresh_obj u (BatchObj bb)"
      using bb th [OF squelched(1)] u(5) by (simp add: fresh_obj_def threads_ok_def batch_size_def batch_threads_def batch_last_def)
    note one = push_one [OF u(3,4) this _ _ t_def]
    have b: "obj_size (BatchObj bb) = (1, td_thread d \<noteq> 0)" "obj_threads (BatchObj bb) = [td_thread d]"
      using bb by (simp_all add: batch_size_def batch_threads_def)
    have info: "timer_info (heap t p) = (if p = next_ptr u then Some (i, -1, 1) else timer_info (heap s p))" for p
      using one(3) [OF b] bb u(1) by (simp add: timer_info_def)
    have jobs: "map_of (timer_jobs t) k = (if k = i then Some (d\<lparr>td_running := True\<rparr>) else map_of (timer_jobs s) k)" for k
      using timer_jobs_more [OF one(6) [OF b]] squelched(1) by (simp add: u_def map_of_set_running)
    have none: "\<not> has_timer s i p" for p using timers_ok_obj [OF ok(3), of p i] squelched by (fastforce simp: has_timer_def)
    have new: "heap s (next_ptr u) = None" using one(5) [OF b] u(1) by simp
    have hasT: "has_timer t k p \<longleftrightarrow> (if p = next_ptr u then k = i else has_timer s k p)" for k p
      by (auto simp: has_timer_def info)
    have "timers_ok t"
    proof (rule timers_okI)
      fix p k th n
      assume "timer_info (heap t p) = Some (k, th, n)"
      then show "th = -1 \<and> n = 1 \<and> uses p (pool_jobs t) = {#0#} \<and> (\<exists>d. map_of (timer_jobs t) k = Some d \<and> td_squelch d \<and> td_running d)"
        using timers_ok_obj [OF ok(3), of p k th n] one(4) [OF b, of p] u(2) none squelched(2)
        by (auto simp: info jobs has_timer_def split: if_splits)
    next
      fix k e
      assume "map_of (timer_jobs t) k = Some e" "td_running e"
      then show "\<exists>p. has_timer t k p"
      proof (cases "k = i")
        case True
        then have "has_timer t k (next_ptr u)" by (simp add: hasT)
        then show ?thesis by blast
      next
        case False
        then have "map_of (timer_jobs s) k = Some e" using \<open>map_of (timer_jobs t) k = Some e\<close> by (simp add: jobs)
        from timers_ok_flag [OF ok(3) this \<open>td_running e\<close>] obtain p where "has_timer s k p" by blast
        moreover from this have "p \<noteq> next_ptr u" using new by (auto simp: has_timer_def)
        ultimately show ?thesis using hasT by metis
      qed
    next
      show "p = q" if "has_timer t k p" "has_timer t k q" for k p q
        using that none timers_ok_unique [OF ok(3), of k p q] by (auto simp: hasT split: if_splits)
    qed
    then show ?thesis unfolding t using one(1,2) [OF b] by simp
  qed
qed

section \<open>Steps\<close>

text \<open>
  The steps of the pool, the ends of jobs with the completion function that the proxy calls, and those of the timers: one is added,
  with an identifier that libzmq has not used before, one is cancelled, or one expires (\<^verbatim>\<open>thread\<close> names a tagged thread of this object).
\<close>

inductive timer_step :: "(task \<Rightarrow> exn + nat option) \<Rightarrow> 'a omq_scheme \<Rightarrow> 'a omq_scheme \<Rightarrow> bool" for exec where
  plain: "plain_step exec s t \<Longrightarrow> timer_step exec s t"
| ran: "i \<in> busy s \<Longrightarrow> timer_step exec s (handle_worker_message [routing_id CHR ''w'' i, ''RAN''] s)"
| tagged_ran: "i < length (tagged_workers s) \<Longrightarrow> tw_busy (tagged_workers s ! i) \<Longrightarrow>
    timer_step exec s (handle_worker_message [routing_id CHR ''t'' (Suc i), ''RAN''] s)"
| add: "proxy_timer zmq_add timer_id f interval squelch thread s = Inr t \<Longrightarrow> map_of (timer_jobs s) (zmq_add interval) = None \<Longrightarrow>
    timer_step exec s t"
| cancel: "timer_step exec s (proxy_timer_del timer_id s)"
| fire: "(\<And>d. map_of (timer_jobs s) i = Some d \<Longrightarrow> td_thread d \<le> int (length (tagged_workers s))) \<Longrightarrow>
    timer_step exec s (queue_timer_job i s)"

definition reachable_timers :: "(task \<Rightarrow> exn + nat option) \<Rightarrow> 'a omq_scheme \<Rightarrow> bool" where
  "reachable_timers exec t \<longleftrightarrow> (\<exists>threads c s0 s. config_step\<^sup>*\<^sup>* (pool_init threads) c \<and> start_pool c = Inr s0 \<and> max_workers s0 < 2 ^ 31
     \<and> length (tagged_workers s0) < 2 ^ 31 \<and> pool.truncate s = s0 \<and> (\<forall>(i, d) \<in> set (timer_jobs s). \<not> td_running d)
     \<and> (timer_step exec)\<^sup>*\<^sup>* s t)"

lemma run_completion_pool: "pool.truncate (run_completion c s) = pool.truncate s"
  by (simp add: run_completion_def pool.defs set_running_def split: option.splits prod.splits completion_fn.splits)

lemma ended_ok:
  assumes "all_inv (fst R)" "batches_ok (fst R) \<and> ran_effect s R" "timer_jobs (fst R) = timer_jobs s" "batches_ok s" "timers_ok s"
  shows "let t = run_completion (snd R) (fst R) in all_inv t \<and> batches_ok t \<and> timers_ok t"
  using assms ran_timers [of s "fst R" "snd R"] all_inv_truncate [OF run_completion_pool, of "snd R" "fst R"]
    batches_ok_truncate [OF run_completion_pool, of "snd R" "fst R"] by (simp add: Let_def)

lemma timer_step_ok:
  assumes "timer_step exec s t" "all_inv s" "batches_ok s" "timers_ok s"
  shows "all_inv t \<and> batches_ok t \<and> timers_ok t"
  using assms
proof (induction rule: timer_step.induct)
  case (plain s t)
  then show ?case using job_step_ok [OF plain_step_job] plain_step_timers by blast
next
  case (ran i s)
  then have w: "length (workers s) < 2 ^ 32" "i < length (workers s)"
    by (auto simp: all_inv_def pool_inv_def core_inv_def busy_def)
  let ?R = "proxy_ran False i (routing_id CHR ''w'' i) s"
  have "let t = run_completion (snd ?R) (fst ?R) in all_inv t \<and> batches_ok t \<and> timers_ok t"
    using ran by (intro ended_ok [OF _ proxy_ran_effect [OF ran.prems(1,2) ran.hyps]] proxy_ran_all timer_jobs_more) simp_all
  then show ?case using w by (simp add: handle_worker_message_def worker_message_ran case_prod_beta Let_def)
next
  case (tagged_ran i s)
  then have w: "length (tagged_workers s) < 2 ^ 32" by (simp add: all_inv_def)
  let ?R = "proxy_ran True (Suc i) (routing_id CHR ''t'' (Suc i)) s"
  have "let t = run_completion (snd ?R) (fst ?R) in all_inv t \<and> batches_ok t \<and> timers_ok t"
    using tagged_ran
    by (intro ended_ok [OF _ proxy_ran_tagged_effect [OF tagged_ran.prems(1,2) tagged_ran.hyps]] proxy_ran_tagged_all timer_jobs_more) simp_all
  then show ?case using w tagged_ran(1) by (simp add: handle_worker_message_def tagged_message_ran case_prod_beta Let_def)
next
  case (add zmq_add timer_id f interval squelch thread s t)
  let ?i = "zmq_add interval" and ?d = "\<lparr>td_function = f, td_squelch = squelch, td_running = False, td_thread = thread\<rparr>"
  have t: "t = s\<lparr>have_timers := True, timer_jobs := AList.update ?i ?d (timer_jobs s), timer_zmq_id := AList.update timer_id ?i (timer_zmq_id s)\<rparr>"
    using add(1) by (simp add: proxy_timer_def Let_def split: if_splits)
  then have tr: "pool.truncate t = pool.truncate s" by (simp add: pool.defs)
  have jobs: "map_of (timer_jobs t) k = (if k = ?i then Some ?d else map_of (timer_jobs s) k)" for k
    by (simp add: t update_conv')
  have none: "\<not> has_timer s ?i p" for p using timers_ok_obj [OF add.prems(3), of p ?i] add(2) by (fastforce simp: has_timer_def)
  have "timers_ok t"
  proof (rule timers_okI)
    fix p k th n
    assume "timer_info (heap t p) = Some (k, th, n)"
    then have info: "timer_info (heap s p) = Some (k, th, n)" by (simp add: t)
    then have "k \<noteq> ?i" using none by (auto simp: has_timer_def)
    then show "th = -1 \<and> n = 1 \<and> uses p (pool_jobs t) = {#0#} \<and> (\<exists>d. map_of (timer_jobs t) k = Some d \<and> td_squelch d \<and> td_running d)"
      using timers_ok_obj [OF add.prems(3) info] by (simp add: jobs pool_jobs_truncate [OF tr])
  next
    fix k e
    assume "map_of (timer_jobs t) k = Some e" "td_running e"
    then have "map_of (timer_jobs s) k = Some e" by (auto simp: jobs split: if_splits)
    then show "\<exists>p. has_timer t k p" using timers_ok_flag [OF add.prems(3) _ \<open>td_running e\<close>] by (simp add: t has_timer_def)
  next
    show "p = q" if "has_timer t k p" "has_timer t k q" for k p q
      using that timers_ok_unique [OF add.prems(3), of k p q] by (simp add: t has_timer_def)
  qed
  then show ?case using add.prems all_inv_truncate [OF tr] batches_ok_truncate [OF tr] by simp
next
  case (cancel s timer_id)
  let ?t = "proxy_timer_del timer_id s"
  have tr: "pool.truncate ?t = pool.truncate s" "timer_jobs ?t = timer_jobs s"
    by (simp_all add: proxy_timer_del_def pool.defs split: option.splits)
  have "timers_ok ?t"
    by (rule timers_ok_frame [OF cancel(3) tr(2)]) (simp_all add: pool_fields(16) [OF tr(1)] pool_jobs_truncate [OF tr(1)])
  then show ?case using cancel all_inv_truncate [OF tr(1)] batches_ok_truncate [OF tr(1)] by simp
next
  case (fire s i)
  then show ?case by (intro fire_ok) auto
qed

lemma timer_steps_ok: "(timer_step exec)\<^sup>*\<^sup>* s t \<Longrightarrow> all_inv s \<and> batches_ok s \<and> timers_ok s \<Longrightarrow> all_inv t \<and> batches_ok t \<and> timers_ok t"
  by (induction rule: rtranclp_induct) (auto dest: timer_step_ok)

lemma reachable_timers_ok: "reachable_timers exec t \<Longrightarrow> all_inv t \<and> batches_ok t \<and> timers_ok t"
proof -
  assume "reachable_timers exec t"
  then obtain threads c s0 s where *: "config_step\<^sup>*\<^sup>* (pool_init threads) c" "start_pool c = Inr s0" "max_workers s0 < 2 ^ 31"
    "length (tagged_workers s0) < 2 ^ 31" "pool.truncate s = s0" "\<forall>(i, d) \<in> set (timer_jobs s). \<not> td_running d"
    "(timer_step exec)\<^sup>*\<^sup>* s t"
    unfolding reachable_timers_def by blast
  have c: "configured c" by (rule configured_steps [OF *(1)])
  have s0: "all_inv s0" "batches_ok s0"
    using start_pool_inv [OF c *(2,3)] start_pool_batches [OF c *(2,3)] *(4) by (simp_all add: all_inv_def)
  have tr: "pool.truncate s = pool.truncate s0" using *(5) by (auto simp: pool.defs)
  have "heap s0 = Map.empty"
    using c *(2) by (auto simp: start_pool_def init_workers_def Let_def configured_def split: if_splits)
  then have "heap s = Map.empty" using pool_fields(16) [OF tr] by simp
  then have "timers_ok s" using *(6) by (auto simp: timers_ok_def has_timer_def dest!: map_of_SomeD)
  then show ?thesis using timer_steps_ok [OF *(7)] s0 all_inv_truncate [OF tr] batches_ok_truncate [OF tr] by simp
qed

section \<open>Properties\<close>

text \<open>C16: a squelched timer is never double-booked and never stuck. In every reachable state, whatever the workers, the batches of
  the users and the other timers do: the flag \<^verbatim>\<open>running\<close> of a timer is set exactly when there is a batch object of it, then the timer
  is squelched, the object is the only one, and its one job is queued or runs, exactly once; so the flag
  is cleared when that job is done, and until then no second job is made.\<close>

theorem squelched_timer_once:
  assumes "reachable_timers exec s" "map_of (timer_jobs s) i = Some d"
  shows "if td_running d then td_squelch d \<and> (\<exists>!p. has_timer s i p) \<and> (\<exists>p. has_timer s i p \<and> uses p (pool_jobs s) = {#0#})
    else \<not> (\<exists>p. has_timer s i p)"
proof -
  have ok: "timers_ok s" using reachable_timers_ok [OF assms(1)] by simp
  have run: "td_squelch d \<and> td_running d \<and> uses p (pool_jobs s) = {#0#}" if "has_timer s i p" for p
    using that timers_ok_obj [OF ok, of p i] assms(2) by (fastforce simp: has_timer_def)
  show ?thesis using run timers_ok_flag [OF ok assms(2)] timers_ok_unique [OF ok] by (metis (no_types, lifting))
qed

definition omq_init :: "nat \<Rightarrow> bool \<Rightarrow> string \<Rightarrow> omq" where
  "omq_init threads sn pk = net.extend (net_init threads sn pk) (omq.fields [] False 1 [] [] [] Map.empty 1)"

lemma started_init:
  obtains s :: omq and p where "start_pool (pool_init 2) = Inr p" "max_workers p < 2 ^ 31" "tagged_workers p = []"
    "pool.truncate s = p" "timer_jobs s = []"
proof -
  obtain p where p: "start_pool (pool_init 2) = Inr p" "max_workers p < 2 ^ 31" "tagged_workers p = []"
    by (simp add: start_pool_def init_workers_def size_pool_def pool_init_def Let_def)
  let ?s = "pool.extend p (pool.more (omq_init 2 False []))"
  have "pool.truncate ?s = p" "timer_jobs ?s = []"
    by (simp_all add: omq_init_def net_init_def pool.defs net.defs omq.defs)
  then show thesis using p that by blast
qed

theorem squelched_timer_once_witness:
  "\<exists>(s :: omq) d. reachable_timers (\<lambda>t. Inr None) s \<and> map_of (timer_jobs s) 5 = Some d \<and> td_running d \<and> (\<exists>!p. has_timer s 5 p)"
proof -
  obtain s :: omq and p where s: "start_pool (pool_init 2) = Inr p" "max_workers p < 2 ^ 31" "tagged_workers p = []"
    "pool.truncate s = p" "timer_jobs s = []" by (rule started_init)
  let ?exec = "\<lambda>t :: task. Inr None :: exn + nat option"
  let ?d = "\<lparr>td_function = 7, td_squelch = True, td_running = False, td_thread = 0\<rparr>"
  obtain t where t: "proxy_timer (\<lambda>_. 5) 1 7 100 True 0 s = Inr t" "timer_jobs t = [(5, ?d)]"
    using s(5) by (simp add: proxy_timer_def Let_def)
  let ?u = "queue_timer_job 5 t"
  have "timer_step ?exec s t" by (rule add [OF t(1)]) (simp add: s(5))
  moreover have "timer_step ?exec t ?u" by (rule fire) (simp add: t(2))
  ultimately have "(timer_step ?exec)\<^sup>*\<^sup>* s ?u" by (meson converse_rtranclp_into_rtranclp r_into_rtranclp)
  then have reach: "reachable_timers ?exec ?u"
    unfolding reachable_timers_def using s by (intro exI [of _ 2] exI [of _ "pool_init 2"] exI [of _ p] exI [of _ s]) simp
  have "timer_jobs ?u = [(5, ?d\<lparr>td_running := True\<rparr>)]"
    using t(2) by (simp add: queue_timer_job_def timer_batch_eq alloc_def push_job_def set_running_def)
  then have "map_of (timer_jobs ?u) 5 = Some (?d\<lparr>td_running := True\<rparr>)" by simp
  from squelched_timer_once [OF reach this] this reach show ?thesis by (intro exI [of _ ?u] exI [of _ "?d\<lparr>td_running := True\<rparr>"]) simp
qed

end
