(* ===== verification/Bt_Values.thy ===== *)
theory Bt_Values
  imports Conn_Id
begin

text \<open>
  The values that threads serialise to pass them to the proxy, \<^verbatim>\<open>oxenc::bt_value\<close>, and what the proxy uses to read them. The
  serialiser and the consumers belong to the oxenc library: they are arguments, the record \<open>bt_lib\<close>, and the locale \<open>bt_laws\<close>
  states their documented behaviour. A reader and a writer of the bencode format show that it can be met.
\<close>

section \<open>Values\<close>

text \<open>
  A \<^verbatim>\<open>bt_dict\<close> is a \<^verbatim>\<open>std::map\<close>: a list sorted by its keys, with the byte order of strings. \<open>dict_set\<close> is an assignment
  \<^verbatim>\<open>dict[k] = v\<close>.
\<close>

datatype bt_value = bt_int int | bt_str string | bt_list "bt_value list" | bt_dict "(string \<times> bt_value) list"

fun dict_set :: "string \<Rightarrow> 'v \<Rightarrow> (string \<times> 'v) list \<Rightarrow> (string \<times> 'v) list" where
  "dict_set k v [] = [(k, v)]"
| "dict_set k v ((l, w) # m) =
     (if k < l then (k, v) # (l, w) # m else if k = l then (k, v) # m else (l, w) # dict_set k v m)"

definition dict_ok :: "(string \<times> 'v) list \<Rightarrow> bool" where
  "dict_ok m \<longleftrightarrow> sorted_wrt (<) (map fst m)"

lemma dict_ok_Nil [simp]: "dict_ok []"
  by (simp add: dict_ok_def)

lemma keys_dict_set: "fst ` set (dict_set k v m) = insert k (fst ` set m)"
  by (induction k v m rule: dict_set.induct) (simp_all add: insert_commute)

lemma dict_ok_set [simp]:
  assumes "dict_ok m"
  shows "dict_ok (dict_set k v m)"
  using assms
proof (induction m)
  case (Cons e m)
  obtain l w where e: "e = (l, w)" by force
  have "l < x" if "x \<in> fst ` set (dict_set k v m)" "l < k" for x
    using Cons.prems that e unfolding keys_dict_set by (auto simp: dict_ok_def)
  then show ?case using Cons e by (auto simp: dict_ok_def intro: order.strict_trans)
qed (simp add: dict_ok_def)

lemma map_of_dict_set [simp]:
  assumes "dict_ok m"
  shows "map_of (dict_set k v m) = (map_of m)(k \<mapsto> v)"
  using assms
proof (induction m)
  case (Cons e m)
  obtain l w where e: "e = (l, w)" by force
  have "dict_ok m" using Cons.prems by (simp add: dict_ok_def)
  moreover have "map_of m k = None" if "k < l"
    using Cons.prems that e by (force simp: dict_ok_def map_of_eq_None_iff)
  ultimately show ?case using Cons.IH e by (auto simp: fun_eq_iff)
qed simp

lemma dict_ok_filter: "dict_ok m \<Longrightarrow> dict_ok (filter P m)"
  by (induction m) (auto simp: dict_ok_def)


section \<open>The library\<close>

text \<open>
  Integers are read at a type with a range. The consumers of a dictionary and of a list have types of their own. A consumer
  throws where its input is not of the type that is asked for.
\<close>

record ('d, 'l) bt_lib =
  bt_serialize :: "bt_value \<Rightarrow> string"
  bt_deserialize :: "int \<Rightarrow> int \<Rightarrow> string \<Rightarrow> int res"
  dict_consumer :: "string \<Rightarrow> 'd res"
  skip_until :: "string \<Rightarrow> 'd \<Rightarrow> (bool \<times> 'd) res"
  dict_integer :: "int \<Rightarrow> int \<Rightarrow> 'd \<Rightarrow> (int \<times> 'd) res"
  dict_string :: "'d \<Rightarrow> (string \<times> 'd) res"
  dict_list :: "'d \<Rightarrow> ('l \<times> 'd) res"
  list_consumer :: "string \<Rightarrow> 'l res"
  list_finished :: "'l \<Rightarrow> bool"
  list_integer :: "int \<Rightarrow> int \<Rightarrow> 'l \<Rightarrow> (int \<times> 'l) res"
  list_string :: "'l \<Rightarrow> (string \<times> 'l) res"

text \<open>
  \<open>dict_at d m\<close> says that the entries of \<open>m\<close> are still in front of the consumer \<open>d\<close>, and \<open>list_at\<close> the same of a list.
\<close>

locale bt_laws =
  fixes L :: "('d, 'l) bt_lib"
    and dict_at :: "'d \<Rightarrow> (string \<times> bt_value) list \<Rightarrow> bool"
    and list_at :: "'l \<Rightarrow> bt_value list \<Rightarrow> bool"
  assumes not_empty: "bt_serialize L v \<noteq> []"
    and integer: "lo \<le> i \<Longrightarrow> i \<le> hi \<Longrightarrow> bt_deserialize L lo hi (bt_serialize L (bt_int i)) = Inr i"
    and open_dict: "dict_ok m \<Longrightarrow> \<exists>d. dict_consumer L (bt_serialize L (bt_dict m)) = Inr d \<and> dict_at d m"
    and skip: "dict_at d m \<Longrightarrow> dict_ok m \<Longrightarrow>
      \<exists>d'. skip_until L k d = Inr (k \<in> fst ` set m, d') \<and> dict_at d' (filter (\<lambda>e. k \<le> fst e) m)"
    and in_range: "dict_at d ((k, bt_int i) # m) \<Longrightarrow> lo \<le> i \<Longrightarrow> i \<le> hi \<Longrightarrow> \<exists>d'. dict_integer L lo hi d = Inr (i, d') \<and> dict_at d' m"
    and off_range: "dict_at d ((k, bt_int i) # m) \<Longrightarrow> i < lo \<or> hi < i \<Longrightarrow> \<exists>x. dict_integer L lo hi d = Inl x"
    and string: "dict_at d ((k, bt_str s) # m) \<Longrightarrow> \<exists>d'. dict_string L d = Inr (s, d') \<and> dict_at d' m"
    and sublist: "dict_at d ((k, bt_list vs) # m) \<Longrightarrow> \<exists>l d'. dict_list L d = Inr (l, d') \<and> list_at l vs \<and> dict_at d' m"
    and open_list: "\<exists>l. list_consumer L (bt_serialize L (bt_list vs)) = Inr l \<and> list_at l vs"
    and finished: "list_at l vs \<Longrightarrow> list_finished L l \<longleftrightarrow> vs = []"
    and item_in_range: "list_at l (bt_int i # vs) \<Longrightarrow> lo \<le> i \<Longrightarrow> i \<le> hi \<Longrightarrow> \<exists>l'. list_integer L lo hi l = Inr (i, l') \<and> list_at l' vs"
    and item_off_range: "list_at l (bt_int i # vs) \<Longrightarrow> i < lo \<or> hi < i \<Longrightarrow> \<exists>x. list_integer L lo hi l = Inl x"
    and item_string: "list_at l (bt_str s # vs) \<Longrightarrow> \<exists>l'. list_string L l = Inr (s, l') \<and> list_at l' vs"


section \<open>Reading\<close>

text \<open>
  How the handlers read an optional entry: \<^verbatim>\<open>if (data.skip_until(key)) x = data.consume...\<close>. The ranges are those of the integer
  types on a platform of 64 bits.
\<close>

definition opt_integer :: "('d, 'l) bt_lib \<Rightarrow> int \<Rightarrow> int \<Rightarrow> string \<Rightarrow> 'd \<Rightarrow> (int option \<times> 'd) res" where
  "opt_integer L lo hi k d =
     bindE (skip_until L k d) (\<lambda>(found, d).
       if found then bindE (dict_integer L lo hi d) (\<lambda>(i, d). Inr (Some i, d)) else Inr (None, d))"

definition opt_string :: "('d, 'l) bt_lib \<Rightarrow> string \<Rightarrow> 'd \<Rightarrow> (string option \<times> 'd) res" where
  "opt_string L k d =
     bindE (skip_until L k d) (\<lambda>(found, d).
       if found then bindE (dict_string L d) (\<lambda>(s, d). Inr (Some s, d)) else Inr (None, d))"

definition opt_list :: "('d, 'l) bt_lib \<Rightarrow> string \<Rightarrow> 'd \<Rightarrow> ('l option \<times> 'd) res" where
  "opt_list L k d =
     bindE (skip_until L k d) (\<lambda>(found, d).
       if found then bindE (dict_list L d) (\<lambda>(l, d). Inr (Some l, d)) else Inr (None, d))"

definition opt_long :: "('d, 'l) bt_lib \<Rightarrow> string \<Rightarrow> 'd \<Rightarrow> (int option \<times> 'd) res" where
  "opt_long L = opt_integer L (- (2 ^ 63)) (2 ^ 63 - 1)"

definition opt_u64 :: "('d, 'l) bt_lib \<Rightarrow> string \<Rightarrow> 'd \<Rightarrow> (int option \<times> 'd) res" where
  "opt_u64 L = opt_integer L 0 (2 ^ 64 - 1)"

definition opt_int :: "('d, 'l) bt_lib \<Rightarrow> string \<Rightarrow> 'd \<Rightarrow> (int option \<times> 'd) res" where
  "opt_int L = opt_integer L (- (2 ^ 31)) (2 ^ 31 - 1)"

definition opt_bool :: "('d, 'l) bt_lib \<Rightarrow> string \<Rightarrow> 'd \<Rightarrow> (bool option \<times> 'd) res" where
  "opt_bool L k d = bindE (opt_integer L 0 1 k d) (\<lambda>(i, d). Inr (map_option (\<lambda>i. i \<noteq> 0) i, d))"

text \<open>The loop of \<^verbatim>\<open>build_send_parts\<close> over the frames of a message; \<open>None\<close> would be a list that has no end.\<close>

partial_function (option) list_strings :: "('d, 'l) bt_lib \<Rightarrow> 'l \<Rightarrow> string list res option" where
  "list_strings L l =
     (if list_finished L l then Some (Inr [])
      else (case list_string L l of
              Inl x \<Rightarrow> Some (Inl x)
            | Inr (s, l') \<Rightarrow> Option.bind (list_strings L l') (\<lambda>r. Some (bindE r (\<lambda>ss. Inr (s # ss))))))"

context bt_laws
begin

text \<open>
  A consumer that has read a dictionary up to a key, and perhaps its value. Keys that are read in increasing order give the
  values of the dictionary.
\<close>

definition reads :: "'d \<Rightarrow> (string \<times> bt_value) list \<Rightarrow> string \<Rightarrow> bool" where
  "reads d m k \<longleftrightarrow> dict_ok m \<and> (dict_at d (filter (\<lambda>e. k \<le> fst e) m) \<or> dict_at d (filter (\<lambda>e. k < fst e) m))"

lemma reads_open:
  assumes "dict_ok m"
  shows "\<exists>d. dict_consumer L (bt_serialize L (bt_dict m)) = Inr d \<and> reads d m []"
proof -
  have "filter (\<lambda>e. [] \<le> fst e) m = m" by (simp add: filter_id_conv)
  then show ?thesis using open_dict [OF assms] assms unfolding reads_def by auto
qed

lemma skip_from:
  assumes "dict_at d (filter (\<lambda>e. P (fst e)) m)" "dict_ok m" "\<And>l. k \<le> l \<Longrightarrow> P l"
  shows "\<exists>d'. skip_until L k d = Inr (map_of m k \<noteq> None, d') \<and> dict_at d' (filter (\<lambda>e. k \<le> fst e) m)"
proof -
  have "filter (\<lambda>e. k \<le> fst e) (filter (\<lambda>e. P (fst e)) m) = filter (\<lambda>e. k \<le> fst e) m" using assms(3) by (auto intro!: filter_cong)
  moreover have "k \<in> fst ` set (filter (\<lambda>e. P (fst e)) m) \<longleftrightarrow> map_of m k \<noteq> None"
    using assms(3) [of k] by (auto simp: map_of_eq_None_iff)
  ultimately show ?thesis using skip [OF assms(1) dict_ok_filter [OF assms(2)], of k] by simp
qed

lemma reads_skip:
  assumes "reads d m k" "k < k'"
  shows "\<exists>d'. skip_until L k' d = Inr (map_of m k' \<noteq> None, d') \<and> dict_at d' (filter (\<lambda>e. k' \<le> fst e) m)"
  using assms(1) unfolding reads_def
proof (elim conjE disjE)
  assume "dict_ok m" "dict_at d (filter (\<lambda>e. k \<le> fst e) m)"
  then show ?thesis by (intro skip_from [where P = "\<lambda>l. k \<le> l"]) (use assms(2) in auto)
next
  assume "dict_ok m" "dict_at d (filter (\<lambda>e. k < fst e) m)"
  then show ?thesis by (intro skip_from [where P = "\<lambda>l. k < l"]) (use assms(2) in auto)
qed

lemma filter_found:
  assumes "dict_ok m" "map_of m k = Some v"
  shows "filter (\<lambda>e. k \<le> fst e) m = (k, v) # filter (\<lambda>e. k < fst e) m"
  using assms
proof (induction m)
  case (Cons e m)
  obtain l w where e: "e = (l, w)" by force
  have ok: "dict_ok m" "\<And>x. x \<in> set m \<Longrightarrow> l < fst x" using Cons.prems(1) e by (auto simp: dict_ok_def)
  show ?case
  proof (cases "l = k")
    case True
    then have "filter (\<lambda>e. k \<le> fst e) m = m" "filter (\<lambda>e. k < fst e) m = m" using ok(2) by (auto simp: filter_id_conv less_imp_le)
    then show ?thesis using True e Cons.prems(2) by simp
  next
    case False
    then have "map_of m k = Some v" using Cons.prems(2) e by simp
    moreover from this have "l < k" using ok(2) by (auto dest: map_of_SomeD)
    ultimately show ?thesis using Cons.IH ok(1) e by auto
  qed
qed simp

lemma reads_none:
  assumes "reads d m k" "k < k'" "map_of m k' = None"
  shows "\<exists>d'. opt_integer L lo hi k' d = Inr (None, d') \<and> reads d' m k'"
    and "\<exists>d'. opt_string L k' d = Inr (None, d') \<and> reads d' m k'"
    and "\<exists>d'. opt_list L k' d = Inr (None, d') \<and> reads d' m k'"
  using reads_skip [OF assms(1,2)] assms unfolding reads_def by (auto simp: opt_integer_def opt_string_def opt_list_def)

lemma reads_integer:
  assumes "reads d m k" "k < k'" "map_of m k' = Some (bt_int i)"
  shows "lo \<le> i \<Longrightarrow> i \<le> hi \<Longrightarrow> \<exists>d'. opt_integer L lo hi k' d = Inr (Some i, d') \<and> reads d' m k'"
    and "i < lo \<or> hi < i \<Longrightarrow> \<exists>x. opt_integer L lo hi k' d = Inl x"
proof -
  have ok: "dict_ok m" using assms(1) unfolding reads_def by blast
  obtain d' where d': "skip_until L k' d = Inr (True, d')" "dict_at d' ((k', bt_int i) # filter (\<lambda>e. k' < fst e) m)"
    using reads_skip [OF assms(1,2)] assms(3) filter_found [OF ok assms(3)] by auto
  show "\<exists>d'. opt_integer L lo hi k' d = Inr (Some i, d') \<and> reads d' m k'" if "lo \<le> i" "i \<le> hi"
    using in_range [OF d'(2) that] d'(1) ok unfolding reads_def by (auto simp: opt_integer_def)
  show "\<exists>x. opt_integer L lo hi k' d = Inl x" if "i < lo \<or> hi < i"
    using off_range [OF d'(2) that] d'(1) by (auto simp: opt_integer_def)
qed

lemma reads_string:
  assumes "reads d m k" "k < k'" "map_of m k' = Some (bt_str s)"
  shows "\<exists>d'. opt_string L k' d = Inr (Some s, d') \<and> reads d' m k'"
proof -
  have ok: "dict_ok m" using assms(1) unfolding reads_def by blast
  obtain d' where d': "skip_until L k' d = Inr (True, d')" "dict_at d' ((k', bt_str s) # filter (\<lambda>e. k' < fst e) m)"
    using reads_skip [OF assms(1,2)] assms(3) filter_found [OF ok assms(3)] by auto
  show ?thesis using string [OF d'(2)] d'(1) ok unfolding reads_def by (auto simp: opt_string_def)
qed

lemma reads_list:
  assumes "reads d m k" "k < k'" "map_of m k' = Some (bt_list vs)"
  shows "\<exists>l d'. opt_list L k' d = Inr (Some l, d') \<and> list_at l vs \<and> reads d' m k'"
proof -
  have ok: "dict_ok m" using assms(1) unfolding reads_def by blast
  obtain d' where d': "skip_until L k' d = Inr (True, d')" "dict_at d' ((k', bt_list vs) # filter (\<lambda>e. k' < fst e) m)"
    using reads_skip [OF assms(1,2)] assms(3) filter_found [OF ok assms(3)] by auto
  show ?thesis using sublist [OF d'(2)] d'(1) ok unfolding reads_def by (auto simp: opt_list_def)
qed

text \<open>Both cases in one, for an entry that may be absent.\<close>

lemma reads_opt_integer:
  assumes "reads d m k" "k < k'" "map_of m k' = map_option bt_int v" "\<And>i. v = Some i \<Longrightarrow> lo \<le> i \<and> i \<le> hi"
  shows "\<exists>d'. opt_integer L lo hi k' d = Inr (v, d') \<and> reads d' m k'"
  using assms reads_none(1) [OF assms(1,2)] reads_integer(1) [OF assms(1,2)] by (cases v) auto

lemma reads_opt_long:
  assumes "reads d m k" "k < k'" "map_of m k' = map_option bt_int v" "\<And>i. v = Some i \<Longrightarrow> - (2 ^ 63) \<le> i \<and> i \<le> 2 ^ 63 - 1"
  shows "\<exists>d'. opt_long L k' d = Inr (v, d') \<and> reads d' m k'"
  unfolding opt_long_def by (rule reads_opt_integer [OF assms])

lemma reads_opt_u64:
  assumes "reads d m k" "k < k'" "map_of m k' = map_option bt_int v" "\<And>i. v = Some i \<Longrightarrow> 0 \<le> i \<and> i \<le> 2 ^ 64 - 1"
  shows "\<exists>d'. opt_u64 L k' d = Inr (v, d') \<and> reads d' m k'"
  unfolding opt_u64_def by (rule reads_opt_integer [OF assms])

lemma reads_opt_bool:
  assumes "reads d m k" "k < k'" "map_of m k' = map_option (\<lambda>b. bt_int (of_bool b)) v"
  shows "\<exists>d'. opt_bool L k' d = Inr (v, d') \<and> reads d' m k'"
proof -
  have "map_of m k' = map_option bt_int (map_option of_bool v)" using assms(3) by (cases v) auto
  from reads_opt_integer [OF assms(1,2) this, of 0 1] show ?thesis by (cases v) (auto simp: opt_bool_def)
qed

lemma reads_opt_string:
  assumes "reads d m k" "k < k'" "map_of m k' = map_option bt_str v"
  shows "\<exists>d'. opt_string L k' d = Inr (v, d') \<and> reads d' m k'"
  using assms reads_none(2) [OF assms(1,2)] reads_string [OF assms(1,2)] by (cases v) auto

lemma list_strings_at: "list_at l (map bt_str ss) \<Longrightarrow> list_strings L l = Some (Inr ss)"
proof (induction ss arbitrary: l)
  case Nil
  then show ?case using finished [of l "[]"] by (simp add: list_strings.simps [of L l])
next
  case (Cons s ss)
  then obtain l' where "list_string L l = Inr (s, l')" "list_at l' (map bt_str ss)" using item_string [of l s] by auto
  then show ?case using Cons finished [of l "map bt_str (s # ss)"] by (simp add: list_strings.simps [of L l])
qed

end


section \<open>A reader and a writer\<close>

text \<open>The bencode format, read with as many recursive calls as the text has characters.\<close>

fun bencode :: "bt_value \<Rightarrow> string" where
  "bencode (bt_int i) = CHR ''i'' # int_to_string i @ ''e''"
| "bencode (bt_str s) = to_dec (length s) @ CHR '':'' # s"
| "bencode (bt_list vs) = CHR ''l'' # concat (map bencode vs) @ ''e''"
| "bencode (bt_dict m) = CHR ''d'' # concat (map (\<lambda>e. to_dec (length (fst e)) @ CHR '':'' # fst e @ bencode (snd e)) m) @ ''e''"

definition read_int :: "string \<Rightarrow> (int \<times> string) option" where
  "read_int s =
     (case find_char (CHR ''e'') s of
        None \<Rightarrow> None
      | Some j \<Rightarrow>
          Some (if hd s = CHR ''-'' then - int (from_dec (tl (take j s))) else int (from_dec (take j s)), drop (Suc j) s))"

definition read_str :: "string \<Rightarrow> (string \<times> string) option" where
  "read_str s =
     (case find_char (CHR '':'') s of
        None \<Rightarrow> None
      | Some j \<Rightarrow> (let n = from_dec (take j s); t = drop (Suc j) s in if length t < n then None else Some (take n t, drop n t)))"

fun bdecode :: "nat \<Rightarrow> string \<Rightarrow> (bt_value \<times> string) option"
  and bdecode_list :: "nat \<Rightarrow> string \<Rightarrow> (bt_value list \<times> string) option"
  and bdecode_dict :: "nat \<Rightarrow> string \<Rightarrow> ((string \<times> bt_value) list \<times> string) option" where
  "bdecode 0 s = None"
| "bdecode (Suc n) s =
     (case s of
        [] \<Rightarrow> None
      | c # t \<Rightarrow>
          if c = CHR ''i'' then map_option (map_prod bt_int (\<lambda>x. x)) (read_int t)
          else if c = CHR ''l'' then map_option (map_prod bt_list (\<lambda>x. x)) (bdecode_list n t)
          else if c = CHR ''d'' then map_option (map_prod bt_dict (\<lambda>x. x)) (bdecode_dict n t)
          else map_option (map_prod bt_str (\<lambda>x. x)) (read_str s))"
| "bdecode_list 0 s = None"
| "bdecode_list (Suc n) s =
     (case s of
        [] \<Rightarrow> None
      | c # t \<Rightarrow>
          if c = CHR ''e'' then Some ([], t)
          else (case bdecode n s of
                  None \<Rightarrow> None
                | Some (v, u) \<Rightarrow> map_option (map_prod (Cons v) (\<lambda>x. x)) (bdecode_list n u)))"
| "bdecode_dict 0 s = None"
| "bdecode_dict (Suc n) s =
     (case s of
        [] \<Rightarrow> None
      | c # t \<Rightarrow>
          if c = CHR ''e'' then Some ([], t)
          else (case read_str s of
                  None \<Rightarrow> None
                | Some (k, u) \<Rightarrow>
                    (case bdecode n u of
                       None \<Rightarrow> None
                     | Some (v, w) \<Rightarrow> map_option (map_prod (Cons (k, v)) (\<lambda>x. x)) (bdecode_dict n w))))"

lemma digit_facts: "is_digit c \<Longrightarrow> c \<noteq> CHR ''-'' \<and> c \<noteq> CHR ''e'' \<and> c \<noteq> CHR '':'' \<and> c \<noteq> CHR ''i'' \<and> c \<noteq> CHR ''l'' \<and> c \<noteq> CHR ''d''"
  by (auto simp: is_digit_def)

lemma hd_to_dec: "is_digit (hd (to_dec n @ s))"
  using to_dec_digits [of "hd (to_dec n)" n] by (cases "to_dec n") auto

lemma read_int_write: "read_int (int_to_string i @ CHR ''e'' # r) = Some (i, r)"
proof -
  have e: "CHR ''e'' \<notin> set (to_dec n)" for n using to_dec_digits digit_facts by blast
  have m: "hd (to_dec n @ s) \<noteq> CHR ''-''" for n s using hd_to_dec digit_facts by blast
  show ?thesis
  proof (cases "i < 0")
    case True
    then show ?thesis using e find_char_append [of "CHR ''e''" "CHR ''-'' # to_dec (nat (- i))" r]
      by (simp add: read_int_def int_to_string_def)
  next
    case False
    then show ?thesis using e m find_char_append [of "CHR ''e''" "to_dec (nat i)" r] by (simp add: read_int_def int_to_string_def)
  qed
qed

lemma read_str_write: "read_str (to_dec (length s) @ CHR '':'' # s @ r) = Some (s, r)"
proof -
  have "CHR '':'' \<notin> set (to_dec (length s))" using to_dec_digits digit_facts by blast
  then show ?thesis using find_char_append [of "CHR '':''" "to_dec (length s)" "s @ r"] by (simp add: read_str_def)
qed

lemma bencode_head: "\<exists>c t. bencode v @ r = c # t \<and> c \<noteq> CHR ''e''"
proof (cases v)
  case (bt_str s)
  have "to_dec (length s) @ x = hd (to_dec (length s) @ x) # tl (to_dec (length s) @ x)" for x by simp
  then show ?thesis using bt_str hd_to_dec digit_facts by (metis append.assoc bencode.simps(2))
qed auto

lemma bencode_not_Nil: "bencode v \<noteq> []"
  by (cases v) auto

lemma bdecode_list_write:
  assumes "\<And>v n r. v \<in> set vs \<Longrightarrow> length (bencode v) \<le> n \<Longrightarrow> bdecode n (bencode v @ r) = Some (v, r)"
    and "length (concat (map bencode vs)) < n"
  shows "bdecode_list n (concat (map bencode vs) @ CHR ''e'' # r) = Some (vs, r)"
  using assms
proof (induction vs arbitrary: n)
  case Nil
  then show ?case by (cases n) auto
next
  case (Cons v vs)
  obtain n' where n: "n = Suc n'" using Cons.prems(2) by (cases n) auto
  let ?t = "concat (map bencode vs) @ CHR ''e'' # r"
  obtain c t where c: "bencode v @ ?t = c # t" "c \<noteq> CHR ''e''" using bencode_head by blast
  have "bdecode n' (bencode v @ ?t) = Some (v, ?t)" by (rule Cons.prems(1)) (use Cons.prems(2) n in auto)
  moreover have "bdecode_list n' ?t = Some (vs, r)"
  proof (rule Cons.IH)
    obtain a b where "bencode v = a # b" using bencode_not_Nil [of v] by (cases "bencode v") auto
    then show "length (concat (map bencode vs)) < n'" using Cons.prems(2) n by simp
  qed (use Cons.prems(1) in auto)
  ultimately show ?case using c n by simp
qed

lemma bdecode_dict_write:
  assumes "\<And>e n r. e \<in> set m \<Longrightarrow> length (bencode (snd e)) \<le> n \<Longrightarrow> bdecode n (bencode (snd e) @ r) = Some (snd e, r)"
    and "length (concat (map (\<lambda>e. to_dec (length (fst e)) @ CHR '':'' # fst e @ bencode (snd e)) m)) < n"
  shows "bdecode_dict n (concat (map (\<lambda>e. to_dec (length (fst e)) @ CHR '':'' # fst e @ bencode (snd e)) m) @ CHR ''e'' # r) = Some (m, r)"
  using assms
proof (induction m arbitrary: n)
  case Nil
  then show ?case by (cases n) auto
next
  case (Cons e m)
  obtain n' where n: "n = Suc n'" using Cons.prems(2) by (cases n) auto
  obtain k v where e: "e = (k, v)" by force
  let ?t = "concat (map (\<lambda>e. to_dec (length (fst e)) @ CHR '':'' # fst e @ bencode (snd e)) m) @ CHR ''e'' # r"
  obtain a b where ab: "to_dec (length k) = a # b" by (cases "to_dec (length k)") auto
  then have "a \<noteq> CHR ''e''" using to_dec_digits [of a "length k"] digit_facts by auto
  moreover have "read_str (a # b @ CHR '':'' # k @ bencode v @ ?t) = Some (k, bencode v @ ?t)" using read_str_write [of k] ab by simp
  moreover have "bdecode n' (bencode v @ ?t) = Some (v, ?t)" using Cons.prems(1) [of e n'] Cons.prems(2) n e by auto
  moreover have "bdecode_dict n' ?t = Some (m, r)"
    by (rule Cons.IH) (use Cons.prems n e in auto)
  ultimately show ?case by (simp add: e n ab)
qed

lemma bdecode_bencode: "length (bencode v) \<le> n \<Longrightarrow> bdecode n (bencode v @ r) = Some (v, r)"
proof (induction v arbitrary: n r)
  case (bt_int i)
  then show ?case by (cases n) (auto simp: read_int_write)
next
  case (bt_str s)
  obtain a b where ab: "to_dec (length s) = a # b" by (cases "to_dec (length s)") auto
  then have "a \<noteq> CHR ''i'' \<and> a \<noteq> CHR ''l'' \<and> a \<noteq> CHR ''d''" using to_dec_digits [of a "length s"] digit_facts by auto
  moreover have "read_str (a # b @ CHR '':'' # s @ r) = Some (s, r)" using read_str_write [of s r] ab by simp
  ultimately show ?case using bt_str by (cases n) (simp_all add: ab)
next
  case (bt_list vs)
  then show ?case using bdecode_list_write [of vs "n - 1" r] by (cases n) auto
next
  case (bt_dict m)
  have "bdecode n (bencode (snd e) @ r) = Some (snd e, r)" if "e \<in> set m" "length (bencode (snd e)) \<le> n" for e n r
    using bt_dict.IH [OF that(1), of "snd e"] that(2) by (cases e) auto
  then show ?case using bdecode_dict_write [of m "n - 1" r] bt_dict.prems by (cases n) auto
qed

definition bt_ref :: "((string \<times> bt_value) list, bt_value list) bt_lib" where
  "bt_ref =
     \<lparr>bt_serialize = bencode,
      bt_deserialize = (\<lambda>lo hi s. case bdecode (length s) s of
         Some (bt_int i, []) \<Rightarrow> if lo \<le> i \<and> i \<le> hi then Inr i else Inl (runtime_error ''range'') | _ \<Rightarrow> Inl (runtime_error ''integer'')),
      dict_consumer = (\<lambda>s. case bdecode (length s) s of Some (bt_dict m, []) \<Rightarrow> Inr m | _ \<Rightarrow> Inl (runtime_error ''dict'')),
      skip_until = (\<lambda>k m. Inr (k \<in> fst ` set m, filter (\<lambda>e. k \<le> fst e) m)),
      dict_integer = (\<lambda>lo hi m. case m of
         (k, bt_int i) # m \<Rightarrow> if lo \<le> i \<and> i \<le> hi then Inr (i, m) else Inl (runtime_error ''range'') | _ \<Rightarrow> Inl (runtime_error ''integer'')),
      dict_string = (\<lambda>m. case m of (k, bt_str s) # m \<Rightarrow> Inr (s, m) | _ \<Rightarrow> Inl (runtime_error ''string'')),
      dict_list = (\<lambda>m. case m of (k, bt_list l) # m \<Rightarrow> Inr (l, m) | _ \<Rightarrow> Inl (runtime_error ''list'')),
      list_consumer = (\<lambda>s. case bdecode (length s) s of Some (bt_list l, []) \<Rightarrow> Inr l | _ \<Rightarrow> Inl (runtime_error ''list'')),
      list_finished = (\<lambda>l. l = []),
      list_integer = (\<lambda>lo hi l. case l of
         bt_int i # l \<Rightarrow> if lo \<le> i \<and> i \<le> hi then Inr (i, l) else Inl (runtime_error ''range'') | _ \<Rightarrow> Inl (runtime_error ''integer'')),
      list_string = (\<lambda>l. case l of bt_str s # l \<Rightarrow> Inr (s, l) | _ \<Rightarrow> Inl (runtime_error ''string''))\<rparr>"

lemma bdecode_all: "bdecode (length (bencode v)) (bencode v) = Some (v, [])"
  using bdecode_bencode [of v _ "[]"] by simp

interpretation btref: bt_laws bt_ref "(=)" "(=)"
  by unfold_locales (auto simp: bt_ref_def bdecode_all bencode_not_Nil simp del: bencode.simps)

end
