(* ===== verification/Control.thy ===== *)
theory Control
  imports Address Timers Bt_Values
begin

text \<open>
  Control messages: how the threads of an application pass work to the proxy, and how the proxy reads it. The first part is the
  interface of the class \<^verbatim>\<open>OxenMQ\<close> that applications call, \<^verbatim>\<open>send\<close>, \<^verbatim>\<open>request\<close>, \<^verbatim>\<open>connect_remote\<close> and others of \<^verbatim>\<open>oxenmq.h\<close>,
  \<^verbatim>\<open>connections.cpp\<close>, \<^verbatim>\<open>auth.cpp\<close>, \<^verbatim>\<open>jobs.cpp\<close> and \<^verbatim>\<open>oxenmq.cpp\<close>; the second is \<^verbatim>\<open>proxy_control_message\<close> with the functions that
  decode its data.
\<close>

section \<open>Outcomes and objects\<close>

text \<open>
  What becomes of a control message: it is handled, an exception leaves the handler and with it the proxy thread, or
  the handler gets stuck, in a loop that does not end or in undefined behaviour.
\<close>

datatype 'a outcome = finished 'a | threw exn | stuck

definition bindO :: "'a outcome \<Rightarrow> ('a \<Rightarrow> 'b outcome) \<Rightarrow> 'b outcome" where
  "bindO r f = (case r of finished x \<Rightarrow> f x | threw x \<Rightarrow> threw x | stuck \<Rightarrow> stuck)"

definition of_res :: "'a res \<Rightarrow> 'a outcome" where
  "of_res r = (case r of Inl x \<Rightarrow> threw x | Inr y \<Rightarrow> finished y)"

definition of_option :: "'a option \<Rightarrow> 'a outcome" where
  "of_option r = (case r of None \<Rightarrow> stuck | Some y \<Rightarrow> finished y)"

lemma bindO_simps [simp]:
  "bindO (finished x) f = f x" "bindO (threw e) f = threw e" "bindO stuck f = stuck"
  by (simp_all add: bindO_def)

lemma of_res_simps [simp]: "of_res (Inr x) = finished x" "of_res (Inl e) = threw e"
  by (simp_all add: of_res_def)

lemma of_option_simps [simp]: "of_option (Some x) = finished x" "of_option None = stuck"
  by (simp_all add: of_option_def)

text \<open>
  \<^verbatim>\<open>serialize_object\<close> moves an object to the heap and returns its address; \<^verbatim>\<open>deserialize_object\<close> takes it back and frees it. The
  address of an object that does not exist, or of one of another type, is undefined behaviour. The number 0 stands
  for an empty function.
\<close>

definition serialize_object :: "shared_obj \<Rightarrow> 'a omq_scheme \<Rightarrow> int \<times> 'a omq_scheme" where
  "serialize_object ob s = (int (next_obj s), s\<lparr>objs := (objs s)(next_obj s \<mapsto> ob), next_obj := next_obj s + 1\<rparr>)"

definition deserialize_object :: "int \<Rightarrow> 'a omq_scheme \<Rightarrow> (shared_obj \<times> 'a omq_scheme) outcome" where
  "deserialize_object ptr s =
     (case objs s (nat ptr) of
        None \<Rightarrow> stuck
      | Some ob \<Rightarrow> finished (ob, s\<lparr>objs := (objs s)(nat ptr := None)\<rparr>))"

definition as_callback :: "shared_obj \<Rightarrow> nat outcome" where
  "as_callback ob = (case ob of shared_callback f \<Rightarrow> finished f | _ \<Rightarrow> stuck)"

definition as_keys :: "shared_obj \<Rightarrow> string list outcome" where
  "as_keys ob = (case ob of shared_keys ks \<Rightarrow> finished ks | _ \<Rightarrow> stuck)"

definition as_bind :: "shared_obj \<Rightarrow> bind_data outcome" where
  "as_bind ob = (case ob of shared_bind b \<Rightarrow> finished b | _ \<Rightarrow> stuck)"

definition as_task :: "shared_obj \<Rightarrow> injected_task outcome" where
  "as_task ob = (case ob of shared_task t \<Rightarrow> finished t | _ \<Rightarrow> stuck)"

definition deserialize_callback :: "int \<Rightarrow> 'a omq_scheme \<Rightarrow> (nat \<times> 'a omq_scheme) outcome" where
  "deserialize_callback ptr s = bindO (deserialize_object ptr s) (\<lambda>(ob, s). bindO (as_callback ob) (\<lambda>f. finished (f, s)))"

text \<open>\<^verbatim>\<open>send_control\<close>: the data frame is left out if it is empty. A router puts the sender's route in front.\<close>

definition send_control :: "string \<Rightarrow> string \<Rightarrow> string list" where
  "send_control cmd data = (if data = [] then [cmd] else [cmd, data])"


section \<open>Sending and requests\<close>

text \<open>The arguments of \<^verbatim>\<open>send\<close> after the command: message parts and the options of \<^verbatim>\<open>send_option\<close>; times are milliseconds.\<close>

datatype send_opt =
    so_part string
  | so_maybe "send_opt option"
  | so_data_parts "string list"
  | so_hint string
  | so_optional bool
  | so_incoming bool
  | so_outgoing bool
  | so_keep_alive int
  | so_request_timeout int
  | so_queue_failure nat
  | so_queue_full nat

type_synonym bt_entries = "(string \<times> bt_value) list"

definition bt_bool :: "bool \<Rightarrow> bt_value" where
  "bt_bool b = bt_int (of_bool b)"

fun apply_send_option :: "send_opt \<Rightarrow> bt_value list \<times> bt_entries \<times> 'a omq_scheme \<Rightarrow> bt_value list \<times> bt_entries \<times> 'a omq_scheme" where
  "apply_send_option (so_part arg) (parts, data, s) = (parts @ [bt_str arg], data, s)"
| "apply_send_option (so_maybe opt) (parts, data, s) =
     (case opt of None \<Rightarrow> (parts, data, s) | Some arg \<Rightarrow> apply_send_option arg (parts, data, s))"
| "apply_send_option (so_data_parts ps) (parts, data, s) = (parts @ map bt_str ps, data, s)"
| "apply_send_option (so_hint h) (parts, data, s) = (parts, if h = [] then data else dict_set ''hint'' (bt_str h) data, s)"
| "apply_send_option (so_optional b) (parts, data, s) = (parts, dict_set ''optional'' (bt_bool b) data, s)"
| "apply_send_option (so_incoming b) (parts, data, s) = (parts, dict_set ''incoming'' (bt_bool b) data, s)"
| "apply_send_option (so_outgoing b) (parts, data, s) = (parts, dict_set ''outgoing'' (bt_bool b) data, s)"
| "apply_send_option (so_keep_alive t) (parts, data, s) =
     (parts, if 0 \<le> t then dict_set ''keep_alive'' (bt_int t) data else data, s)"
| "apply_send_option (so_request_timeout t) (parts, data, s) =
     (parts, if 0 \<le> t then dict_set ''request_timeout'' (bt_int t) data else data, s)"
| "apply_send_option (so_queue_failure f) (parts, data, s) =
     (let (ptr, s) = serialize_object (shared_callback f) s in (parts, dict_set ''send_fail'' (bt_int ptr) data, s))"
| "apply_send_option (so_queue_full f) (parts, data, s) =
     (let (ptr, s) = serialize_object (shared_callback f) s in (parts, dict_set ''send_full_q'' (bt_int ptr) data, s))"

definition build_send :: "connection_id \<Rightarrow> string \<Rightarrow> send_opt list \<Rightarrow> 'a omq_scheme \<Rightarrow> bt_entries \<times> 'a omq_scheme" where
  "build_send to cmd opts s =
     (let (parts, data, s) = fold apply_send_option opts ([bt_str cmd], [], s);
          data = (if conn_sn to then dict_set ''conn_pubkey'' (bt_str (cid_pk to)) data
                  else dict_set ''conn_route'' (bt_str (cid_route to)) (dict_set ''conn_id'' (bt_int (cid to)) data))
      in (dict_set ''send'' (bt_list parts) data, s))"

definition omq_send :: "('d, 'l) bt_lib \<Rightarrow> connection_id \<Rightarrow> string \<Rightarrow> send_opt list \<Rightarrow> 'a omq_scheme \<Rightarrow> string list \<times> 'a omq_scheme" where
  "omq_send L to cmd opts s =
     (let (data, s) = build_send to cmd opts s in (send_control ''SEND'' (bt_serialize L (bt_dict data)), s))"

text \<open>\<^verbatim>\<open>request\<close>: the tag that \<^verbatim>\<open>make_random_string\<close> returns is an argument, and the first part after the command.\<close>

definition omq_request :: "('d, 'l) bt_lib \<Rightarrow> string \<Rightarrow> connection_id \<Rightarrow> string \<Rightarrow> nat \<Rightarrow> send_opt list \<Rightarrow> 'a omq_scheme \<Rightarrow>
    string list \<times> 'a omq_scheme" where
  "omq_request L reply_tag to cmd callback opts s =
     (let (data, s) = build_send to cmd (so_part reply_tag # opts) s;
          data = dict_set ''request'' (bt_bool True) data;
          (ptr, s) = serialize_object (shared_callback callback) s;
          data = dict_set ''request_callback'' (bt_int ptr) data;
          data = dict_set ''request_tag'' (bt_str reply_tag) data
      in (send_control ''SEND'' (bt_serialize L (bt_dict data)), s))"

text \<open>The functions of a \<^verbatim>\<open>Message\<close> with the connection \<open>conn\<close>, and of the \<^verbatim>\<open>DeferredSend\<close> made from it.\<close>

definition send_back :: "('d, 'l) bt_lib \<Rightarrow> connection_id \<Rightarrow> string \<Rightarrow> send_opt list \<Rightarrow> 'a omq_scheme \<Rightarrow> string list \<times> 'a omq_scheme" where
  "send_back L conn command args = omq_send L conn command (so_optional (\<not> conn_sn conn) # args)"

definition send_reply :: "('d, 'l) bt_lib \<Rightarrow> connection_id \<Rightarrow> string \<Rightarrow> send_opt list \<Rightarrow> 'a omq_scheme \<Rightarrow> string list \<times> 'a omq_scheme" where
  "send_reply L conn reply_tag args =
     omq_send L conn ''REPLY'' (so_part reply_tag # so_optional (\<not> conn_sn conn) # args)"

definition send_request :: "('d, 'l) bt_lib \<Rightarrow> string \<Rightarrow> connection_id \<Rightarrow> string \<Rightarrow> nat \<Rightarrow> send_opt list \<Rightarrow> 'a omq_scheme \<Rightarrow>
    string list \<times> 'a omq_scheme" where
  "send_request L tag conn cmd callback args = omq_request L tag conn cmd callback (so_optional (\<not> conn_sn conn) # args)"

text \<open>\<^verbatim>\<open>DeferredSend::operator()\<close>: its first argument is the command when there is no tag to reply to.\<close>

definition deferred_send :: "('d, 'l) bt_lib \<Rightarrow> connection_id \<Rightarrow> string \<Rightarrow> string \<Rightarrow> send_opt list \<Rightarrow> 'a omq_scheme \<Rightarrow>
    string list \<times> 'a omq_scheme" where
  "deferred_send L conn reply_tag arg args =
     (if reply_tag = [] then send_back L conn arg args else send_reply L conn reply_tag (so_part arg # args))"


section \<open>Connecting\<close>

text \<open>The options of \<^verbatim>\<open>connect_option\<close>, and the two deprecated forms of a bare time and a bare string.\<close>

datatype connect_opt =
    co_auth auth_level
  | co_ephemeral_routing_id bool
  | co_timeout int
  | co_keep_alive int
  | co_hint string
  | co_time int
  | co_string string

fun apply_connect_option :: "bool \<Rightarrow> connect_opt \<Rightarrow> bt_entries \<Rightarrow> bt_entries" where
  "apply_connect_option remote (co_auth a) opts = (if remote then dict_set ''auth_level'' (bt_int (auth_val a)) opts else opts)"
| "apply_connect_option remote (co_ephemeral_routing_id b) opts = dict_set ''ephemeral_rid'' (bt_bool b) opts"
| "apply_connect_option remote (co_timeout t) opts = (if remote then dict_set ''timeout'' (bt_int t) opts else opts)"
| "apply_connect_option remote (co_keep_alive t) opts =
     (if t < 0 then opts else if \<not> remote then dict_set ''keep_alive'' (bt_int t) opts else opts)"
| "apply_connect_option remote (co_hint h) opts =
     (if h = [] then opts else if \<not> remote then dict_set ''hint'' (bt_str h) opts else opts)"
| "apply_connect_option remote (co_time t) opts =
     (if remote then dict_set ''timeout'' (bt_int t) opts else dict_set ''keep_alive'' (bt_int t) opts)"
| "apply_connect_option remote (co_string h) opts = (if \<not> remote then dict_set ''hint'' (bt_str h) opts else opts)"

definition connect_message :: "('d, 'l) bt_lib \<Rightarrow> bt_entries \<Rightarrow> nat \<Rightarrow> nat \<Rightarrow> string option \<Rightarrow> string \<Rightarrow> 'a omq_scheme \<Rightarrow>
    connection_id \<times> string list \<times> 'a omq_scheme" where
  "connect_message L opts on_connect on_failure key remote s =
     (let i = next_conn_id s; s = s\<lparr>next_conn_id := i + 1\<rparr>;
          opts = dict_set ''conn_id'' (bt_int i) opts;
          (p, s) = serialize_object (shared_callback on_connect) s; opts = dict_set ''connect'' (bt_int p) opts;
          (p, s) = serialize_object (shared_callback on_failure) s; opts = dict_set ''failure'' (bt_int p) opts;
          opts = (case key of Some k \<Rightarrow> dict_set ''pubkey'' (bt_str k) opts | None \<Rightarrow> opts);
          opts = dict_set ''remote'' (bt_str remote) opts
      in (conn_of_id i, send_control ''CONNECT_REMOTE'' (bt_serialize L (bt_dict opts)), s))"

definition connect_remote :: "('d, 'l) bt_lib \<Rightarrow> address \<Rightarrow> nat \<Rightarrow> nat \<Rightarrow> connect_opt list \<Rightarrow> 'a omq_scheme \<Rightarrow>
    connection_id \<times> string list \<times> 'a omq_scheme" where
  "connect_remote L remote on_connect on_failure options s =
     connect_message L (fold (apply_connect_option True) options []) on_connect on_failure
       (if addr_curve remote then Some (pubkey remote) else None) (zmq_address remote) s"

text \<open>The deprecated forms, with the address as a string.\<close>

definition connect_remote_string :: "oxenc \<Rightarrow> ('d, 'l) bt_lib \<Rightarrow> string \<Rightarrow> nat \<Rightarrow> nat \<Rightarrow> string option \<Rightarrow> auth_level \<Rightarrow> int \<Rightarrow> 'a omq_scheme \<Rightarrow>
    (connection_id \<times> string list \<times> 'a omq_scheme) res" where
  "connect_remote_string oc L remote on_connect on_failure key lvl timeout s =
     bindE (parse_address oc remote) (\<lambda>a.
     bindE (case key of None \<Rightarrow> Inr a | Some k \<Rightarrow> set_pubkey a k) (\<lambda>a.
       Inr (connect_remote L a on_connect on_failure [co_auth lvl, co_timeout timeout] s)))"

definition connect_inproc :: "('d, 'l) bt_lib \<Rightarrow> nat \<Rightarrow> nat \<Rightarrow> connect_opt list \<Rightarrow> 'a omq_scheme \<Rightarrow>
    connection_id \<times> string list \<times> 'a omq_scheme" where
  "connect_inproc L on_connect on_failure options s =
     connect_message L
       (fold (apply_connect_option True) options
          (dict_set ''auth_level'' (bt_int (auth_val auth_admin)) (dict_set ''timeout'' (bt_int 50) [])))
       on_connect on_failure None ''inproc://sn-self'' s"

text \<open>
  \<^verbatim>\<open>connect_sn\<close> returns the key, which its return type turns into a \<^verbatim>\<open>ConnectionID\<close> after the message has been sent. The default
  time is \<^verbatim>\<open>std::chrono::microseconds{5min}.count()\<close>.
\<close>

definition connect_sn :: "('d, 'l) bt_lib \<Rightarrow> string \<Rightarrow> connect_opt list \<Rightarrow> 'a omq_scheme \<Rightarrow> connection_id res \<times> string list" where
  "connect_sn L key options s =
     (let opts = dict_set ''ephemeral_rid'' (bt_bool (EPHEMERAL_ROUTING_ID s)) (dict_set ''keep_alive'' (bt_int (5 * 60 * 1000000)) []);
          opts = fold (apply_connect_option False) options opts;
          opts = dict_set ''pubkey'' (bt_str key) opts
      in (conn_of_pubkey key, send_control ''CONNECT_SN'' (bt_serialize L (bt_dict opts))))"

definition disconnect :: "('d, 'l) bt_lib \<Rightarrow> connection_id \<Rightarrow> int \<Rightarrow> string list" where
  "disconnect L conn linger =
     send_control ''DISCONNECT'' (bt_serialize L (bt_dict
       (dict_set ''pubkey'' (bt_str (cid_pk conn)) (dict_set ''linger_ms'' (bt_int linger) (dict_set ''conn_id'' (bt_int (cid conn)) [])))))"



section \<open>Service nodes, timers, listeners and jobs\<close>

text \<open>Before \<^verbatim>\<open>start()\<close> these act on the members directly; afterwards they send a message.\<close>

definition pointer_message :: "('d, 'l) bt_lib \<Rightarrow> string \<Rightarrow> int \<Rightarrow> string list" where
  "pointer_message L cmd ptr = send_control cmd (bt_serialize L (bt_int ptr))"

definition set_active_sns :: "('d, 'l) bt_lib \<Rightarrow> string list \<Rightarrow> 'a omq_scheme \<Rightarrow> string list option \<times> 'a omq_scheme" where
  "set_active_sns L keys s =
     (if started s then (let (ptr, s) = serialize_object (shared_keys keys) s in (Some (pointer_message L ''SET_SNS'' ptr), s))
      else (None, proxy_set_active_sns keys s))"

definition update_active_sns :: "('d, 'l) bt_lib \<Rightarrow> string list \<Rightarrow> string list \<Rightarrow> 'a omq_scheme \<Rightarrow> string list option \<times> 'a omq_scheme" where
  "update_active_sns L added removed s =
     (if started s then
        (let (p, s) = serialize_object (shared_keys added) s; (q, s) = serialize_object (shared_keys removed) s
         in (Some (send_control ''UPDATE_SNS'' (bt_serialize L (bt_list [bt_int p, bt_int q]))), s))
      else (None, proxy_update_active_sns added removed s))"

definition add_timer :: "('d, 'l) bt_lib \<Rightarrow> (int \<Rightarrow> int) \<Rightarrow> nat \<Rightarrow> int \<Rightarrow> bool \<Rightarrow> int option \<Rightarrow> 'a omq_scheme \<Rightarrow>
    (int \<times> string list option \<times> 'a omq_scheme) res" where
  "add_timer L zmq_add job interval squelch thread s =
     (let th_id = (case thread of Some i \<Rightarrow> i | None \<Rightarrow> 0);
          i = next_timer_id s; s = s\<lparr>next_timer_id := i + 1\<rparr>
      in if started s then
           (let (p, s) = serialize_object (shared_callback job) s
            in Inr (i, Some (send_control ''TIMER''
                 (bt_serialize L (bt_list [bt_int i, bt_int p, bt_int interval, bt_bool squelch, bt_int th_id]))), s))
         else bindE (proxy_timer zmq_add i job interval squelch th_id s) (\<lambda>s. Inr (i, None, s)))"

definition cancel_timer :: "('d, 'l) bt_lib \<Rightarrow> int \<Rightarrow> 'a omq_scheme \<Rightarrow> string list option \<times> 'a omq_scheme" where
  "cancel_timer L timer_id s =
     (if started s then (Some (pointer_message L ''TIMER_DEL'' timer_id), s) else (None, proxy_timer_del timer_id s))"

text \<open>\<^verbatim>\<open>listen_curve\<close> and \<^verbatim>\<open>listen_plain\<close> differ in the flag; an empty \<^verbatim>\<open>allow_connection\<close> stands for the level none.\<close>

definition listen :: "('d, 'l) bt_lib \<Rightarrow> bool \<Rightarrow> string \<Rightarrow> (string \<Rightarrow> string \<Rightarrow> bool \<Rightarrow> auth_level) option \<Rightarrow> nat option \<Rightarrow> 'a omq_scheme \<Rightarrow>
    (string list option \<times> 'a omq_scheme) res" where
  "listen L curve bind_addr allow on_bind s =
     (if take 9 bind_addr = ''inproc://'' then
        Inl (logic_error (''inproc:// cannot be used with '' @ (if curve then ''listen_curve'' else ''listen_plain'')))
      else
        (let b = \<lparr>bd_address = bind_addr, bd_curve = curve, bd_conn_id = 0,
               bd_allow = (case allow of Some f \<Rightarrow> f | None \<Rightarrow> (\<lambda>_ _ _. auth_none)), bd_on_bind = on_bind\<rparr>
         in if started s then
              (let (ptr, s) = serialize_object (shared_bind b) s in Inr (Some (pointer_message L ''BIND'' ptr), s))
            else Inr (None, s\<lparr>binds := binds s @ [b]\<rparr>)))"

definition batch_message :: "('d, 'l) bt_lib \<Rightarrow> batch_r \<Rightarrow> 'a omq_scheme \<Rightarrow> (string list \<times> batch_r \<times> 'a omq_scheme) res" where
  "batch_message L b s =
     bindE (send_batch b) (\<lambda>(ob, b). let (ptr, s) = alloc ob s in Inr (pointer_message L ''BATCH'' (int ptr), b, s))"

definition send_job :: "('d, 'l) bt_lib \<Rightarrow> nat \<Rightarrow> int option \<Rightarrow> 'a omq_scheme \<Rightarrow> (string list \<times> 'a omq_scheme) res" where
  "send_job L f thread s =
     (if thread = Some (-1) then Inl (logic_error ''job() cannot be used to queue an in-proxy job'')
      else bindE (new_job (user_task f) thread) (\<lambda>j. let (ptr, s) = alloc (JobObj j) s in Inr (pointer_message L ''BATCH'' (int ptr), s)))"

definition send_inject :: "('d, 'l) bt_lib \<Rightarrow> string \<Rightarrow> string \<Rightarrow> string \<Rightarrow> nat option \<Rightarrow> 'a omq_scheme \<Rightarrow>
    (string list option \<times> 'a omq_scheme) res" where
  "send_inject L cat command remote callback s =
     bindE (inject_task cat command remote callback s) (\<lambda>t.
       case t of
         None \<Rightarrow> Inr (None, s)
       | Some t \<Rightarrow> (let (ptr, s) = serialize_object (shared_task t) s in Inr (Some (pointer_message L ''INJECT'' ptr), s)))"


section \<open>Decoding in the proxy\<close>

definition opt_callback :: "('d, 'l) bt_lib \<Rightarrow> string \<Rightarrow> 'd \<Rightarrow> 'a omq_scheme \<Rightarrow> (nat option \<times> 'd \<times> 'a omq_scheme) outcome" where
  "opt_callback L k d s =
     bindO (of_res (opt_u64 L k d)) (\<lambda>(ptr, d).
       case ptr of
         None \<Rightarrow> finished (None, d, s)
       | Some p \<Rightarrow> bindO (deserialize_callback p s) (\<lambda>(f, s). finished (Some f, d, s)))"

definition with_default :: "'a \<Rightarrow> 'a option \<Rightarrow> 'a" where
  "with_default x v = (case v of None \<Rightarrow> x | Some y \<Rightarrow> y)"

text \<open>The connection of a \<^verbatim>\<open>SEND\<close> or \<^verbatim>\<open>REPLY\<close> message.\<close>

definition decode_conn :: "('d, 'l) bt_lib \<Rightarrow> string \<Rightarrow> 'd \<Rightarrow> (connection_id \<times> 'd) outcome" where
  "decode_conn L what d =
     bindO (of_res (opt_long L ''conn_id'' d)) (\<lambda>(i, d).
     if i = Some (-1) then threw (runtime_error ''Invalid error: invalid conn_id value (-1)'')
     else bindO (of_res (opt_string L ''conn_pubkey'' d)) (\<lambda>(pk, d).
       case (i, pk) of
         (Some i, Some pk) \<Rightarrow> threw (runtime_error (''Internal error: Invalid proxy '' @ what @ '' command; conn_id and conn_pubkey are exclusive''))
       | (None, None) \<Rightarrow> threw (runtime_error (''Internal error: Invalid proxy '' @ what @ '' command; conn_pubkey or conn_id missing''))
       | (None, Some pk) \<Rightarrow> finished (conn_of SN_ID pk [], d)
       | (Some i, None) \<Rightarrow> finished (conn_of_id i, d)))"

definition decode_request :: "('d, 'l) bt_lib \<Rightarrow> bool \<Rightarrow> 'd \<Rightarrow> 'a omq_scheme \<Rightarrow>
    ((nat \<times> string \<times> int) option \<times> 'd \<times> 'a omq_scheme) outcome" where
  "decode_request L request d s =
     (if \<not> request then finished (None, d, s)
      else bindO (opt_callback L ''request_callback'' d s) (\<lambda>(cb, d, s).
        case cb of
          None \<Rightarrow> threw (runtime_error ''Internal error: received request without request_callback'')
        | Some f \<Rightarrow> bindO (of_res (opt_string L ''request_tag'' d)) (\<lambda>(tag, d).
            case tag of
              None \<Rightarrow> threw (runtime_error ''Internal error: received request without request_name'')
            | Some tag \<Rightarrow> bindO (of_res (opt_u64 L ''request_timeout'' d)) (\<lambda>(t, d).
                finished (Some (f, tag, with_default 15000 t), d, s)))))"

text \<open>
  The frames are read from the list here; the code reads them when it builds a message, from a copy of the consumer for each attempt.
\<close>

definition decode_parts :: "('d, 'l) bt_lib \<Rightarrow> string \<Rightarrow> 'd \<Rightarrow> (string list \<times> 'd) outcome" where
  "decode_parts L what d =
     bindO (of_res (opt_list L ''send'' d)) (\<lambda>(l, d).
       case l of
         None \<Rightarrow> threw (runtime_error (''Internal error: Invalid proxy '' @ what @ '' command; send parts missing''))
       | Some l \<Rightarrow> bindO (of_option (list_strings L l)) (\<lambda>r. bindO (of_res r) (\<lambda>parts. finished (parts, d))))"

definition decode_send :: "('d, 'l) bt_lib \<Rightarrow> string \<Rightarrow> 'a omq_scheme \<Rightarrow> (send_msg \<times> 'a omq_scheme) outcome" where
  "decode_send L data s =
     bindO (of_res (dict_consumer L data)) (\<lambda>d.
     bindO (decode_conn L ''send'' d) (\<lambda>(c, d).
     bindO (of_res (opt_string L ''conn_route'' d)) (\<lambda>(route, d).
     bindO (of_res (opt_string L ''hint'' d)) (\<lambda>(hint, d).
     bindO (of_res (opt_bool L ''incoming'' d)) (\<lambda>(incoming, d).
     bindO (of_res (opt_u64 L ''keep_alive'' d)) (\<lambda>(keep_alive, d).
     bindO (of_res (opt_bool L ''optional'' d)) (\<lambda>(optional, d).
     bindO (of_res (opt_bool L ''outgoing'' d)) (\<lambda>(outgoing, d).
     bindO (of_res (opt_bool L ''request'' d)) (\<lambda>(request, d).
     bindO (decode_request L (with_default False request) d s) (\<lambda>(request, d, s).
     bindO (decode_parts L ''send'' d) (\<lambda>(parts, d).
     bindO (opt_callback L ''send_fail'' d s) (\<lambda>(fail, d, s).
     bindO (opt_callback L ''send_full_q'' d s) (\<lambda>(full, d, s).
       finished (\<lparr>sm_conn = (case route of Some r \<Rightarrow> c\<lparr>cid_route := r\<rparr> | None \<Rightarrow> c), sm_hint = with_default [] hint,
                   sm_incoming = with_default False incoming, sm_keep_alive = with_default 30000 keep_alive,
                   sm_optional = with_default False optional, sm_outgoing = with_default False outgoing,
                   sm_request = request, sm_send = parts, sm_fail = fail, sm_full = full\<rparr>, s))))))))))))))"

definition handle_send :: "('d, 'l) bt_lib \<Rightarrow> env \<Rightarrow> string \<Rightarrow> 'a omq_scheme \<Rightarrow> 'a omq_scheme outcome" where
  "handle_send L e data s = bindO (decode_send L data s) (\<lambda>(m, s). of_option (proxy_send e m s))"

definition handle_reply :: "('d, 'l) bt_lib \<Rightarrow> env \<Rightarrow> string \<Rightarrow> 'a omq_scheme \<Rightarrow> 'a omq_scheme outcome" where
  "handle_reply L e data s =
     bindO (of_res (dict_consumer L data)) (\<lambda>d.
     bindO (decode_conn L ''reply'' d) (\<lambda>(c, d).
     bindO (decode_parts L ''reply'' d) (\<lambda>(parts, d). of_option (proxy_reply e c parts s))))"

text \<open>\<open>garbage\<close> is the value of the uninitialised \<^verbatim>\<open>keep_alive\<close>.\<close>

definition handle_connect_sn :: "('d, 'l) bt_lib \<Rightarrow> env \<Rightarrow> int \<Rightarrow> string \<Rightarrow> 'a omq_scheme \<Rightarrow> 'a omq_scheme outcome" where
  "handle_connect_sn L e garbage data s =
     bindO (of_res (dict_consumer L data)) (\<lambda>d.
     bindO (of_res (opt_bool L ''ephemeral_rid'' d)) (\<lambda>(ephemeral_rid, d).
     bindO (of_res (opt_string L ''hint'' d)) (\<lambda>(hint, d).
     bindO (of_res (opt_bool L ''incoming'' d)) (\<lambda>(incoming, d).
     bindO (of_res (opt_u64 L ''keep_alive'' d)) (\<lambda>(keep_alive, d).
     bindO (of_res (opt_bool L ''optional'' d)) (\<lambda>(optional, d).
     bindO (of_res (opt_bool L ''outgoing_only'' d)) (\<lambda>(outgoing, d).
     bindO (of_res (opt_string L ''pubkey'' d)) (\<lambda>(key, d).
       case key of
         None \<Rightarrow> threw (runtime_error ''Internal error: Invalid proxy_connect_sn command; pubkey missing'')
       | Some key \<Rightarrow>
           finished (snd (proxy_connect_sn e key (with_default [] hint) (with_default False optional) (with_default False incoming)
             (with_default False outgoing) (with_default (EPHEMERAL_ROUTING_ID s) ephemeral_rid) (with_default garbage keep_alive) s))))))))))"

definition handle_connect_remote :: "('d, 'l) bt_lib \<Rightarrow> env \<Rightarrow> string \<Rightarrow> 'a omq_scheme \<Rightarrow> 'a omq_scheme outcome" where
  "handle_connect_remote L e data s =
     bindO (of_res (dict_consumer L data)) (\<lambda>d.
     bindO (of_res (opt_int L ''auth_level'' d)) (\<lambda>(lvl, d).
     bindO (of_res (opt_long L ''conn_id'' d)) (\<lambda>(conn_id, d).
     bindO (opt_callback L ''connect'' d s) (\<lambda>(on_connect, d, s).
     bindO (of_res (opt_bool L ''ephemeral_rid'' d)) (\<lambda>(ephemeral_rid, d).
     bindO (opt_callback L ''failure'' d s) (\<lambda>(on_failure, d, s).
     bindO (of_res (opt_string L ''pubkey'' d)) (\<lambda>(key, d).
     bindO (of_res (opt_string L ''remote'' d)) (\<lambda>(remote, d).
     bindO (of_res (opt_u64 L ''timeout'' d)) (\<lambda>(timeout, d).
       if with_default (-1) conn_id = -1 \<or> with_default [] remote = [] then
         threw (runtime_error ''Internal error: CONNECT_REMOTE proxy command missing required 'conn_id' and/or 'remote' value'')
       else
         finished (proxy_connect_remote e (with_default (-1) conn_id) (with_default [] remote) (with_default [] key)
           (with_default auth_none (map_option AuthLevel lvl)) (with_default 0 on_connect) (with_default 0 on_failure)
           (with_default 10000 timeout) (with_default (EPHEMERAL_ROUTING_ID s) ephemeral_rid) s))))))))))"

text \<open>The linger time is read as well; it has no effect on the state of the model.\<close>

definition handle_disconnect :: "('d, 'l) bt_lib \<Rightarrow> string \<Rightarrow> 'a omq_scheme \<Rightarrow> 'a omq_scheme outcome" where
  "handle_disconnect L data s =
     bindO (of_res (dict_consumer L data)) (\<lambda>d.
     bindO (of_res (opt_long L ''conn_id'' d)) (\<lambda>(i, d).
     bindO (of_res (opt_long L ''linger_ms'' d)) (\<lambda>(linger, d).
     bindO (of_res (opt_string L ''pubkey'' d)) (\<lambda>(key, d).
       let c = conn_of (with_default (-1) i) (with_default [] key) [] in
       if conn_sn c \<and> length (cid_pk c) \<noteq> 32 then
         threw (runtime_error ''Error: invalid disconnect of SN without a valid pubkey'')
       else finished (proxy_disconnect c s)))))"

definition u64 :: "('d, 'l) bt_lib \<Rightarrow> string \<Rightarrow> int outcome" where
  "u64 L data = of_res (bt_deserialize L 0 (2 ^ 64 - 1) data)"

definition handle_set_sns :: "('d, 'l) bt_lib \<Rightarrow> string \<Rightarrow> 'a omq_scheme \<Rightarrow> 'a omq_scheme outcome" where
  "handle_set_sns L data s =
     bindO (u64 L data) (\<lambda>p. bindO (deserialize_object p s) (\<lambda>(ob, s). bindO (as_keys ob) (\<lambda>keys. finished (proxy_set_active_sns keys s))))"

definition handle_update_sns :: "('d, 'l) bt_lib \<Rightarrow> string \<Rightarrow> 'a omq_scheme \<Rightarrow> 'a omq_scheme outcome" where
  "handle_update_sns L data s =
     bindO (of_res (list_consumer L data)) (\<lambda>l.
     bindO (of_res (list_integer L 0 (2 ^ 64 - 1) l)) (\<lambda>(p, l).
     bindO (deserialize_object p s) (\<lambda>(ob, s). bindO (as_keys ob) (\<lambda>added.
     bindO (of_res (list_integer L 0 (2 ^ 64 - 1) l)) (\<lambda>(q, l).
     bindO (deserialize_object q s) (\<lambda>(ob, s). bindO (as_keys ob) (\<lambda>removed.
       finished (proxy_update_active_sns added removed s))))))))"

text \<open>The function of a timer is freed also when reading the rest of the message throws.\<close>

definition handle_timer :: "('d, 'l) bt_lib \<Rightarrow> (int \<Rightarrow> int) \<Rightarrow> string \<Rightarrow> 'a omq_scheme \<Rightarrow> 'a omq_scheme outcome" where
  "handle_timer L zmq_add data s =
     bindO (of_res (list_consumer L data)) (\<lambda>l.
     bindO (of_res (list_integer L (- (2 ^ 31)) (2 ^ 31 - 1) l)) (\<lambda>(timer_id, l).
     bindO (of_res (list_integer L 0 (2 ^ 64 - 1) l)) (\<lambda>(p, l).
     bindO (deserialize_callback p s) (\<lambda>(f, s).
     bindO (of_res (list_integer L 0 (2 ^ 64 - 1) l)) (\<lambda>(interval, l).
     bindO (of_res (list_integer L 0 1 l)) (\<lambda>(squelch, l).
     bindO (of_res (list_integer L (- (2 ^ 31)) (2 ^ 31 - 1) l)) (\<lambda>(thread, l).
       if \<not> list_finished L l then threw (runtime_error ''Internal error: proxied timer request contains unexpected data'')
       else of_res (proxy_timer zmq_add timer_id f interval (squelch \<noteq> 0) thread s))))))))"


section \<open>The dispatcher\<close>

text \<open>
  What the proxy has sent on its command socket, and the calls of the \<^verbatim>\<open>on_bind\<close> callbacks it has made.
\<close>

record control = omq +
  command_sent :: "(string \<times> string) list"
  bind_calls :: "(nat \<times> bool) list"

definition handle_bind :: "('d, 'l) bt_lib \<Rightarrow> (string \<Rightarrow> bool) \<Rightarrow> string \<Rightarrow> 'a control_scheme \<Rightarrow> 'a control_scheme outcome" where
  "handle_bind L zmq_bind data s =
     bindO (u64 L data) (\<lambda>p. bindO (deserialize_object p s) (\<lambda>(ob, s). bindO (as_bind ob) (\<lambda>b.
       let (call, s) = proxy_bind_message zmq_bind b s
       in finished (s\<lparr>bind_calls := bind_calls s @ (case call of Some c \<Rightarrow> [c] | None \<Rightarrow> [])\<rparr>))))"

definition proxy_control_message :: "('d, 'l) bt_lib \<Rightarrow> env \<Rightarrow> (string \<Rightarrow> bool) \<Rightarrow> (int \<Rightarrow> int) \<Rightarrow> int \<Rightarrow> string list \<Rightarrow>
    'a control_scheme \<Rightarrow> 'a control_scheme outcome" where
  "proxy_control_message L e zmq_bind zmq_add garbage parts s =
     (if length parts < 2 then threw (logic_error ''OxenMQ bug: Expected 2-3 message parts for a proxy control message'')
      else
        (let route = parts ! 0; cmd = parts ! 1; data = parts ! 2;
             invalid = threw (runtime_error (''OxenMQ bug: Proxy received invalid control command: '' @ cmd @ '' ('' @ to_dec (length parts) @ '')''))
         in if length parts = 3 then
              (if cmd = ''SEND'' then handle_send L e data s
               else if cmd = ''REPLY'' then handle_reply L e data s
               else if cmd = ''BATCH'' then
                 bindO (u64 L data) (\<lambda>p. if heap s (nat p) = None then stuck else finished (proxy_batch (nat p) s))
               else if cmd = ''INJECT'' then
                 bindO (u64 L data) (\<lambda>p. bindO (deserialize_object p s) (\<lambda>(ob, s). bindO (as_task ob) (\<lambda>t. finished (proxy_inject_task t s))))
               else if cmd = ''SET_SNS'' then handle_set_sns L data s
               else if cmd = ''UPDATE_SNS'' then handle_update_sns L data s
               else if cmd = ''CONNECT_SN'' then handle_connect_sn L e garbage data s
               else if cmd = ''CONNECT_REMOTE'' then handle_connect_remote L e data s
               else if cmd = ''DISCONNECT'' then handle_disconnect L data s
               else if cmd = ''TIMER'' then handle_timer L zmq_add data s
               else if cmd = ''TIMER_DEL'' then
                 bindO (of_res (bt_deserialize L (- (2 ^ 31)) (2 ^ 31 - 1) data)) (\<lambda>i. finished (proxy_timer_del i s))
               else if cmd = ''BIND'' then handle_bind L zmq_bind data s
               else invalid)
            else if length parts = 2 then
              (if cmd = ''START'' then finished (s\<lparr>command_sent := command_sent s @ [(route, ''READY'')]\<rparr>)
               else if cmd = ''QUIT'' then finished (quit_workers s)
               else invalid)
            else invalid))"

end
