(* ===== verification/Control_Effect.thy ===== *)
theory Control_Effect
  imports Control
begin

text \<open>
  From the caller to the proxy: what the proxy does when it handles the control message of a call is what the arguments of the
  call say, whatever has happened in between, and the objects that the message carries are freed once.
\<close>

section \<open>What the options of a message mean\<close>

text \<open>
  The specification of the options: a later one of the same kind replaces an earlier one. The callbacks are paired with the
  address at which they are passed, and \<open>v_next\<close> is the next free address.
\<close>

record send_view =
  v_parts :: "string list"
  v_hint :: "string option"
  v_incoming :: "bool option"
  v_keep_alive :: "int option"
  v_optional :: "bool option"
  v_outgoing :: "bool option"
  v_request_timeout :: "int option"
  v_fail :: "(nat \<times> nat) option"
  v_full :: "(nat \<times> nat) option"
  v_next :: nat

definition new_view :: "nat \<Rightarrow> string \<Rightarrow> send_view" where
  "new_view n cmd = \<lparr>v_parts = [cmd], v_hint = None, v_incoming = None, v_keep_alive = None, v_optional = None, v_outgoing = None,
     v_request_timeout = None, v_fail = None, v_full = None, v_next = n\<rparr>"

fun view_option :: "send_opt \<Rightarrow> send_view \<Rightarrow> send_view" where
  "view_option (so_part arg) v = v\<lparr>v_parts := v_parts v @ [arg]\<rparr>"
| "view_option (so_maybe opt) v = (case opt of None \<Rightarrow> v | Some arg \<Rightarrow> view_option arg v)"
| "view_option (so_data_parts ps) v = v\<lparr>v_parts := v_parts v @ ps\<rparr>"
| "view_option (so_hint h) v = (if h = [] then v else v\<lparr>v_hint := Some h\<rparr>)"
| "view_option (so_optional b) v = v\<lparr>v_optional := Some b\<rparr>"
| "view_option (so_incoming b) v = v\<lparr>v_incoming := Some b\<rparr>"
| "view_option (so_outgoing b) v = v\<lparr>v_outgoing := Some b\<rparr>"
| "view_option (so_keep_alive t) v = (if 0 \<le> t then v\<lparr>v_keep_alive := Some t\<rparr> else v)"
| "view_option (so_request_timeout t) v = (if 0 \<le> t then v\<lparr>v_request_timeout := Some t\<rparr> else v)"
| "view_option (so_queue_failure f) v = v\<lparr>v_fail := Some (v_next v, f), v_next := v_next v + 1\<rparr>"
| "view_option (so_queue_full f) v = v\<lparr>v_full := Some (v_next v, f), v_next := v_next v + 1\<rparr>"

definition send_spec :: "connection_id \<Rightarrow> (nat \<times> string) option \<Rightarrow> send_view \<Rightarrow> send_msg" where
  "send_spec to request v =
     \<lparr>sm_conn = (if conn_sn to then conn_of SN_ID (cid_pk to) [] else conn_of (cid to) [] (cid_route to)),
      sm_hint = with_default [] (v_hint v), sm_incoming = with_default False (v_incoming v),
      sm_keep_alive = with_default 30000 (v_keep_alive v), sm_optional = with_default False (v_optional v),
      sm_outgoing = with_default False (v_outgoing v),
      sm_request = map_option (\<lambda>(f, tag). (f, tag, with_default 15000 (v_request_timeout v))) request,
      sm_send = v_parts v, sm_fail = map_option snd (v_fail v), sm_full = map_option snd (v_full v)\<rparr>"

text \<open>The integers of the options fit their types, and so do the addresses.\<close>

fun opt_fits :: "send_opt \<Rightarrow> bool" where
  "opt_fits (so_keep_alive t) \<longleftrightarrow> t < 2 ^ 63"
| "opt_fits (so_request_timeout t) \<longleftrightarrow> t < 2 ^ 63"
| "opt_fits (so_maybe opt) \<longleftrightarrow> (case opt of None \<Rightarrow> True | Some arg \<Rightarrow> opt_fits arg)"
| "opt_fits _ \<longleftrightarrow> True"

definition conn_fits :: "connection_id \<Rightarrow> bool" where
  "conn_fits c \<longleftrightarrow> - (2 ^ 63) \<le> cid c \<and> cid c < 2 ^ 63"

definition free_objs :: "nat set \<Rightarrow> 'a omq_scheme \<Rightarrow> 'a omq_scheme" where
  "free_objs A s = s\<lparr>objs := (\<lambda>p. if p \<in> A then None else objs s p)\<rparr>"

lemma free_free [simp]: "free_objs A (free_objs B s) = free_objs (A \<union> B) s" and free_none [simp]: "free_objs {} s = s"
  by (auto simp: free_objs_def fun_eq_iff)

lemma objs_free [simp]: "objs (free_objs A s) p = (if p \<in> A then None else objs s p)"
  by (simp add: free_objs_def)

text \<open>The entries of the dictionary that a view stands for, without the connection, the request and the frames.\<close>

definition view_map :: "send_view \<Rightarrow> string \<Rightarrow> bt_value option" where
  "view_map v =
     Map.empty(''hint'' := map_option bt_str (v_hint v), ''incoming'' := map_option bt_bool (v_incoming v),
       ''keep_alive'' := map_option bt_int (v_keep_alive v), ''optional'' := map_option bt_bool (v_optional v),
       ''outgoing'' := map_option bt_bool (v_outgoing v), ''request_timeout'' := map_option bt_int (v_request_timeout v),
       ''send_fail'' := map_option (\<lambda>(p, f). bt_int (int p)) (v_fail v),
       ''send_full_q'' := map_option (\<lambda>(p, f). bt_int (int p)) (v_full v))"

definition passed :: "nat \<Rightarrow> nat \<Rightarrow> (nat \<Rightarrow> shared_obj option) \<Rightarrow> (nat \<times> nat) option \<Rightarrow> bool" where
  "passed n n' h v \<longleftrightarrow> (case v of None \<Rightarrow> True | Some (p, f) \<Rightarrow> n \<le> p \<and> p < n' \<and> h p = Some (shared_callback f))"

definition represents :: "nat \<Rightarrow> bt_value list \<times> bt_entries \<times> 'a omq_scheme \<Rightarrow> send_view \<Rightarrow> bool" where
  "represents n pds v \<longleftrightarrow> (case pds of (parts, data, s) \<Rightarrow>
     dict_ok data \<and> parts = map bt_str (v_parts v) \<and> map_of data = view_map v \<and> next_obj s = v_next v \<and> n \<le> v_next v
     \<and> passed n (v_next v) (objs s) (v_fail v) \<and> passed n (v_next v) (objs s) (v_full v)
     \<and> (v_fail v = None \<or> map_option fst (v_fail v) \<noteq> map_option fst (v_full v))
     \<and> (\<forall>t. v_keep_alive v = Some t \<longrightarrow> 0 \<le> t \<and> t < 2 ^ 63) \<and> (\<forall>t. v_request_timeout v = Some t \<longrightarrow> 0 \<le> t \<and> t < 2 ^ 63))"

lemma represents_option:
  assumes "represents n (parts, data, s) v" "opt_fits arg"
  shows "represents n (apply_send_option arg (parts, data, s)) (view_option arg v)"
  using assms
proof (induction arg "(parts, data, s)" rule: apply_send_option.induct)
  case (2 opt)
  then show ?case by (cases opt) auto
qed (auto simp: represents_def view_map_def serialize_object_def passed_def fun_upd_twist split: option.splits)

lemma represents_fold:
  assumes "represents n pds v" "list_all opt_fits opts"
  shows "represents n (fold apply_send_option opts pds) (fold view_option opts v)"
  using assms
proof (induction opts arbitrary: pds v)
  case (Cons opt opts)
  obtain parts data s where pds: "pds = (parts, data, s)" by (cases pds)
  then show ?case using Cons represents_option [of n parts data s v opt] by simp
qed simp

lemma represents_new: "represents (next_obj s) ([bt_str cmd], [], s) (new_view (next_obj s) cmd)"
  by (auto simp: represents_def new_view_def view_map_def passed_def fun_eq_iff)

definition conn_map :: "connection_id \<Rightarrow> string \<Rightarrow> bt_value option" where
  "conn_map to =
     (if conn_sn to then [''conn_pubkey'' \<mapsto> bt_str (cid_pk to)]
      else [''conn_id'' \<mapsto> bt_int (cid to), ''conn_route'' \<mapsto> bt_str (cid_route to)])"

definition req_map :: "(nat \<times> nat \<times> string) option \<Rightarrow> string \<Rightarrow> bt_value option" where
  "req_map req =
     (case req of
        None \<Rightarrow> Map.empty
      | Some (p, f, tag) \<Rightarrow> [''request'' \<mapsto> bt_bool True, ''request_callback'' \<mapsto> bt_int (int p), ''request_tag'' \<mapsto> bt_str tag])"

lemma send_keys:
  assumes "map_of m = (view_map v ++ conn_map to ++ req_map req)(''send'' \<mapsto> x)"
  shows "map_of m ''conn_id'' = conn_map to ''conn_id''" "map_of m ''conn_pubkey'' = conn_map to ''conn_pubkey''"
    and "map_of m ''conn_route'' = map_option bt_str (if conn_sn to then None else Some (cid_route to))"
    and "map_of m ''hint'' = map_option bt_str (v_hint v)" "map_of m ''incoming'' = map_option (\<lambda>b. bt_int (of_bool b)) (v_incoming v)"
    and "map_of m ''keep_alive'' = map_option bt_int (v_keep_alive v)" "map_of m ''optional'' = map_option (\<lambda>b. bt_int (of_bool b)) (v_optional v)"
    and "map_of m ''outgoing'' = map_option (\<lambda>b. bt_int (of_bool b)) (v_outgoing v)" "map_of m ''request'' = req_map req ''request''"
    and "map_of m ''request_callback'' = req_map req ''request_callback''" "map_of m ''request_tag'' = req_map req ''request_tag''"
    and "map_of m ''request_timeout'' = map_option bt_int (v_request_timeout v)" "map_of m ''send'' = Some x"
    and "map_of m ''send_fail'' = map_option (\<lambda>(p, f). bt_int (int p)) (v_fail v)"
    and "map_of m ''send_full_q'' = map_option (\<lambda>(p, f). bt_int (int p)) (v_full v)"
  unfolding assms
  by (cases req; cases "conn_sn to"; force simp: map_add_def view_map_def conn_map_def req_map_def bt_bool_def [abs_def])+

lemma build_send_view:
  assumes "build_send to cmd opts s = (data, s')" "list_all opt_fits opts"
  shows "\<exists>rest. represents (next_obj s) (map bt_str (v_parts (fold view_option opts (new_view (next_obj s) cmd))), rest, s')
      (fold view_option opts (new_view (next_obj s) cmd))
    \<and> dict_ok data \<and> map_of data = (map_of rest ++ conn_map to)
        (''send'' \<mapsto> bt_list (map bt_str (v_parts (fold view_option opts (new_view (next_obj s) cmd)))))"
proof -
  let ?v = "fold view_option opts (new_view (next_obj s) cmd)"
  obtain parts rest u where f: "fold apply_send_option opts ([bt_str cmd], [], s) = (parts, rest, u)" by (metis prod_cases3)
  then have r: "represents (next_obj s) (parts, rest, u) ?v" using represents_fold [OF represents_new assms(2)] by metis
  have "parts = map bt_str (v_parts ?v)" "dict_ok rest" using r by (auto simp: represents_def)
  then show ?thesis using r f assms(1) by (intro exI [of _ rest]) (auto simp: build_send_def conn_map_def)
qed

section \<open>What the proxy decodes\<close>

context bt_laws
begin

lemma reads_callback:
  assumes "reads d m k" "k < k'" "map_of m k' = map_option (\<lambda>(p, f). bt_int (int p)) v"
    and "\<And>p f. v = Some (p, f) \<Longrightarrow> p < 2 ^ 64 \<and> objs s p = Some (shared_callback f)"
  shows "\<exists>d'. opt_callback L k' d s = finished (map_option snd v, d', free_objs (fst ` set_option v) s) \<and> reads d' m k'"
proof -
  have "map_of m k' = map_option bt_int (map_option (\<lambda>(p, f). int p) v)" using assms(3) by (cases v) auto
  moreover have "0 \<le> i \<and> i \<le> 2 ^ 64 - 1" if "map_option (\<lambda>(p, f). int p) v = Some i" for i using that assms(4) by force
  ultimately obtain d' where "opt_u64 L k' d = Inr (map_option (\<lambda>(p, f). int p) v, d')" "reads d' m k'"
    using reads_opt_u64 [OF assms(1,2)] by blast
  moreover have "deserialize_callback (int p) s = finished (f, free_objs {p} s)" if "v = Some (p, f)" for p f
    using assms(4) [OF that] by (auto simp: deserialize_callback_def deserialize_object_def as_callback_def free_objs_def fun_eq_iff)
  ultimately show ?thesis by (cases v) (auto simp: opt_callback_def)
qed

lemma reads_parts:
  assumes "reads d m k" "k < ''send''" "map_of m ''send'' = Some (bt_list (map bt_str parts))"
  shows "\<exists>d'. decode_parts L what d = finished (parts, d') \<and> reads d' m ''send''"
  using reads_list [OF assms] list_strings_at by (auto simp: decode_parts_def)

lemma reads_conn:
  assumes "reads d m k" "k < ''conn_id''" "conn_fits to"
    and "map_of m ''conn_id'' = conn_map to ''conn_id''" "map_of m ''conn_pubkey'' = conn_map to ''conn_pubkey''"
  shows "\<exists>d'. decode_conn L what d = finished (if conn_sn to then conn_of SN_ID (cid_pk to) [] else conn_of_id (cid to), d')
    \<and> reads d' m ''conn_pubkey''"
proof -
  let ?i = "if conn_sn to then None else Some (cid to)" and ?pk = "if conn_sn to then Some (cid_pk to) else None"
  obtain d1 where 1: "opt_long L ''conn_id'' d = Inr (?i, d1)" "reads d1 m ''conn_id''"
    using reads_opt_long [OF assms(1,2), of ?i] assms(3,4) by (cases "conn_sn to") (auto simp: conn_map_def conn_fits_def)
  obtain d2 where 2: "opt_string L ''conn_pubkey'' d1 = Inr (?pk, d2)" "reads d2 m ''conn_pubkey''"
    using reads_opt_string [OF 1(2), of "''conn_pubkey''" ?pk] assms(5) by (cases "conn_sn to") (auto simp: conn_map_def)
  show ?thesis using 1 2 by (auto simp: decode_conn_def conn_sn_def SN_ID_def)
qed

lemma reads_request:
  assumes "reads d m k" "k < ''request''" "map_of m ''request'' = req_map req ''request''"
    and "map_of m ''request_callback'' = req_map req ''request_callback''" "map_of m ''request_tag'' = req_map req ''request_tag''"
    and "map_of m ''request_timeout'' = map_option bt_int rt" "\<And>i. rt = Some i \<Longrightarrow> 0 \<le> i \<and> i < 2 ^ 63"
    and "\<And>p f tag. req = Some (p, f, tag) \<Longrightarrow> p < 2 ^ 64 \<and> objs s p = Some (shared_callback f)"
  shows "\<exists>d1 d'. opt_bool L ''request'' d = Inr (map_option (\<lambda>_. True) req, d1)
    \<and> decode_request L (req \<noteq> None) d1 s
      = finished (map_option (\<lambda>(p, f, tag). (f, tag, with_default 15000 rt)) req, d', free_objs (fst ` set_option req) s)
    \<and> (\<exists>k. reads d' m k \<and> k < ''send'')"
proof -
  obtain d1 where 1: "opt_bool L ''request'' d = Inr (map_option (\<lambda>_. True) req, d1)" "reads d1 m ''request''"
    using reads_opt_bool [OF assms(1,2), of "map_option (\<lambda>_. True) req"] assms(3) by (cases req) (auto simp: req_map_def bt_bool_def)
  show ?thesis
  proof (cases req)
    case None
    then show ?thesis using 1 by (intro exI [of _ d1]) (auto simp: decode_request_def intro!: exI [of _ "''request''"])
  next
    case (Some r)
    obtain p f tag where r: "r = (p, f, tag)" by (cases r)
    obtain d2 where 2: "opt_callback L ''request_callback'' d1 s = finished (Some f, d2, free_objs {p} s)" "reads d2 m ''request_callback''"
      using reads_callback [OF 1(2), of "''request_callback''" "Some (p, f)" s] assms(4,8) Some r by (auto simp: req_map_def)
    obtain d3 where 3: "opt_string L ''request_tag'' d2 = Inr (Some tag, d3)" "reads d3 m ''request_tag''"
      using reads_opt_string [OF 2(2), of "''request_tag''" "Some tag"] assms(5) Some r by (auto simp: req_map_def)
    obtain d4 where 4: "opt_u64 L ''request_timeout'' d3 = Inr (rt, d4)" "reads d4 m ''request_timeout''"
      using reads_opt_u64 [OF 3(2), of "''request_timeout''" rt] assms(6,7) by force
    show ?thesis using 1 2 3 4 Some r
      by (intro exI [of _ d1] exI [of _ d4]) (auto simp: decode_request_def intro!: exI [of _ "''request_timeout''"])
  qed
qed

lemma decode_send_view:
  assumes v: "represents n (ps, rest, u) v" and m: "dict_ok m" "map_of m = (map_of rest ++ conn_map to ++ req_map req)(''send'' \<mapsto> bt_list (map bt_str (v_parts v)))"
    and to: "conn_fits to" and room: "v_next v \<le> 2 ^ 64"
    and req: "\<And>p f tag. req = Some (p, f, tag) \<Longrightarrow> p < 2 ^ 64 \<and> v_next v \<le> p \<and> objs s p = Some (shared_callback f)"
    and later: "\<And>p f. v_fail v = Some (p, f) \<or> v_full v = Some (p, f) \<Longrightarrow> objs s p = Some (shared_callback f)"
  shows "decode_send L (bt_serialize L (bt_dict m)) s = finished (send_spec to (map_option snd req) v,
      free_objs (fst ` set_option req \<union> fst ` set_option (v_fail v) \<union> fst ` set_option (v_full v)) s)"
proof -
  have look: "map_of m = (view_map v ++ conn_map to ++ req_map req)(''send'' \<mapsto> bt_list (map bt_str (v_parts v)))"
    using v m(2) by (simp add: represents_def)
  note keys = send_keys [OF look]
  have times: "0 \<le> t \<and> t \<le> 2 ^ 64 - 1" if "v_keep_alive v = Some t" for t using v that by (auto simp: represents_def)
  have addr: "p < v_next v" if "v_fail v = Some (p, f) \<or> v_full v = Some (p, f)" for p f
    using v that by (auto simp: represents_def passed_def)
  have diff: "p \<noteq> q" if "v_fail v = Some (p, f)" "v_full v = Some (q, g)" for p f q g using v that by (auto simp: represents_def)
  obtain d0 where 0: "dict_consumer L (bt_serialize L (bt_dict m)) = Inr d0" "reads d0 m []" using reads_open [OF m(1)] by blast
  obtain d1 where 1: "decode_conn L ''send'' d0 = finished (if conn_sn to then conn_of SN_ID (cid_pk to) [] else conn_of_id (cid to), d1)"
      "reads d1 m ''conn_pubkey''" using reads_conn [OF 0(2) _ to keys(1,2), of "''send''"] by auto
  obtain d2 where 2: "opt_string L ''conn_route'' d1 = Inr (if conn_sn to then None else Some (cid_route to), d2)" "reads d2 m ''conn_route''"
    using reads_opt_string [OF 1(2) _ keys(3)] by auto
  obtain d3 where 3: "opt_string L ''hint'' d2 = Inr (v_hint v, d3)" "reads d3 m ''hint''" using reads_opt_string [OF 2(2) _ keys(4)] by auto
  obtain d4 where 4: "opt_bool L ''incoming'' d3 = Inr (v_incoming v, d4)" "reads d4 m ''incoming''" using reads_opt_bool [OF 3(2) _ keys(5)] by auto
  obtain d5 where 5: "opt_u64 L ''keep_alive'' d4 = Inr (v_keep_alive v, d5)" "reads d5 m ''keep_alive''"
    using reads_opt_u64 [OF 4(2) _ keys(6) times] by auto
  obtain d6 where 6: "opt_bool L ''optional'' d5 = Inr (v_optional v, d6)" "reads d6 m ''optional''" using reads_opt_bool [OF 5(2) _ keys(7)] by auto
  obtain d7 where 7: "opt_bool L ''outgoing'' d6 = Inr (v_outgoing v, d7)" "reads d7 m ''outgoing''" using reads_opt_bool [OF 6(2) _ keys(8)] by auto
  have rts: "0 \<le> i \<and> i < 2 ^ 63" if "v_request_timeout v = Some i" for i using v that by (auto simp: represents_def)
  have "\<exists>d1 d'. opt_bool L ''request'' d7 = Inr (map_option (\<lambda>_. True) req, d1)
    \<and> decode_request L (req \<noteq> None) d1 s
      = finished (map_option (\<lambda>(p, f, tag). (f, tag, with_default 15000 (v_request_timeout v))) req, d', free_objs (fst ` set_option req) s)
    \<and> (\<exists>k. reads d' m k \<and> k < ''send'')"
    by (rule reads_request [OF 7(2) _ keys(9-12)]) (use rts req in auto)
  then obtain d8 d9 k where 8: "opt_bool L ''request'' d7 = Inr (map_option (\<lambda>_. True) req, d8)"
      "decode_request L (req \<noteq> None) d8 s
        = finished (map_option (\<lambda>(p, f, tag). (f, tag, with_default 15000 (v_request_timeout v))) req, d9, free_objs (fst ` set_option req) s)"
      "reads d9 m k" "k < ''send''" by blast
  let ?s = "free_objs (fst ` set_option req) s"
  obtain d10 where 10: "decode_parts L ''send'' d9 = finished (v_parts v, d10)" "reads d10 m ''send''" using reads_parts [OF 8(3,4) keys(13)] by auto
  have fresh: "p \<notin> fst ` set_option req" if "p < v_next v" for p
  proof
    assume "p \<in> fst ` set_option req"
    then obtain f tag where "req = Some (p, f, tag)" by auto
    then show False using req that by force
  qed
  have f1: "p < 2 ^ 64 \<and> objs ?s p = Some (shared_callback f)" if "v_fail v = Some (p, f)" for p f
    using addr [of p f] later [of p f] fresh [of p] room that by auto
  obtain d11 where 11: "opt_callback L ''send_fail'' d10 ?s = finished (map_option snd (v_fail v), d11, free_objs (fst ` set_option (v_fail v)) ?s)"
      "reads d11 m ''send_fail''" using reads_callback [OF 10(2) _ keys(14) f1] by auto
  let ?t = "free_objs (fst ` set_option (v_fail v)) ?s"
  have f2: "p < 2 ^ 64 \<and> objs ?t p = Some (shared_callback f)" if "v_full v = Some (p, f)" for p f
    using addr [of p f] later [of p f] fresh [of p] room that diff [OF _ that] by auto
  obtain d12 where 12: "opt_callback L ''send_full_q'' d11 ?t = finished (map_option snd (v_full v), d12, free_objs (fst ` set_option (v_full v)) ?t)"
    using reads_callback [OF 11(2) _ keys(15) f2] by auto
  have "with_default False (map_option (\<lambda>_. True) req) \<longleftrightarrow> req \<noteq> None" by (cases req) (auto simp: with_default_def)
  then show ?thesis using 0 1 2 3 4 5 6 7 8 10 11 12
    by (cases req; cases "conn_sn to") (auto simp: decode_send_def send_spec_def conn_of_def conn_of_id_def ac_simps)
qed

end

lemma represents_passed:
  assumes "represents n (ps, rest, s) v" "v_fail v = Some (p, f) \<or> v_full v = Some (p, f)"
  shows "n \<le> p" "p < v_next v" "objs s p = Some (shared_callback f)"
  using assms by (auto simp: represents_def passed_def)

lemma represents_range:
  assumes "represents n (ps, rest, s) v"
  shows "fst ` set_option (v_fail v) \<union> fst ` set_option (v_full v) \<subseteq> {n..<v_next v}"
  using assms by (auto simp: represents_def passed_def)

text \<open>A \<^verbatim>\<open>SEND\<close> message goes to \<^verbatim>\<open>proxy_send\<close>.\<close>

lemma control_send:
  "data \<noteq> [] \<Longrightarrow> proxy_control_message L e zb za g (route # send_control ''SEND'' data) t =
     bindO (decode_send L data t) (\<lambda>(m, s). of_option (proxy_send e m s))"
  by (simp add: proxy_control_message_def send_control_def handle_send_def)

definition sent_view :: "string \<Rightarrow> (nat \<times> string) option \<Rightarrow> send_opt list \<Rightarrow> nat \<Rightarrow> send_view" where
  "sent_view cmd request opts n =
     fold view_option (case request of None \<Rightarrow> opts | Some (f, tag) \<Rightarrow> so_part tag # opts) (new_view n cmd)"

definition sent_addresses :: "(nat \<times> string) option \<Rightarrow> send_view \<Rightarrow> nat set" where
  "sent_addresses request v =
     (\<lambda>_. v_next v) ` set_option request \<union> fst ` set_option (v_fail v) \<union> fst ` set_option (v_full v)"

definition control_init :: "nat \<Rightarrow> bool \<Rightarrow> string \<Rightarrow> control" where
  "control_init threads sn pk = omq.extend (omq_init threads sn pk) (control.fields [] [])"

lemma control_init_sel [simp]:
  "next_obj (control_init n sn pk) = 1" "objs (control_init n sn pk) = Map.empty" "next_conn_id (control_init n sn pk) = 1"
  "EPHEMERAL_ROUTING_ID (control_init n sn pk) = False" "peers (control_init n sn pk) = []" "connections (control_init n sn pk) = []"
  "next_timer_id (control_init n sn pk) = 1" "started (control_init n sn pk) = False" "proxy_died (control_init n sn pk) = False"
  by (simp_all add: control_init_def omq_init_def net_init_def pool_init_def registry_init_def registry.defs pool.defs net.defs omq.defs control.defs)

section \<open>Properties\<close>

text \<open>C8: For every library that serialises as documented, the control message of a call of \<^verbatim>\<open>send\<close> or \<^verbatim>\<open>request\<close> makes the proxy, in any later state
  in which the objects of the call are still allocated, run \<^verbatim>\<open>proxy_send\<close> with exactly the connection, frames, options, tag and callbacks that
  the arguments say, after freeing the objects that the message carries, which are objects of the call.
\<close>

theorem sends_take_effect:
  assumes laws: "bt_laws L dict_at list_at" and fits: "conn_fits to" "list_all opt_fits opts"
    and call: "(case request of None \<Rightarrow> omq_send L to cmd opts s | Some (f, tag) \<Rightarrow> omq_request L tag to cmd f opts s) = (msg, s')"
    and room: "next_obj s' \<le> 2 ^ 64" and later: "\<And>p. next_obj s \<le> p \<Longrightarrow> p < next_obj s' \<Longrightarrow> objs t p = objs s' p"
  shows "let v = sent_view cmd request opts (next_obj s); A = sent_addresses request v
    in proxy_control_message L e zmq_bind zmq_add garbage (route # msg) t = of_option (proxy_send e (send_spec to request v) (free_objs A t))
       \<and> A \<subseteq> {next_obj s..<next_obj s'}"
proof (cases request)
  case None
  obtain data where b: "build_send to cmd opts s = (data, s')" "msg = send_control ''SEND'' (bt_serialize L (bt_dict data))"
    using call None by (auto simp: omq_send_def split: prod.splits)
  let ?v = "fold view_option opts (new_view (next_obj s) cmd)"
  obtain rest where r: "represents (next_obj s) (map bt_str (v_parts ?v), rest, s') ?v" "dict_ok data"
      "map_of data = (map_of rest ++ conn_map to ++ req_map None)(''send'' \<mapsto> bt_list (map bt_str (v_parts ?v)))"
    using build_send_view [OF b(1) fits(2)] by (auto simp: req_map_def)
  have nxt: "next_obj s' = v_next ?v" using r(1) by (simp add: represents_def)
  have "decode_send L (bt_serialize L (bt_dict data)) t = finished (send_spec to (map_option snd (None :: (nat \<times> nat \<times> string) option)) ?v,
      free_objs (fst ` set_option (None :: (nat \<times> nat \<times> string) option) \<union> fst ` set_option (v_fail ?v) \<union> fst ` set_option (v_full ?v)) t)"
    by (rule bt_laws.decode_send_view [OF laws r fits(1)]) (use room nxt later represents_passed [OF r(1)] in auto)
  then show ?thesis using None b(2) nxt represents_range [OF r(1)] bt_laws.not_empty [OF laws]
    by (auto simp: control_send sent_view_def sent_addresses_def Let_def)
next
  case (Some ft)
  obtain f tag where ft: "ft = (f, tag)" by force
  let ?opts = "so_part tag # opts"
  let ?v = "fold view_option ?opts (new_view (next_obj s) cmd)"
  obtain data u where b: "build_send to cmd ?opts s = (data, u)" by force
  define p where "p = next_obj u"
  define data' where "data' = dict_set ''request_tag'' (bt_str tag) (dict_set ''request_callback'' (bt_int (int p)) (dict_set ''request'' (bt_bool True) data))"
  have m: "msg = send_control ''SEND'' (bt_serialize L (bt_dict data'))" "s' = snd (serialize_object (shared_callback f) u)"
    using call b unfolding Some ft data'_def p_def by (auto simp: omq_request_def Let_def serialize_object_def)
  obtain rest where r: "represents (next_obj s) (map bt_str (v_parts ?v), rest, u) ?v" "dict_ok data"
      "map_of data = (map_of rest ++ conn_map to)(''send'' \<mapsto> bt_list (map bt_str (v_parts ?v)))"
    using build_send_view [OF b] fits(2) by auto
  have d: "dict_ok data'" "map_of data' = (map_of rest ++ conn_map to ++ req_map (Some (p, f, tag)))(''send'' \<mapsto> bt_list (map bt_str (v_parts ?v)))"
    using r(2,3) by (auto simp: data'_def req_map_def fun_upd_twist)
  have nxt: "p = v_next ?v" "next_obj s' = Suc p" "objs s' = (objs u)(p \<mapsto> shared_callback f)" "next_obj s \<le> p"
    using r(1) m(2) by (auto simp: represents_def p_def serialize_object_def)
  have cb: "objs t q = Some (shared_callback g)" if "v_fail ?v = Some (q, g) \<or> v_full ?v = Some (q, g)" for q g
    using later [of q] represents_passed [OF r(1) that] nxt by auto
  have own: "objs t p = Some (shared_callback f)" using later [of p] nxt by simp
  have "decode_send L (bt_serialize L (bt_dict data')) t = finished (send_spec to (map_option snd (Some (p, f, tag))) ?v,
      free_objs (fst ` set_option (Some (p, f, tag)) \<union> fst ` set_option (v_fail ?v) \<union> fst ` set_option (v_full ?v)) t)"
    by (rule bt_laws.decode_send_view [OF laws r(1) d fits(1) _ _ cb]) (use room nxt own in auto)
  then show ?thesis using Some ft m(1) nxt represents_range [OF r(1)] bt_laws.not_empty [OF laws]
    by (auto simp: control_send sent_view_def sent_addresses_def Let_def)
qed

theorem sends_take_effect_witness:
  "let s = control_init 2 False [];
       (msg, s') = omq_request bt_ref ''tag'' (conn_of_id 5) ''cat.cmd'' 7 [so_part ''a'', so_queue_failure 9, so_keep_alive 1000] s
   in proxy_control_message bt_ref example_env (\<lambda>_. True) (\<lambda>_. 1) 0 (''r'' # msg) s' = of_option (proxy_send example_env
        \<lparr>sm_conn = conn_of_id 5, sm_hint = [], sm_incoming = False, sm_keep_alive = 1000, sm_optional = False, sm_outgoing = False,
         sm_request = Some (7, ''tag'', 15000), sm_send = [''cat.cmd'', ''tag'', ''a''], sm_fail = Some 9, sm_full = None\<rparr> (free_objs {2, 1} s'))
      \<and> next_obj s' = 3"
proof -
  let ?s = "control_init 2 False []" and ?opts = "[so_part ''a'', so_queue_failure 9, so_keep_alive 1000]"
  obtain msg s' where c: "omq_request bt_ref ''tag'' (conn_of_id 5) ''cat.cmd'' 7 ?opts ?s = (msg, s')" by force
  then have n: "next_obj s' = 3" by (auto simp: omq_request_def build_send_def serialize_object_def Let_def conn_of_id_def conn_sn_def SN_ID_def)
  have v: "sent_view ''cat.cmd'' (Some (7, ''tag'')) ?opts 1 =
      \<lparr>v_parts = [''cat.cmd'', ''tag'', ''a''], v_hint = None, v_incoming = None, v_keep_alive = Some 1000, v_optional = None, v_outgoing = None,
       v_request_timeout = None, v_fail = Some (1, 9), v_full = None, v_next = 2\<rparr>"
    by (simp add: sent_view_def new_view_def)
  have "conn_fits (conn_of_id 5)" "list_all opt_fits ?opts" by (simp_all add: conn_fits_def conn_of_id_def)
  from sends_take_effect [OF btref.bt_laws_axioms this, where request = "Some (7, ''tag'')" and s = ?s and s' = s' and msg = msg and t = s'
      and cmd = "''cat.cmd''" and e = example_env and zmq_bind = "\<lambda>_. True" and zmq_add = "\<lambda>_. 1" and garbage = 0 and route = "''r''"]
  show ?thesis using c n v
    by (simp add: Let_def send_spec_def sent_addresses_def conn_of_id_def conn_sn_def SN_ID_def with_default_def conn_of_def)
qed

end
