(* ===== verification/Control_Calls.thy ===== *)
theory Control_Calls
  imports Control_Effect
begin

text \<open>
  The other calls from the caller to the proxy: connections, service nodes, timers, listeners and jobs, with the arguments for
  which the message is handled as the caller means it, and those for which it is not.
\<close>

section \<open>Options of a connection\<close>

record connect_view =
  cv_auth :: "int option"
  cv_ephemeral :: "bool option"
  cv_hint :: "string option"
  cv_keep_alive :: "int option"
  cv_timeout :: "int option"

fun view_connect :: "bool \<Rightarrow> connect_opt \<Rightarrow> connect_view \<Rightarrow> connect_view" where
  "view_connect remote (co_auth a) v = (if remote then v\<lparr>cv_auth := Some (auth_val a)\<rparr> else v)"
| "view_connect remote (co_ephemeral_routing_id b) v = v\<lparr>cv_ephemeral := Some b\<rparr>"
| "view_connect remote (co_timeout t) v = (if remote then v\<lparr>cv_timeout := Some t\<rparr> else v)"
| "view_connect remote (co_keep_alive t) v = (if remote \<or> t < 0 then v else v\<lparr>cv_keep_alive := Some t\<rparr>)"
| "view_connect remote (co_hint h) v = (if remote \<or> h = [] then v else v\<lparr>cv_hint := Some h\<rparr>)"
| "view_connect remote (co_time t) v = (if remote then v\<lparr>cv_timeout := Some t\<rparr> else v\<lparr>cv_keep_alive := Some t\<rparr>)"
| "view_connect remote (co_string h) v = (if remote then v else v\<lparr>cv_hint := Some h\<rparr>)"

definition connect_map :: "connect_view \<Rightarrow> string \<Rightarrow> bt_value option" where
  "connect_map v =
     Map.empty(''auth_level'' := map_option bt_int (cv_auth v), ''ephemeral_rid'' := map_option bt_bool (cv_ephemeral v),
       ''hint'' := map_option bt_str (cv_hint v), ''keep_alive'' := map_option bt_int (cv_keep_alive v),
       ''timeout'' := map_option bt_int (cv_timeout v))"

definition remote_view :: connect_view where
  "remote_view = \<lparr>cv_auth = None, cv_ephemeral = None, cv_hint = None, cv_keep_alive = None, cv_timeout = None\<rparr>"

definition inproc_view :: connect_view where
  "inproc_view = remote_view\<lparr>cv_auth := Some (auth_val auth_admin), cv_timeout := Some 50\<rparr>"

definition sn_view :: "bool \<Rightarrow> connect_view" where
  "sn_view ephemeral = remote_view\<lparr>cv_ephemeral := Some ephemeral, cv_keep_alive := Some 300000000\<rparr>"

text \<open>Times that the proxy can read: the options that are sent as they are must not be negative.\<close>

fun connect_fits :: "connect_opt \<Rightarrow> bool" where
  "connect_fits (co_auth a) \<longleftrightarrow> - (2 ^ 31) \<le> auth_val a \<and> auth_val a < 2 ^ 31"
| "connect_fits (co_timeout t) \<longleftrightarrow> 0 \<le> t \<and> t < 2 ^ 63"
| "connect_fits (co_keep_alive t) \<longleftrightarrow> t < 2 ^ 63"
| "connect_fits (co_time t) \<longleftrightarrow> 0 \<le> t \<and> t < 2 ^ 63"
| "connect_fits _ \<longleftrightarrow> True"

definition view_fits :: "connect_view \<Rightarrow> bool" where
  "view_fits v \<longleftrightarrow>
     (\<forall>a. cv_auth v = Some a \<longrightarrow> - (2 ^ 31) \<le> a \<and> a < 2 ^ 31) \<and> (\<forall>t. cv_keep_alive v = Some t \<longrightarrow> 0 \<le> t \<and> t < 2 ^ 63)
     \<and> (\<forall>t. cv_timeout v = Some t \<longrightarrow> 0 \<le> t \<and> t < 2 ^ 63)"

lemma connect_option_map:
  assumes "dict_ok opts" "map_of opts = connect_map v"
  shows "dict_ok (apply_connect_option remote opt opts)" "map_of (apply_connect_option remote opt opts) = connect_map (view_connect remote opt v)"
  using assms by (cases opt; auto simp: connect_map_def fun_upd_twist)+

lemma connect_options_map:
  assumes "dict_ok opts" "map_of opts = connect_map v"
  shows "dict_ok (fold (apply_connect_option remote) options opts)
    \<and> map_of (fold (apply_connect_option remote) options opts) = connect_map (fold (view_connect remote) options v)"
  using assms
proof (induction options arbitrary: opts v)
  case (Cons opt options)
  then show ?case using connect_option_map [OF Cons.prems, of remote opt] by simp
qed simp

lemma view_fits_option: "view_fits v \<Longrightarrow> connect_fits opt \<Longrightarrow> view_fits (view_connect remote opt v)"
  by (cases opt) (auto simp: view_fits_def)

lemma view_fits_options: "view_fits v \<Longrightarrow> list_all connect_fits options \<Longrightarrow> view_fits (fold (view_connect remote) options v)"
  by (induction options arbitrary: v) (auto simp: view_fits_option)

text \<open>The entries that \<^verbatim>\<open>connect_remote\<close> adds to its options.\<close>

definition remote_map :: "connect_view \<Rightarrow> int \<Rightarrow> nat \<Rightarrow> string option \<Rightarrow> string \<Rightarrow> string \<Rightarrow> bt_value option" where
  "remote_map v i p key remote =
     (connect_map v)(''conn_id'' \<mapsto> bt_int i, ''connect'' \<mapsto> bt_int (int p), ''failure'' \<mapsto> bt_int (int p + 1),
       ''pubkey'' := map_option bt_str key, ''remote'' \<mapsto> bt_str remote)"

lemma remote_keys:
  assumes "map_of m = remote_map v i p key remote"
  shows "map_of m ''auth_level'' = map_option bt_int (cv_auth v)" "map_of m ''conn_id'' = map_option bt_int (Some i)"
    and "map_of m ''connect'' = map_option (\<lambda>(p, f). bt_int (int p)) (Some (p, f))"
    and "map_of m ''ephemeral_rid'' = map_option (\<lambda>b. bt_int (of_bool b)) (cv_ephemeral v)"
    and "map_of m ''failure'' = map_option (\<lambda>(p, f). bt_int (int p)) (Some (Suc p, f))"
    and "map_of m ''pubkey'' = map_option bt_str key" "map_of m ''remote'' = map_option bt_str (Some remote)"
    and "map_of m ''timeout'' = map_option bt_int (cv_timeout v)"
  unfolding assms by (force simp: remote_map_def connect_map_def bt_bool_def [abs_def] add.commute)+

lemma with_default_simps [simp]: "with_default x None = x" "with_default x (Some y) = y"
  by (simp_all add: with_default_def)

lemma EPHEMERAL_free [simp]: "EPHEMERAL_ROUTING_ID (free_objs A s) = EPHEMERAL_ROUTING_ID s"
  by (simp add: free_objs_def)

context bt_laws
begin

lemma reads_connect_remote:
  assumes m: "dict_ok m" "map_of m = remote_map v i p key remote" and auth: "\<And>a. cv_auth v = Some a \<Longrightarrow> - (2 ^ 31) \<le> a \<and> a < 2 ^ 31"
    and i: "- (2 ^ 63) \<le> i" "i < 2 ^ 63" and p: "Suc p < 2 ^ 64" "objs t p = Some (shared_callback f)" "objs t (Suc p) = Some (shared_callback g)"
  shows "\<exists>d. reads d m ''remote'' \<and> handle_connect_remote L e (bt_serialize L (bt_dict m)) t =
      bindO (of_res (opt_u64 L ''timeout'' d)) (\<lambda>(timeout, d).
        if i = -1 \<or> remote = [] then
          threw (runtime_error ''Internal error: CONNECT_REMOTE proxy command missing required 'conn_id' and/or 'remote' value'')
        else finished (proxy_connect_remote e i remote (with_default [] key) (with_default auth_none (map_option AuthLevel (cv_auth v))) f g
          (with_default 10000 timeout) (with_default (EPHEMERAL_ROUTING_ID t) (cv_ephemeral v)) (free_objs {p, Suc p} t)))"
proof -
  note keys = remote_keys [OF m(2)]
  obtain d0 where 0: "dict_consumer L (bt_serialize L (bt_dict m)) = Inr d0" "reads d0 m []" using reads_open [OF m(1)] by blast
  obtain d1 where 1: "opt_int L ''auth_level'' d0 = Inr (cv_auth v, d1)" "reads d1 m ''auth_level''"
    using reads_opt_integer [OF 0(2) _ keys(1), of "- (2 ^ 31)" "2 ^ 31 - 1"] auth by (force simp: opt_int_def)
  obtain d2 where 2: "opt_long L ''conn_id'' d1 = Inr (Some i, d2)" "reads d2 m ''conn_id''" using reads_opt_long [OF 1(2) _ keys(2)] i by auto
  obtain d3 where 3: "opt_callback L ''connect'' d2 t = finished (Some f, d3, free_objs {p} t)" "reads d3 m ''connect''"
    using reads_callback [OF 2(2) _ keys(3) [where f = f], of t] p by auto
  obtain d4 where 4: "opt_bool L ''ephemeral_rid'' d3 = Inr (cv_ephemeral v, d4)" "reads d4 m ''ephemeral_rid''"
    using reads_opt_bool [OF 3(2) _ keys(4)] by auto
  obtain d5 where 5: "opt_callback L ''failure'' d4 (free_objs {p} t) = finished (Some g, d5, free_objs {p, Suc p} t)" "reads d5 m ''failure''"
    using reads_callback [OF 4(2) _ keys(5) [where f = g], of "free_objs {p} t"] p by (auto simp: insert_commute)
  obtain d6 where 6: "opt_string L ''pubkey'' d5 = Inr (key, d6)" "reads d6 m ''pubkey''" using reads_opt_string [OF 5(2) _ keys(6)] by auto
  obtain d7 where 7: "opt_string L ''remote'' d6 = Inr (Some remote, d7)" "reads d7 m ''remote''" using reads_opt_string [OF 6(2) _ keys(7)] by auto
  show ?thesis using 0 1 2 3 4 5 6 7 by (intro exI [of _ d7]) (simp add: handle_connect_remote_def cong: if_cong)
qed

lemma reads_connect_sn:
  assumes m: "dict_ok m" "map_of m = (connect_map v)(''pubkey'' \<mapsto> bt_str key)"
    and v: "view_fits v" "cv_keep_alive v \<noteq> None" "cv_auth v = None" "cv_timeout v = None"
  shows "handle_connect_sn L e g (bt_serialize L (bt_dict m)) t =
    finished (snd (proxy_connect_sn e key (with_default [] (cv_hint v)) False False False
      (with_default (EPHEMERAL_ROUTING_ID t) (cv_ephemeral v)) (the (cv_keep_alive v)) t))"
proof -
  have keys: "map_of m ''ephemeral_rid'' = map_option (\<lambda>b. bt_int (of_bool b)) (cv_ephemeral v)" "map_of m ''hint'' = map_option bt_str (cv_hint v)"
    "map_of m ''incoming'' = map_option (\<lambda>b. bt_int (of_bool b)) None" "map_of m ''keep_alive'' = map_option bt_int (cv_keep_alive v)"
    "map_of m ''optional'' = map_option (\<lambda>b. bt_int (of_bool b)) None" "map_of m ''outgoing_only'' = map_option (\<lambda>b. bt_int (of_bool b)) None"
    "map_of m ''pubkey'' = map_option bt_str (Some key)"
    unfolding m(2) by (auto simp: connect_map_def bt_bool_def [abs_def])
  obtain d0 where 0: "dict_consumer L (bt_serialize L (bt_dict m)) = Inr d0" "reads d0 m []" using reads_open [OF m(1)] by blast
  obtain d1 where 1: "opt_bool L ''ephemeral_rid'' d0 = Inr (cv_ephemeral v, d1)" "reads d1 m ''ephemeral_rid''"
    using reads_opt_bool [OF 0(2) _ keys(1)] by auto
  obtain d2 where 2: "opt_string L ''hint'' d1 = Inr (cv_hint v, d2)" "reads d2 m ''hint''" using reads_opt_string [OF 1(2) _ keys(2)] by auto
  obtain d3 where 3: "opt_bool L ''incoming'' d2 = Inr (None, d3)" "reads d3 m ''incoming''" using reads_opt_bool [OF 2(2) _ keys(3)] by auto
  obtain d4 where 4: "opt_u64 L ''keep_alive'' d3 = Inr (cv_keep_alive v, d4)" "reads d4 m ''keep_alive''"
    using reads_opt_u64 [OF 3(2) _ keys(4)] v(1) by (force simp: view_fits_def)
  obtain d5 where 5: "opt_bool L ''optional'' d4 = Inr (None, d5)" "reads d5 m ''optional''" using reads_opt_bool [OF 4(2) _ keys(5)] by auto
  obtain d6 where 6: "opt_bool L ''outgoing_only'' d5 = Inr (None, d6)" "reads d6 m ''outgoing_only''" using reads_opt_bool [OF 5(2) _ keys(6)] by auto
  obtain d7 where 7: "opt_string L ''pubkey'' d6 = Inr (Some key, d7)" using reads_opt_string [OF 6(2) _ keys(7)] by auto
  show ?thesis using 0 1 2 3 4 5 6 7 v(2) by (auto simp: handle_connect_sn_def with_default_def)
qed

end

lemma connect_message_map:
  assumes "connect_message L opts f g key remote s = (c, msg, s')" "dict_ok opts" "map_of opts = connect_map v"
  shows "\<exists>m. msg = send_control ''CONNECT_REMOTE'' (bt_serialize L (bt_dict m)) \<and> dict_ok m
    \<and> map_of m = remote_map v (next_conn_id s) (next_obj s) key remote"
    and "c = conn_of_id (next_conn_id s)" "next_conn_id s' = next_conn_id s + 1" "next_obj s' = next_obj s + 2"
    and "objs s' = (objs s)(next_obj s \<mapsto> shared_callback f, Suc (next_obj s) \<mapsto> shared_callback g)"
proof -
  define m where "m = dict_set ''remote'' (bt_str remote) ((case key of Some k \<Rightarrow> dict_set ''pubkey'' (bt_str k) | None \<Rightarrow> (\<lambda>x. x))
    (dict_set ''failure'' (bt_int (int (next_obj s) + 1)) (dict_set ''connect'' (bt_int (int (next_obj s))) (dict_set ''conn_id'' (bt_int (next_conn_id s)) opts))))"
  have "dict_ok m" using assms(2) by (auto simp: m_def split: option.split)
  moreover have "map_of m = remote_map v (next_conn_id s) (next_obj s) key remote"
    using assms(2,3) by (cases key) (auto simp: m_def remote_map_def connect_map_def fun_eq_iff)
  moreover have "msg = send_control ''CONNECT_REMOTE'' (bt_serialize L (bt_dict m))"
    using assms(1) by (cases key) (auto simp: connect_message_def serialize_object_def Let_def m_def add.commute)
  ultimately show "\<exists>m. msg = send_control ''CONNECT_REMOTE'' (bt_serialize L (bt_dict m)) \<and> dict_ok m
    \<and> map_of m = remote_map v (next_conn_id s) (next_obj s) key remote" by blast
qed (use assms(1) in \<open>auto simp: connect_message_def serialize_object_def Let_def\<close>)

lemma connect_map_empty: "map_of [] = connect_map remote_view"
  by (auto simp: connect_map_def remote_view_def fun_eq_iff)

lemma zmq_address_not_Nil [simp]: "zmq_address a \<noteq> []"
  by (simp add: zmq_address_def)

lemma control_commands:
  assumes "data \<noteq> []"
  shows "proxy_control_message L e zb za g (route # send_control ''CONNECT_REMOTE'' data) t = handle_connect_remote L e data t"
    and "proxy_control_message L e zb za g (route # send_control ''CONNECT_SN'' data) t = handle_connect_sn L e g data t"
    and "proxy_control_message L e zb za g (route # send_control ''TIMER'' data) t = handle_timer L za data t"
  using assms by (simp_all add: proxy_control_message_def send_control_def)


definition remote_example :: address where
  "remote_example = default_address\<lparr>host := ''localhost'', port := 4567\<rparr>"



lemma disconnect_effect:
  assumes laws: "bt_laws L dict_at list_at" and "conn_fits c" "- (2 ^ 63) \<le> linger" "linger < 2 ^ 63" "conn_sn c \<Longrightarrow> length (cid_pk c) = 32"
  shows "proxy_control_message L e zb za g (route # disconnect L c linger) t = finished (proxy_disconnect (conn_of (cid c) (cid_pk c) []) t)"
proof -
  let ?m = "dict_set ''pubkey'' (bt_str (cid_pk c)) (dict_set ''linger_ms'' (bt_int linger) (dict_set ''conn_id'' (bt_int (cid c)) []))"
  have m: "dict_ok ?m" by (intro dict_ok_set dict_ok_Nil)
  obtain d0 where 0: "dict_consumer L (bt_serialize L (bt_dict ?m)) = Inr d0" "bt_laws.reads dict_at d0 ?m []" using bt_laws.reads_open [OF laws m] by blast
  obtain d1 where 1: "opt_long L ''conn_id'' d0 = Inr (Some (cid c), d1)" "bt_laws.reads dict_at d1 ?m ''conn_id''"
    using bt_laws.reads_opt_long [OF laws 0(2), of "''conn_id''" "Some (cid c)"] assms(2) by (auto simp: conn_fits_def)
  obtain d2 where 2: "opt_long L ''linger_ms'' d1 = Inr (Some linger, d2)" "bt_laws.reads dict_at d2 ?m ''linger_ms''"
    using bt_laws.reads_opt_long [OF laws 1(2), of "''linger_ms''" "Some linger"] assms(3,4) by auto
  obtain d3 where 3: "opt_string L ''pubkey'' d2 = Inr (Some (cid_pk c), d3)"
    using bt_laws.reads_opt_string [OF laws 2(2), of "''pubkey''" "Some (cid_pk c)"] by auto
  have "conn_sn (conn_of (cid c) (cid_pk c) []) \<longleftrightarrow> conn_sn c" "cid_pk (conn_of (cid c) (cid_pk c) []) = cid_pk c"
    by (simp_all add: conn_sn_def conn_of_def)
  then have "handle_disconnect L (bt_serialize L (bt_dict ?m)) t = finished (proxy_disconnect (conn_of (cid c) (cid_pk c) []) t)"
    using 0(1) 1(1) 2(1) 3 assms(5) unfolding handle_disconnect_def by (auto simp: Let_def)
  then show ?thesis using bt_laws.not_empty [OF laws] by (simp add: disconnect_def proxy_control_message_def send_control_def)
qed


section \<open>Arguments that the proxy does not take as meant\<close>

lemma connect_sn_effect:
  assumes laws: "bt_laws L dict_at list_at" and fits: "list_all connect_fits options"
  shows "let v = fold (view_connect False) options (sn_view (EPHEMERAL_ROUTING_ID s))
    in proxy_control_message L e zb za g (route # snd (connect_sn L key options s)) t =
      finished (snd (proxy_connect_sn e key (with_default [] (cv_hint v)) False False False
        (with_default (EPHEMERAL_ROUTING_ID t) (cv_ephemeral v)) (the (cv_keep_alive v)) t))"
proof -
  let ?o = "dict_set ''ephemeral_rid'' (bt_bool (EPHEMERAL_ROUTING_ID s)) (dict_set ''keep_alive'' (bt_int (5 * 60 * 1000000)) [])"
  let ?v = "fold (view_connect False) options (sn_view (EPHEMERAL_ROUTING_ID s))"
  have "dict_ok ?o" by (intro dict_ok_set dict_ok_Nil)
  moreover have "map_of ?o = connect_map (sn_view (EPHEMERAL_ROUTING_ID s))"
    by (auto simp: connect_map_def sn_view_def remote_view_def fun_eq_iff)
  ultimately have "dict_ok (fold (apply_connect_option False) options ?o)
      \<and> map_of (fold (apply_connect_option False) options ?o) = connect_map ?v" by (rule connect_options_map)
  then have o: "dict_ok (dict_set ''pubkey'' (bt_str key) (fold (apply_connect_option False) options ?o))"
    "map_of (dict_set ''pubkey'' (bt_str key) (fold (apply_connect_option False) options ?o)) = (connect_map ?v)(''pubkey'' \<mapsto> bt_str key)" by auto
  have "cv_keep_alive (view_connect False opt v) \<noteq> None \<and> cv_auth (view_connect False opt v) = None \<and> cv_timeout (view_connect False opt v) = None"
    if "cv_keep_alive v \<noteq> None" "cv_auth v = None" "cv_timeout v = None" for opt v using that by (cases opt) auto
  then have kept: "cv_keep_alive v \<noteq> None \<and> cv_auth v = None \<and> cv_timeout v = None \<Longrightarrow>
      cv_keep_alive (fold (view_connect False) options v) \<noteq> None \<and> cv_auth (fold (view_connect False) options v) = None
      \<and> cv_timeout (fold (view_connect False) options v) = None" for v
    by (induction options arbitrary: v) auto
  have "view_fits ?v" by (rule view_fits_options [OF _ fits]) (simp add: view_fits_def sn_view_def remote_view_def)
  moreover have "cv_keep_alive ?v \<noteq> None" "cv_auth ?v = None" "cv_timeout ?v = None"
    using kept [of "sn_view (EPHEMERAL_ROUTING_ID s)"] by (auto simp: sn_view_def remote_view_def)
  ultimately show ?thesis using bt_laws.reads_connect_sn [OF laws o, of e g t] bt_laws.not_empty [OF laws]
    by (simp add: connect_sn_def Let_def control_commands)
qed

text \<open>C35: A call of \<^verbatim>\<open>connect_sn\<close> without options opens a connection that is kept alive for a thousand times the documented five minutes: the
  default is sent in microseconds and read in milliseconds.
\<close>

theorem connect_sn_default_keep_alive:
  assumes "bt_laws L dict_at list_at" "length key = 32" "list_all (\<lambda>kp. \<not> conn_eq (fst kp) (conn_of SN_ID key [])) (peers t)"
    and "sn_lookup e key \<noteq> []" "zmq_connect e (sn_lookup e key) key (EPHEMERAL_ROUTING_ID s) = None"
  shows "\<exists>u p. proxy_control_message L e zmq_bind zmq_add garbage (route # snd (connect_sn L key [] s)) t = finished u
    \<and> (conn_of SN_ID key [], p) \<in> set (peers u) \<and> pi_idle_expiry p = 1000 * (5 * 60 * 1000)"
proof -
  have "List.find (sn_peer_ok (conn_of SN_ID key []) False False) (peers t) = None"
    using assms(3) by (auto simp: find_None_iff list_all_iff sn_peer_ok_def)
  moreover have "(c, p) \<in> set (mm_emplace eq c p m)" for eq :: "connection_id \<Rightarrow> connection_id \<Rightarrow> bool" and c p and m :: peer_map
    by (induction m) auto
  ultimately show ?thesis using connect_sn_effect [OF assms(1), of "[]"] assms(2,4,5)
    by (fastforce simp: Let_def sn_view_def remote_view_def proxy_connect_sn_def conn_of_pubkey_def)
qed

theorem connect_sn_default_keep_alive_witness:
  "\<exists>u p. proxy_control_message bt_ref example_env (\<lambda>_. True) (\<lambda>_. 1) 0
      (''r'' # snd (connect_sn bt_ref (replicate 32 CHR ''k'') [] (control_init 2 False []))) (control_init 2 False []) = finished u
    \<and> (conn_of SN_ID (replicate 32 CHR ''k'') [], p) \<in> set (peers u) \<and> pi_idle_expiry p = 1000 * (5 * 60 * 1000)"
  by (rule connect_sn_default_keep_alive [OF btref.bt_laws_axioms]) (simp_all add: example_env_def)

text \<open>C36: A negative time of \<^verbatim>\<open>connect_option::timeout\<close> or of a timer makes the proxy thread throw, and a service-node key that does not have 32 bytes, for
  which \<^verbatim>\<open>connect_sn\<close> throws in the caller, has by then been sent to the proxy and makes it throw as well.
\<close>

theorem bad_arguments_kill_proxy:
  assumes laws: "bt_laws L dict_at list_at" and bad: "- (2 ^ 63) \<le> time" "time < 0" "length key \<noteq> 32"
    and room: "0 < next_conn_id s" "next_conn_id s < 2 ^ 63" "next_obj s + 2 \<le> 2 ^ 64" "0 < next_timer_id s" "next_timer_id s < 2 ^ 31" "started s"
    and connect: "connect_remote L a f g [co_timeout time] s = (c, msg, s')" "\<And>p. next_obj s \<le> p \<Longrightarrow> p < next_obj s' \<Longrightarrow> objs t p = objs s' p"
    and timer: "add_timer L zmq_add f time squelch None s = Inr (i, Some tmsg, s'')" "\<And>p. next_obj s \<le> p \<Longrightarrow> p < next_obj s'' \<Longrightarrow> objs t p = objs s'' p"
  shows "(\<exists>x. proxy_control_message L e zmq_bind zmq_add garbage (route # msg) t = threw x)
    \<and> (\<exists>x. proxy_control_message L e zmq_bind zmq_add garbage (route # tmsg) t = threw x)
    \<and> (\<exists>x. fst (connect_sn L key [] s) = Inl x)
    \<and> (\<exists>u. proxy_control_message L e zmq_bind zmq_add garbage (route # snd (connect_sn L key [] s)) t = finished u \<and> proxy_died u)"
proof (intro conjI)
  let ?v = "fold (view_connect True) [co_timeout time] remote_view" and ?key = "if addr_curve a then Some (pubkey a) else None"
  have opts: "dict_ok (fold (apply_connect_option True) [co_timeout time] [])"
    "map_of (fold (apply_connect_option True) [co_timeout time] []) = connect_map ?v"
    using connect_options_map [OF dict_ok_Nil connect_map_empty] by blast+
  note msg = connect_message_map [OF connect(1) [unfolded connect_remote_def] opts]
  obtain m where m: "msg = send_control ''CONNECT_REMOTE'' (bt_serialize L (bt_dict m))" "dict_ok m"
      "map_of m = remote_map ?v (next_conn_id s) (next_obj s) ?key (zmq_address a)" using msg(1) by blast
  have "objs t (next_obj s) = Some (shared_callback f)" "objs t (Suc (next_obj s)) = Some (shared_callback g)"
    using connect(2) [of "next_obj s"] connect(2) [of "Suc (next_obj s)"] msg(4,5) by simp_all
  from bt_laws.reads_connect_remote [OF laws m(2,3) _ _ room(2) _ this, of e] room obtain d h where d: "bt_laws.reads dict_at d m ''remote''"
      "handle_connect_remote L e (bt_serialize L (bt_dict m)) t = bindO (of_res (opt_u64 L ''timeout'' d)) h"
    by (auto simp: remote_view_def)
  have "\<exists>x. opt_u64 L ''timeout'' d = Inl x"
    unfolding opt_u64_def using bt_laws.reads_integer(2) [OF laws d(1), of "''timeout''" time 0] remote_keys(8) [OF m(3)] bad(2) by auto
  then show "\<exists>x. proxy_control_message L e zmq_bind zmq_add garbage (route # msg) t = threw x"
    using d(2) m(1) bt_laws.not_empty [OF laws] by (auto simp: control_commands)
next
  let ?i = "next_timer_id s" and ?p = "int (next_obj s)"
  have tm: "tmsg = send_control ''TIMER'' (bt_serialize L (bt_list [bt_int ?i, bt_int ?p, bt_int time, bt_bool squelch, bt_int 0]))"
    "next_obj s'' = Suc (next_obj s)" "objs s'' (next_obj s) = Some (shared_callback f)"
    using timer(1) room(6) by (auto simp: add_timer_def serialize_object_def Let_def)
  obtain l0 where l0: "list_consumer L (bt_serialize L (bt_list [bt_int ?i, bt_int ?p, bt_int time, bt_bool squelch, bt_int 0])) = Inr l0"
      "list_at l0 [bt_int ?i, bt_int ?p, bt_int time, bt_bool squelch, bt_int 0]" using bt_laws.open_list [OF laws] by blast
  obtain l1 where l1: "list_integer L (- (2 ^ 31)) (2 ^ 31 - 1) l0 = Inr (?i, l1)" "list_at l1 [bt_int ?p, bt_int time, bt_bool squelch, bt_int 0]"
    using bt_laws.item_in_range [OF laws l0(2), of "- (2 ^ 31)" "2 ^ 31 - 1"] room(4,5) by auto
  obtain l2 where l2: "list_integer L 0 (2 ^ 64 - 1) l1 = Inr (?p, l2)" "list_at l2 [bt_int time, bt_bool squelch, bt_int 0]"
    using bt_laws.item_in_range [OF laws l1(2), of 0 "2 ^ 64 - 1"] room(3) by auto
  obtain x where "list_integer L 0 (2 ^ 64 - 1) l2 = Inl x" using bt_laws.item_off_range [OF laws l2(2), of 0 "2 ^ 64 - 1"] bad(2) by auto
  moreover have "objs t (next_obj s) = Some (shared_callback f)" using timer(2) [of "next_obj s"] tm by simp
  ultimately show "\<exists>x. proxy_control_message L e zmq_bind zmq_add garbage (route # tmsg) t = threw x"
    using tm(1) l0(1) l1(1) l2(1) bt_laws.not_empty [OF laws]
    by (auto simp: control_commands handle_timer_def deserialize_callback_def deserialize_object_def as_callback_def)
next
  show "\<exists>x. fst (connect_sn L key [] s) = Inl x" using bad(3) by (simp add: connect_sn_def conn_of_pubkey_def Let_def)
  show "\<exists>u. proxy_control_message L e zmq_bind zmq_add garbage (route # snd (connect_sn L key [] s)) t = finished u \<and> proxy_died u"
  proof -
    have "proxy_died (snd (proxy_connect_sn e key h False False False b k t))" for h b k
      using bad(3) by (simp add: proxy_connect_sn_def conn_of_pubkey_def)
    then show ?thesis using connect_sn_effect [OF laws, of "[]" s e zmq_bind zmq_add garbage route key t] by (simp add: Let_def)
  qed
qed

theorem bad_arguments_kill_proxy_witness:
  "let s = (control_init 2 False [])\<lparr>started := True\<rparr>;
       msg = fst (snd (connect_remote bt_ref remote_example 4 5 [co_timeout (-1)] s));
       t = snd (snd (connect_remote bt_ref remote_example 4 5 [co_timeout (-1)] s))
   in (\<exists>x. proxy_control_message bt_ref example_env (\<lambda>_. True) (\<lambda>_. 1) 0 (''r'' # msg) t = threw x)
      \<and> (\<exists>x. fst (connect_sn bt_ref ''short'' [] s) = Inl x)
      \<and> (\<exists>u. proxy_control_message bt_ref example_env (\<lambda>_. True) (\<lambda>_. 1) 0 (''r'' # snd (connect_sn bt_ref ''short'' [] s)) t = finished u \<and> proxy_died u)"
proof -
  let ?s = "(control_init 2 False [])\<lparr>started := True\<rparr>"
  obtain c msg t where call: "connect_remote bt_ref remote_example 4 5 [co_timeout (-1)] ?s = (c, msg, t)" by (metis prod_cases3)
  obtain i tmsg u where timer: "add_timer bt_ref (\<lambda>_. 1) 4 (-1) True None ?s = Inr (i, Some tmsg, u)"
    by (simp add: add_timer_def serialize_object_def Let_def)
  have "objs t 1 = objs u 1" "next_obj u = 2"
    using call timer by (auto simp: connect_remote_def connect_message_def add_timer_def serialize_object_def Let_def)
  then have later: "objs t p = objs u p" if "next_obj ?s \<le> p" "p < next_obj u" for p using that by (cases "p = 1") auto
  show ?thesis using bad_arguments_kill_proxy [OF btref.bt_laws_axioms _ _ _ _ _ _ _ _ _ call _ timer later, where key = "''short''"
      and e = example_env and zmq_bind = "\<lambda>_. True" and garbage = 0 and route = "''r''"] call
    by simp
qed

end
