(* ===== verification/Proxy_Loop.thy ===== *)
theory Proxy_Loop
  imports Control_Calls
begin

text \<open>
  The loop of the proxy thread, \<^verbatim>\<open>proxy_loop\<close> of \<^verbatim>\<open>proxy.cpp\<close>: what one iteration does with the messages that are waiting, and the
  circular queue by which it takes incoming messages from its connections in turn.
\<close>

section \<open>Incoming messages\<close>

text \<open>
  The messages that can be received from each connection without waiting are a function. Each entry of the queue is a pointer to an
  element of \<^verbatim>\<open>connections\<close>, named by the connection's identifier, or null; following a null pointer or one to an erased element is undefined.
\<close>

type_synonym inbox = "int \<Rightarrow> wire_msg list"

definition handle_incoming :: "oxenc \<Rightarrow> env \<Rightarrow> int \<Rightarrow> wire_msg \<Rightarrow> 'a net_scheme \<Rightarrow> 'a net_scheme" where
  "handle_incoming oc e conn_id m s =
     (let (handled, s) = proxy_handle_builtin e conn_id (wm_parts m) s
      in if handled then s else proxy_to_worker oc e conn_id m s)"

definition circ_next :: "nat \<Rightarrow> 'b list \<Rightarrow> nat" where
  "circ_next i queue = (i + 1) mod length queue"

partial_function (option) incoming_loop :: "oxenc \<Rightarrow> env \<Rightarrow> int option list \<Rightarrow> nat \<Rightarrow> nat \<Rightarrow> inbox \<Rightarrow> 'a net_scheme \<Rightarrow>
    'a net_scheme outcome option" where
  "incoming_loop oc e queue pos stop inbox s =
     (if pos = stop then Some (finished s)
      else (case queue ! pos of
              None \<Rightarrow> Some stuck
            | Some c \<Rightarrow>
                if map_of (connections s) c = None then Some stuck
                else (case inbox c of
                        [] \<Rightarrow> incoming_loop oc e queue (circ_next pos queue) stop inbox s
                      | m # mr \<Rightarrow>
                          (let queue = queue[stop := queue ! pos]; stop = circ_next stop queue; inbox = inbox(c := mr)
                           in if wm_parts m = [] then incoming_loop oc e queue (circ_next pos queue) stop inbox s
                              else (let s = handle_incoming oc e c m s
                                    in if connections_updated s then Some (finished s)
                                       else incoming_loop oc e queue (circ_next pos queue) stop inbox s)))))"

text \<open>
  The specification: one message of each connection per round, in the order of the queue, until there are no more or
  the connections change.
\<close>

definition round_of :: "int list \<Rightarrow> inbox \<Rightarrow> nat \<Rightarrow> (int \<times> wire_msg) list" where
  "round_of q inbox r = map (\<lambda>c. (c, inbox c ! r)) (filter (\<lambda>c. r < length (inbox c)) q)"

definition rounds :: "int list \<Rightarrow> inbox \<Rightarrow> (int \<times> wire_msg) list" where
  "rounds q inbox = concat (map (round_of q inbox) [0..<Max (insert 0 (length ` inbox ` set q))])"

fun handle_all :: "oxenc \<Rightarrow> env \<Rightarrow> (int \<times> wire_msg) list \<Rightarrow> 'a net_scheme \<Rightarrow> 'a net_scheme" where
  "handle_all oc e [] s = s"
| "handle_all oc e ((c, m) # mr) s =
     (if wm_parts m = [] then handle_all oc e mr s
      else (let s = handle_incoming oc e c m s in if connections_updated s then s else handle_all oc e mr s))"


section \<open>One iteration\<close>

text \<open>
  What an iteration finds: the events of \<^verbatim>\<open>epoll_wait\<close> (the command and worker sockets, the connections), the messages on the command and worker
  sockets, the timers that have expired and the messages of the connections. The requests of the ZAP socket do not change the
  state. Afterwards some socket may still be ready. The flag of the result says whether the loop goes on.
\<close>

datatype timer_event = conn_check | user_timer int

record loop_input =
  in_command_event :: bool
  in_worker_event :: bool
  in_events :: "int list"
  in_control :: "string list list"
  in_workers :: "string list list"
  in_timers :: "timer_event list"
  in_messages :: inbox
  in_still_ready :: bool

record handlers =
  hd_oxenc :: oxenc
  hd_env :: env
  hd_bind :: "string \<Rightarrow> bool"
  hd_timer_add :: "int \<Rightarrow> int"
  hd_garbage :: int

fun control_messages :: "('d, 'l) bt_lib \<Rightarrow> handlers \<Rightarrow> string list list \<Rightarrow> 'a control_scheme \<Rightarrow> 'a control_scheme outcome" where
  "control_messages L h [] s = finished s"
| "control_messages L h (parts # msgs) s =
     bindO (proxy_control_message L (hd_env h) (hd_bind h) (hd_timer_add h) (hd_garbage h) parts s) (control_messages L h msgs)"

definition run_timer :: "env \<Rightarrow> timer_event \<Rightarrow> 'a omq_scheme \<Rightarrow> 'a omq_scheme" where
  "run_timer e t s = (case t of conn_check \<Rightarrow> proxy_conn_cleanup e s | user_timer i \<Rightarrow> queue_timer_job i s)"

definition ready_connections :: "inbox \<Rightarrow> 'a net_scheme \<Rightarrow> int list" where
  "ready_connections inbox s = map fst (filter (\<lambda>c. inbox (fst c) \<noteq> []) (connections s))"

definition rebuild_pollitems :: "'a net_scheme \<Rightarrow> 'a net_scheme" where
  "rebuild_pollitems s = (if connections_updated s then s\<lparr>connections_updated := False, proxy_skip_one_poll := True\<rparr> else s)"

definition loop_iteration :: "('d, 'l) bt_lib \<Rightarrow> handlers \<Rightarrow> bool \<Rightarrow> loop_input \<Rightarrow> 'a control_scheme \<Rightarrow>
    ('a control_scheme \<times> bool) outcome option" where
  "loop_iteration L h using_epoll i s =
     (if max_workers s = 0 \<and> all_workers_gone s then Some (finished (proxy_quit s, False))
      else
        (let s = rebuild_pollitems s;
             skip = proxy_skip_one_poll s;
             s = s\<lparr>proxy_skip_one_poll := False\<rparr>;
             process_all = (\<not> using_epoll \<or> skip);
             process_command = (process_all \<or> in_command_event i);
             process_worker = (process_all \<or> in_worker_event i);
             polled = filter (\<lambda>c. map_of (connections s) c \<noteq> None) (in_events i)
         in case (if process_command then control_messages L h (in_control i) s else finished s) of
              threw x \<Rightarrow> Some (threw x)
            | stuck \<Rightarrow> Some stuck
            | finished s \<Rightarrow>
                (let s = (if process_worker then fold handle_worker_message (in_workers i) s else s);
                     s = fold (run_timer (hd_env h)) (in_timers i) s;
                     s = proxy_process_queue s;
                     q = (if process_all then ready_connections (in_messages i) s else polled)
                 in Option.bind (incoming_loop (hd_oxenc h) (hd_env h) (map Some q @ [None]) 0 (length q) (in_messages i) s) (\<lambda>r.
                      Some (bindO r (\<lambda>s. finished
                        (if using_epoll \<and> \<not> connections_updated s \<and> \<not> proxy_skip_one_poll s \<and> in_still_ready i
                         then s\<lparr>proxy_skip_one_poll := True\<rparr> else s, True)))))))"


section \<open>The circular queue\<close>

text \<open>The queue as a list, without its circular buffer, and the order in which it serves the connections.\<close>

function fifo :: "int list \<Rightarrow> inbox \<Rightarrow> (int \<times> wire_msg) list" where
  "fifo [] inbox = []"
| "fifo (c # q) inbox = (case inbox c of [] \<Rightarrow> fifo q inbox | m # mr \<Rightarrow> (c, m) # fifo (q @ [c]) (inbox(c := mr)))"
  by pat_completeness auto

termination fifo
proof (relation "measures [\<lambda>(q, inbox). \<Sum>c \<in> set q. length (inbox c), \<lambda>(q, inbox). length q]", goal_cases)
  case (2 c q inbox)
  then show ?case by (cases "c \<in> set q") (auto simp: insert_absorb)
next
  case (3 c q inbox m mr)
  let ?A = "set q - {c}"
  have "(\<Sum>x \<in> insert c ?A. length ((inbox(c := mr)) x)) = length mr + (\<Sum>x \<in> ?A. length (inbox x))"
    by (subst sum.insert) (auto intro: sum.cong)
  moreover have "(\<Sum>x \<in> insert c ?A. length (inbox x)) = length (inbox c) + (\<Sum>x \<in> ?A. length (inbox x))" by (subst sum.insert) auto
  moreover have "insert c ?A = insert c (set q)" by auto
  ultimately show ?case using 3 by (simp add: insert_commute)
qed simp

lemma fifo_round:
  assumes "distinct (xs @ ys)"
  shows "fifo (xs @ ys) inbox = map (\<lambda>c. (c, hd (inbox c))) (filter (\<lambda>c. inbox c \<noteq> []) xs)
    @ fifo (ys @ filter (\<lambda>c. inbox c \<noteq> []) xs) (\<lambda>c. if c \<in> set xs then tl (inbox c) else inbox c)"
  using assms
proof (induction xs arbitrary: ys inbox)
  case (Cons c xs)
  show ?case
  proof (cases "inbox c")
    case Nil
    then have "(\<lambda>d. if d \<in> set (c # xs) then tl (inbox d) else inbox d) = (\<lambda>d. if d \<in> set xs then tl (inbox d) else inbox d)" by auto
    then show ?thesis using Nil Cons.IH [of ys inbox] Cons.prems by simp
  next
    case m: (Cons m mr)
    let ?i = "inbox(c := mr)"
    have f: "filter (\<lambda>d. ?i d \<noteq> []) xs = filter (\<lambda>d. inbox d \<noteq> []) xs" using Cons.prems by (intro filter_cong) auto
    have g: "map (\<lambda>d. (d, hd (?i d))) (filter (\<lambda>d. inbox d \<noteq> []) xs) = map (\<lambda>d. (d, hd (inbox d))) (filter (\<lambda>d. inbox d \<noteq> []) xs)"
      using Cons.prems by (intro map_cong) auto
    have "(\<lambda>d. if d \<in> set xs then tl (?i d) else ?i d) = (\<lambda>d. if d \<in> set (c # xs) then tl (inbox d) else inbox d)"
      using m Cons.prems by auto
    then show ?thesis using m Cons.IH [of "ys @ [c]" ?i] Cons.prems unfolding f g by (simp add: fun_upd_def)
  qed
qed simp

lemma fifo_rounds:
  assumes "distinct q" "\<And>c. c \<in> set q \<Longrightarrow> length (inbox c) \<le> n"
  shows "fifo q inbox = concat (map (round_of q inbox) [0..<n])"
  using assms
proof (induction n arbitrary: q inbox)
  case 0
  have "fifo q inbox = []" if "\<And>c. c \<in> set q \<Longrightarrow> inbox c = []" for q using that by (induction q) auto
  then show ?case using 0 by simp
next
  case (Suc n)
  let ?q = "filter (\<lambda>c. inbox c \<noteq> []) q" and ?i = "\<lambda>c. if c \<in> set q then tl (inbox c) else inbox c"
  have "fifo q inbox = map (\<lambda>c. (c, hd (inbox c))) ?q @ fifo ?q ?i" using fifo_round [of q "[]" inbox] Suc.prems(1) by simp
  moreover have "map (\<lambda>c. (c, hd (inbox c))) ?q = round_of q inbox 0" by (auto simp: round_of_def hd_conv_nth)
  moreover have "fifo ?q ?i = concat (map (round_of ?q ?i) [0..<n])"
    by (rule Suc.IH) (use Suc.prems in \<open>auto simp: le_diff_conv\<close>)
  moreover have "map (round_of ?q ?i) [0..<n] = map (round_of q inbox \<circ> Suc) [0..<n]"
  proof (rule map_cong [OF refl])
    fix r
    have "filter (\<lambda>c. r < length (?i c)) ?q = filter (\<lambda>c. Suc r < length (inbox c)) q" by (auto simp: less_diff_conv intro!: filter_cong)
    moreover have "map (\<lambda>c. (c, ?i c ! r)) (filter (\<lambda>c. Suc r < length (inbox c)) q) = map (\<lambda>c. (c, inbox c ! Suc r)) (filter (\<lambda>c. Suc r < length (inbox c)) q)"
      by (intro map_cong) (auto simp: nth_tl)
    ultimately show "round_of ?q ?i r = (round_of q inbox \<circ> Suc) r" unfolding round_of_def by simp
  qed
  moreover have "[0..<Suc n] = 0 # map Suc [0..<n]" by (simp add: upt_conv_Cons map_Suc_upt del: upt_Suc)
  ultimately show ?case by simp
qed

lemma fifo_eq_rounds: "distinct q \<Longrightarrow> fifo q inbox = rounds q inbox"
  unfolding rounds_def by (rule fifo_rounds) auto

lemma mod_shift_inj: "(p + a) mod n = (p + b) mod n \<Longrightarrow> a < n \<Longrightarrow> b < n \<Longrightarrow> a = (b :: nat)"
proof (induction a b rule: linorder_wlog)
  case (le a b)
  then have "n dvd (p + b) - (p + a)" using mod_eq_dvd_iff_nat [of "p + a" "p + b" n] by simp
  then show ?case using le by (auto dest!: dvd_imp_le)
qed simp

definition circ :: "int option list \<Rightarrow> nat \<Rightarrow> nat \<Rightarrow> int list \<Rightarrow> bool" where
  "circ buf pos stop q \<longleftrightarrow> pos < length buf \<and> length q < length buf \<and> stop = (pos + length q) mod length buf
     \<and> (\<forall>i < length q. buf ! ((pos + i) mod length buf) = Some (q ! i))"

lemma circ_start: "circ (map Some q @ [None]) 0 (length q) q"
  by (auto simp: circ_def nth_append)

lemma circ_Nil: "circ buf pos stop [] \<Longrightarrow> pos = stop"
  by (simp add: circ_def)

lemma circ_Cons:
  assumes "circ buf pos stop (c # q)"
  shows "pos \<noteq> stop" "buf ! pos = Some c" "circ buf (circ_next pos buf) stop q"
    "circ (buf[stop := Some c]) (circ_next pos buf) (circ_next stop buf) (q @ [c])"
proof -
  let ?n = "length buf"
  have pos: "pos < ?n" "Suc (length q) < ?n" "stop = (pos + Suc (length q)) mod ?n" using assms by (auto simp: circ_def)
  have at: "buf ! ((pos + i) mod ?n) = Some ((c # q) ! i)" if "i < Suc (length q)" for i using assms that by (auto simp: circ_def)
  show "pos \<noteq> stop"
  proof
    assume "pos = stop"
    then have "(pos + 0) mod ?n = (pos + Suc (length q)) mod ?n" using pos by simp
    moreover have "0 < ?n" using pos(1) by linarith
    ultimately show False using mod_shift_inj [of pos 0 ?n "Suc (length q)"] pos(2) by blast
  qed
  show "buf ! pos = Some c" using at [of 0] pos(1) by simp
  have next_at: "(circ_next pos buf + i) mod ?n = (pos + Suc i) mod ?n" for i by (simp add: circ_next_def mod_simps)
  have n: "0 < ?n" using pos(1) by linarith
  have lt: "circ_next pos buf < ?n" "stop < ?n" unfolding circ_next_def pos(3) using n by (rule mod_less_divisor)+
  show "circ buf (circ_next pos buf) stop q" using at [of "Suc _"] pos lt unfolding circ_def next_at by auto
  have "stop \<noteq> (pos + Suc i) mod ?n" if "i < length q" for i using mod_shift_inj [of pos "Suc (length q)" ?n "Suc i"] pos that by auto
  note other = this
  show "circ (buf[stop := Some c]) (circ_next pos buf) (circ_next stop buf) (q @ [c])"
    unfolding circ_def length_list_update next_at
  proof (intro conjI allI impI)
    show "circ_next stop buf = (pos + Suc (length (q @ [c]))) mod ?n" by (simp add: circ_next_def pos(3) mod_simps)
    fix i
    assume "i < length (q @ [c])"
    then consider "i < length q" | "i = length q" by force
    then show "buf[stop := Some c] ! ((pos + Suc i) mod ?n) = Some ((q @ [c]) ! i)"
    proof cases
      case 1
      then show ?thesis using at [of "Suc i"] other [OF 1] by (simp add: nth_append)
    next
      case 2
      then show ?thesis using lt(2) pos(3) by simp
    qed
  qed (use lt pos in simp_all)
qed

lemma conns_connections: "conns_of t = conns_of s \<Longrightarrow> connections t = connections s"
  by (simp add: conns_of_def)

lemma connections_to_worker: "connections (proxy_to_worker oc e c m s) = connections s"
proof -
  have d: "connections (snd (check_and_dispatch e' c' out p route parts remote u)) = connections u" for e' c' out p route parts remote and u :: "'a net_scheme"
    by (rule conns_connections) simp
  have i: "connections (snd (snd (incoming_sender oc c m s))) = connections s"
    by (simp add: incoming_sender_def Let_def upd_peer_def split: option.split)
  show ?thesis
    by (auto simp: proxy_to_worker_def Let_def case_prod_unfold d i upd_peer_def outgoing_sender_def split: option.splits sock.splits)
qed

lemma connections_builtin:
  "connections_updated (snd (proxy_handle_builtin e c parts s)) \<or> connections (snd (proxy_handle_builtin e c parts s)) = connections s"
proof -
  have j: "connections (proxy_schedule_reply_job f s) = connections s" for f by (rule conns_connections, rule conns_of_more, rule more_schedule)
  have p: "connections (snd (send_message_parts e n c ps s)) = connections s" for n ps by (rule conns_connections) simp
  have k: "connections_updated (proxy_close_connection c s) \<or> connections (proxy_close_connection c s) = connections s"
    by (auto simp: proxy_close_connection_def split: option.splits sock.splits)
  show ?thesis using k by (auto simp: proxy_handle_builtin_def Let_def p j finish_request_def handle_hello_def split: option.splits)
qed

lemma connections_kept: "\<not> connections_updated (handle_incoming oc e c m s) \<Longrightarrow> connections (handle_incoming oc e c m s) = connections s"
proof -
  assume u: "\<not> connections_updated (handle_incoming oc e c m s)"
  have "snd (proxy_handle_builtin e c (wm_parts m) s) = s" if "\<not> fst (proxy_handle_builtin e c (wm_parts m) s)"
    using that by (auto simp: proxy_handle_builtin_def Let_def split: if_splits)
  then show ?thesis using u connections_builtin [of e c "wm_parts m" s] connections_to_worker [of oc e c m s]
    by (auto simp: handle_incoming_def Let_def case_prod_unfold split: if_splits)
qed

lemma incoming_loop_fifo:
  assumes "circ queue pos stop q" "\<And>c. c \<in> set q \<Longrightarrow> map_of (connections s) c \<noteq> None"
  shows "incoming_loop oc e queue pos stop inbox s = Some (finished (handle_all oc e (fifo q inbox) s))"
  using assms
proof (induction q inbox arbitrary: queue pos stop s rule: fifo.induct)
  case (1 inbox)
  then show ?case using circ_Nil by (simp add: incoming_loop.simps [of oc e queue pos])
next
  case (2 c q inbox)
  note circ = circ_Cons [OF 2(3)]
  have c: "map_of (connections s) c \<noteq> None" using 2(4) by simp
  show ?case
  proof (cases "inbox c")
    case Nil
    then show ?thesis using 2(1) [OF Nil circ(3)] 2(4) circ(1,2) c by (simp add: incoming_loop.simps [of oc e queue pos])
  next
    case (Cons m mr)
    let ?s = "if wm_parts m = [] then s else handle_incoming oc e c m s"
    have *: "incoming_loop oc e (queue[stop := queue ! pos]) (circ_next pos queue) (circ_next stop queue) (inbox(c := mr)) ?s
        = Some (finished (handle_all oc e (fifo (q @ [c]) (inbox(c := mr))) ?s))" if "wm_parts m = [] \<or> \<not> connections_updated ?s"
      by (rule 2(2) [OF Cons]) (use circ(2,4) that 2(4) connections_kept [of oc e c m s] in \<open>auto simp: circ_next_def\<close>)
    then show ?thesis using Cons circ(1,2) c
      by (cases "wm_parts m = []"; cases "connections_updated (handle_incoming oc e c m s)")
        (simp_all add: incoming_loop.simps [of oc e queue pos] Let_def circ_next_def)
  qed
qed


lemma incoming_ready:
  assumes "distinct (map fst (connections s))"
  shows "let q = ready_connections inbox s
    in incoming_loop oc e (map Some q @ [None]) 0 (length q) inbox s = Some (finished (handle_all oc e (rounds q inbox) s))"
proof -
  let ?q = "ready_connections inbox s"
  have "distinct ?q" using assms by (simp add: ready_connections_def distinct_map_filter)
  moreover have "map_of (connections s) c \<noteq> None" if "c \<in> set ?q" for c
    using that by (auto simp: ready_connections_def map_of_eq_None_iff)
  ultimately show ?thesis using incoming_loop_fifo [OF circ_start, of ?q s oc e inbox] by (simp add: fifo_eq_rounds)
qed


section \<open>Properties\<close>


definition wire :: "string \<Rightarrow> wire_msg" where
  "wire cmd = \<lparr>wm_parts = [''r'', cmd], wm_props = Map.empty\<rparr>"

definition two_ready :: inbox where
  "two_ready = (\<lambda>c. if c = 1 then [wire ''a.x'', wire ''a.y''] else if c = 2 then [wire ''a.z''] else [])"


lemma connections_process_queue: "connections (proxy_process_queue s) = connections s"
  by (rule conns_connections, rule conns_of_more, rule more_process)

text \<open>C34: With epoll the queue is filled before the control messages are handled: when one of them closes a connection that has an event, the
  loop over the incoming messages follows a pointer to the erased connection. The same messages are handled without epoll.\<close>

theorem epoll_stale_pointer:
  assumes run: "max_workers s \<noteq> 0" "\<not> connections_updated s" "\<not> proxy_skip_one_poll s" "map_of (connections s) c \<noteq> None"
    and i: "in_command_event i" "in_control i = [msg]" "in_events i = [c]" "in_workers i = []" "in_timers i = []"
    and closed: "proxy_control_message L (hd_env h) (hd_bind h) (hd_timer_add h) (hd_garbage h) msg s = finished t"
      "map_of (connections t) c = None" "distinct (map fst (connections t))"
  shows "loop_iteration L h True i s = Some stuck \<and> (\<exists>u. loop_iteration L h False i s = Some (finished (u, True)))"
proof
  have s: "rebuild_pollitems s = s" "s\<lparr>proxy_skip_one_poll := False\<rparr> = s" using run(2,3) by (simp_all add: rebuild_pollitems_def)
  have "incoming_loop (hd_oxenc h) (hd_env h) [Some c, None] 0 1 (in_messages i) (proxy_process_queue t) = Some stuck"
    using closed(2) by (simp add: incoming_loop.simps connections_process_queue)
  then show "loop_iteration L h True i s = Some stuck" using run i closed unfolding loop_iteration_def Let_def s by simp
  have "distinct (map fst (connections (proxy_process_queue t)))" using closed(3) by (simp add: connections_process_queue)
  from incoming_ready [OF this] show "\<exists>u. loop_iteration L h False i s = Some (finished (u, True))"
    using run i closed unfolding loop_iteration_def Let_def s by simp
qed

definition loop_state :: control where
  "loop_state = (control_init 4 True (replicate 32 CHR ''s''))\<lparr>max_workers := 4, connections_updated := False, proxy_skip_one_poll := False,
     next_conn_id := 3, connections := connections net_connected, peers := peers net_connected, outgoing_sn_conns := outgoing_sn_conns net_connected\<rparr>"

definition example_handlers :: handlers where
  "example_handlers = \<lparr>hd_oxenc = oxenc_ref, hd_env = example_env, hd_bind = (\<lambda>_. True), hd_timer_add = (\<lambda>_. 1), hd_garbage = 0\<rparr>"

definition closing_input :: loop_input where
  "closing_input = \<lparr>in_command_event = True, in_worker_event = False, in_events = [2],
     in_control = [''r'' # disconnect bt_ref (conn_of SN_ID pk_a []) 1000], in_workers = [], in_timers = [],
     in_messages = (\<lambda>c. if c = 2 then [wire ''a.z''] else []), in_still_ready = False\<rparr>"

theorem epoll_stale_pointer_witness:
  "loop_iteration bt_ref example_handlers True closing_input loop_state = Some stuck
   \<and> (\<exists>u. loop_iteration bt_ref example_handlers False closing_input loop_state = Some (finished (u, True)))"
proof (rule epoll_stale_pointer)
  let ?c = "conn_of SN_ID pk_a []" and ?h = example_handlers
  show "proxy_control_message bt_ref (hd_env ?h) (hd_bind ?h) (hd_timer_add ?h) (hd_garbage ?h) (''r'' # disconnect bt_ref ?c 1000) loop_state
      = finished (proxy_disconnect ?c loop_state)"
    using disconnect_effect [OF btref.bt_laws_axioms, of ?c 1000] by (simp add: conn_fits_def conn_of_def SN_ID_def)
  have "connections (proxy_disconnect ?c loop_state) = [(1, router_sock None False)]"
    by (simp add: proxy_disconnect_def loop_state_def net_connected_def net_listening_def conn_eq_equiv(1) peer_a_def pi_outgoing_def
        proxy_close_connection_def Let_def)
  then show "map_of (connections (proxy_disconnect ?c loop_state)) 2 = None" "distinct (map fst (connections (proxy_disconnect ?c loop_state)))" by simp_all
qed (simp_all add: loop_state_def closing_input_def net_connected_def)

end
