(* ===== verification/Lifecycle.thy ===== *)
theory Lifecycle
  imports Proxy_Loop
begin

text \<open>
  Construction, the sockets by which threads reach the proxy, and start-up: the constructor, \<^verbatim>\<open>get_control_socket\<close>, \<^verbatim>\<open>make_random_string\<close> and
  \<^verbatim>\<open>start\<close> of \<^verbatim>\<open>oxenmq.cpp\<close> with \<^verbatim>\<open>proxy_loop_init\<close> of \<^verbatim>\<open>proxy.cpp\<close>.
\<close>

section \<open>Construction\<close>

text \<open>
  The functions of libsodium are arguments: whether \<^verbatim>\<open>sodium_init\<close> succeeds, the key pair that \<^verbatim>\<open>crypto_box_keypair\<close> makes, and the public key
  that belongs to a private one. The constructor returns the keys of the object.
\<close>

definition construct_keys :: "bool \<Rightarrow> string \<times> string \<Rightarrow> (string \<Rightarrow> string) \<Rightarrow> string \<Rightarrow> string \<Rightarrow> bool \<Rightarrow> (string \<times> string) res" where
  "construct_keys sodium_ok keypair scalarmult_base pub priv service_node =
     (if \<not> sodium_ok then Inl (runtime_error ''libsodium initialization failed'')
      else if (pub = []) \<noteq> (priv = []) then
        Inl (invalid_argument ''OxenMQ construction failed: one (and only one) of pubkey/privkey is empty. Both must be specified, or both empty to generate a key.'')
      else if pub = [] then
        (if service_node then Inl (invalid_argument ''Cannot construct a service node mode OxenMQ without a keypair'') else Inr keypair)
      else if length pub \<noteq> 32 then
        Inl (invalid_argument (''pubkey has invalid size '' @ to_dec (length pub) @ '', expected '' @ to_dec 32))
      else if length priv \<noteq> 32 then
        Inl (invalid_argument (''privkey has invalid size '' @ to_dec (length priv) @ '', expected '' @ to_dec 32))
      else if scalarmult_base priv \<noteq> pub then
        Inl (invalid_argument ''Invalid pubkey/privkey values given to OxenMQ construction: pubkey verification failed'')
      else Inr (pub, priv))"

lemma construct_keys_ok:
  assumes "construct_keys ok (kp, ks) base pub priv sn = Inr (p, k)" "length kp = 32" "length ks = 32" "base ks = kp"
  shows "length p = 32 \<and> length k = 32 \<and> base k = p \<and> (sn \<or> pub \<noteq> [] \<longrightarrow> (p, k) = (pub, priv))"
  using assms by (auto simp: construct_keys_def split: if_splits)

text \<open>\<^verbatim>\<open>make_random_string\<close>: \<open>rng\<close> gives the successive numbers of the generator, of eight bytes each.\<close>

definition le_bytes :: "64 word \<Rightarrow> string" where
  "le_bytes x = map (\<lambda>i. char_of (nat (uint x) div 256 ^ i mod 256)) [0..<8]"

function random_bytes :: "(nat \<Rightarrow> 64 word) \<Rightarrow> nat \<Rightarrow> nat \<Rightarrow> string \<Rightarrow> string" where
  "random_bytes rng i sz rando =
     (if length rando < sz then random_bytes rng (i + 1) sz (rando @ take (min (sz - length rando) 8) (le_bytes (rng i))) else rando)"
  by auto

termination random_bytes
  by (relation "measure (\<lambda>(rng, i, sz, rando). sz - length rando)") (auto simp: le_bytes_def)

declare random_bytes.simps [simp del]

definition make_random_string :: "(nat \<Rightarrow> 64 word) \<Rightarrow> nat \<Rightarrow> string" where
  "make_random_string rng sz = random_bytes rng 0 sz []"

lemma length_random_bytes: "length rando \<le> sz \<Longrightarrow> length (random_bytes rng i sz rando) = sz"
proof (induction rng i sz rando rule: random_bytes.induct)
  case (1 rng i sz rando)
  then show ?case by (subst random_bytes.simps) (auto simp: le_bytes_def)
qed

lemma length_make_random_string: "length (make_random_string rng sz) = sz"
  by (simp add: make_random_string_def length_random_bytes)


section \<open>Control sockets\<close>

text \<open>
  Every thread has a socket of its own for every object, and remembers the one it used last with the number of the object. Numbers are
  not used again; the sockets of an object are destroyed with it, and a thread that ends forgets: a later one may have its identifier.
\<close>

record control_sockets =
  cs_next_id :: int
  cs_live :: "int set"
  cs_shutting_down :: "int \<Rightarrow> bool"
  cs_socket :: "int \<Rightarrow> nat \<Rightarrow> nat option"
  cs_last :: "nat \<Rightarrow> int \<times> nat"
  cs_next_socket :: nat

definition get_control_socket :: "int \<Rightarrow> nat \<Rightarrow> control_sockets \<Rightarrow> (nat \<times> control_sockets) res" where
  "get_control_socket ob thread s =
     (if ob = fst (cs_last s thread) then Inr (snd (cs_last s thread), s)
      else if cs_shutting_down s ob then
        Inl (runtime_error ''Unable to obtain OxenMQ control socket: proxy thread is shutting down'')
      else
        (let s = (if cs_socket s ob thread = None
                  then s\<lparr>cs_socket := (cs_socket s)(ob := (cs_socket s ob)(thread \<mapsto> cs_next_socket s)), cs_next_socket := cs_next_socket s + 1\<rparr> else s);
             k = the (cs_socket s ob thread)
         in Inr (k, s\<lparr>cs_last := (cs_last s)(thread := (ob, k))\<rparr>)))"

inductive cs_step :: "control_sockets \<Rightarrow> control_sockets \<Rightarrow> bool" where
  construct: "cs_step s (s\<lparr>cs_next_id := cs_next_id s + 1, cs_live := insert (cs_next_id s) (cs_live s)\<rparr>)"
| get: "ob \<in> cs_live s \<Longrightarrow> get_control_socket ob thread s = Inr (k, s') \<Longrightarrow> cs_step s s'"
| thread_end: "cs_step s (s\<lparr>cs_last := (cs_last s)(thread := (-1, 0))\<rparr>)"
| shut_down: "cs_step s (s\<lparr>cs_shutting_down := (cs_shutting_down s)(ob := True)\<rparr>)"
| destroy: "cs_step s (s\<lparr>cs_live := cs_live s - {ob}, cs_socket := (cs_socket s)(ob := Map.empty)\<rparr>)"

definition cs_init :: control_sockets where
  "cs_init = \<lparr>cs_next_id = 1, cs_live = {}, cs_shutting_down = (\<lambda>_. False), cs_socket = (\<lambda>_. Map.empty), cs_last = (\<lambda>_. (-1, 0)), cs_next_socket = 0\<rparr>"

definition cs_inv :: "control_sockets \<Rightarrow> bool" where
  "cs_inv s \<longleftrightarrow> 0 < cs_next_id s
     \<and> (\<forall>ob \<in> cs_live s. 0 < ob \<and> ob < cs_next_id s)
     \<and> (\<forall>ob t k. cs_socket s ob t = Some k \<longrightarrow> k < cs_next_socket s)
     \<and> (\<forall>ob t ob' t' k. cs_socket s ob t = Some k \<longrightarrow> cs_socket s ob' t' = Some k \<longrightarrow> ob = ob' \<and> t = t')
     \<and> (\<forall>t. fst (cs_last s t) < cs_next_id s)
     \<and> (\<forall>t. fst (cs_last s t) \<in> cs_live s \<longrightarrow> cs_socket s (fst (cs_last s t)) t = Some (snd (cs_last s t)))"

lemma cs_inv_last:
  assumes "cs_inv u" "cs_socket u ob t = Some k" "ob \<in> cs_live u" "s' = u\<lparr>cs_last := l\<rparr>" "l = (cs_last u)(t := (ob, k))"
  shows "cs_inv s'"
  using assms unfolding cs_inv_def by simp

lemma get_inv:
  assumes "cs_inv s" "ob \<in> cs_live s" "get_control_socket ob t s = Inr (k, s')"
  shows "cs_inv s' \<and> cs_socket s' ob t = Some k \<and> cs_live s' = cs_live s"
proof (cases "ob = fst (cs_last s t)")
  case True
  then show ?thesis using assms by (auto simp: get_control_socket_def cs_inv_def)
next
  case False
  let ?new = "s\<lparr>cs_socket := (cs_socket s)(ob := (cs_socket s ob)(t \<mapsto> cs_next_socket s)), cs_next_socket := cs_next_socket s + 1\<rparr>"
  obtain u where u: "u = (if cs_socket s ob t = None then ?new else s)" "cs_socket u ob t = Some k" "s' = u\<lparr>cs_last := (cs_last s)(t := (ob, k))\<rparr>"
    using False assms(3) by (auto simp: get_control_socket_def Let_def split: if_splits)
  have "cs_inv u"
  proof (cases "cs_socket s ob t")
    case None
    have "cs_socket s ob' t' \<noteq> Some (cs_next_socket s)" for ob' t' using assms(1) unfolding cs_inv_def by blast
    moreover have "fst (cs_last s t) \<noteq> ob" using False by simp
    ultimately show ?thesis using None assms(1) unfolding u(1) cs_inv_def by (auto simp: less_Suc_eq)
  qed (use assms(1) u(1) in simp)
  moreover have l: "cs_live u = cs_live s" using u(1) by simp
  moreover have "cs_last u = cs_last s" using u(1) by simp
  ultimately have "cs_inv s'" by (intro cs_inv_last [OF _ u(2) _ u(3)]) (simp_all add: assms(2))
  then show ?thesis using u(2,3) l by simp
qed

lemma cs_step_inv: "cs_step s s' \<Longrightarrow> cs_inv s \<Longrightarrow> cs_inv s'"
proof (induction rule: cs_step.induct)
  case (construct s)
  have "fst (cs_last s t) \<noteq> cs_next_id s" for t using construct unfolding cs_inv_def by (metis less_irrefl)
  moreover have "x < cs_next_id s \<Longrightarrow> x < cs_next_id s + 1" for x by simp
  ultimately show ?case using construct unfolding cs_inv_def by (simp add: less_imp_le)
next
  case (get ob s thread k s')
  then show ?case using get_inv by blast
next
  case (thread_end s thread)
  then show ?case unfolding cs_inv_def by auto
next
  case (shut_down s ob)
  then show ?case unfolding cs_inv_def by simp
next
  case (destroy s ob)
  then show ?case unfolding cs_inv_def by auto
qed

lemma cs_inv_init: "cs_inv cs_init"
  by (simp add: cs_inv_def cs_init_def)

lemma cs_reachable_inv: "cs_step\<^sup>*\<^sup>* cs_init s \<Longrightarrow> cs_inv s"
  by (induction rule: rtranclp_induct) (auto simp: cs_inv_init cs_step_inv)

text \<open>C13: Whatever objects are constructed and destroyed and whichever threads call it, \<^verbatim>\<open>get_control_socket\<close> on a live object returns a socket that
  exists and belongs to this thread and this object alone, the cached one included.\<close>

theorem control_socket_private:
  assumes "cs_step\<^sup>*\<^sup>* cs_init s" "ob \<in> cs_live s" "get_control_socket ob thread s = Inr (k, s')"
  shows "cs_socket s' ob' thread' = Some k \<longleftrightarrow> ob' = ob \<and> thread' = thread"
  using get_inv [OF cs_reachable_inv [OF assms(1)] assms(2,3)] unfolding cs_inv_def by blast

theorem control_socket_private_witness:
  "\<exists>s s'. cs_step\<^sup>*\<^sup>* cs_init s \<and> 1 \<in> cs_live s \<and> get_control_socket 1 7 s = Inr (0, s')
    \<and> (cs_socket s' 1 7 = Some 0 \<longleftrightarrow> (1 :: int) = 1 \<and> (7 :: nat) = 7)"
proof -
  let ?s = "cs_init\<lparr>cs_next_id := cs_next_id cs_init + 1, cs_live := insert (cs_next_id cs_init) (cs_live cs_init)\<rparr>"
  have r: "cs_step\<^sup>*\<^sup>* cs_init ?s" using construct by blast
  have l: "1 \<in> cs_live ?s" by (simp add: cs_init_def)
  obtain s' where g: "get_control_socket 1 7 ?s = Inr (0, s')" by (simp add: get_control_socket_def cs_init_def Let_def)
  show ?thesis using r l g control_socket_private [OF r l g, of 1 7] by blast
qed


section \<open>Start-up\<close>

text \<open>
  The settings of the process that listening sockets get: \<open>chown\<close> is the system call, with the text of its error. The mask for new
  files is a state that \<^verbatim>\<open>proxy_loop_init\<close> changes and, unless an exception intervenes, restores.
\<close>

record startup =
  STARTUP_UMASK :: int
  SOCKET_GID :: int
  SOCKET_UID :: int
  chown :: "string \<Rightarrow> int \<Rightarrow> int \<Rightarrow> string option"

fun chown_sockets :: "oxenc \<Rightarrow> startup \<Rightarrow> bind_data list \<Rightarrow> unit outcome" where
  "chown_sockets oc st [] = finished ()"
| "chown_sockets oc st (b # bs) =
     bindO (of_res (parse_address oc (bd_address b))) (\<lambda>addr.
       case (if addr_ipc addr then chown st (socket addr) (SOCKET_UID st) (SOCKET_GID st) else None) of
         Some err \<Rightarrow> threw (runtime_error (''cannot set group on '' @ socket addr @ '': '' @ err))
       | None \<Rightarrow> chown_sockets oc st bs)"

text \<open>
  \<^verbatim>\<open>proxy_loop_init\<close>: \<open>zmq_add\<close> is what \<^verbatim>\<open>zmq_timers_add\<close> returns for the interval of the clean-up of connections, and \<open>msgs\<close> are the messages that
  arrive from the tagged threads. \<^verbatim>\<open>start\<close> hands the exception of the proxy thread to its caller; it is stuck while a tagged thread has
  not reported. The first component of the result is the mask; that of a success begins with the calls of the \<^verbatim>\<open>on_bind\<close> callbacks.
\<close>

definition finish_init :: "oxenc \<Rightarrow> startup \<Rightarrow> (int \<Rightarrow> int) \<Rightarrow> int \<Rightarrow> string list list \<Rightarrow> 'a net_scheme \<Rightarrow> 'a net_scheme outcome" where
  "finish_init oc st zmq_add conn_check_interval msgs s =
     bindO (if SOCKET_GID st \<noteq> -1 \<or> SOCKET_UID st \<noteq> -1 then chown_sockets oc st (binds s) else finished ()) (\<lambda>_.
       if zmq_add conn_check_interval = -1 then threw (runtime_error ''zmq error'')
       else if tagged_workers s = [] then finished s
       else bindO (of_option (await_tagged (map (\<lambda>t. worker_routing_id (tw_run t)) (tagged_workers s)) msgs)) (\<lambda>_.
         finished (start_tagged_workers s)))"

definition proxy_loop_init :: "oxenc \<Rightarrow> startup \<Rightarrow> (string \<Rightarrow> bool) \<Rightarrow> (int \<Rightarrow> int) \<Rightarrow> int \<Rightarrow> string list list \<Rightarrow> int \<Rightarrow> 'a net_scheme \<Rightarrow>
    int \<times> ((nat \<times> bool) list \<times> 'a net_scheme) outcome" where
  "proxy_loop_init oc st zmq_bind zmq_add conn_check_interval msgs umask s =
     (case init_workers s of Inl x \<Rightarrow> (umask, threw x)
      | Inr s \<Rightarrow>
          (let saved_umask = (if 0 \<le> STARTUP_UMASK st then umask else -1);
               umask = (if 0 \<le> STARTUP_UMASK st then STARTUP_UMASK st mod 512 else umask);
               (calls, r) = init_connections zmq_bind s
           in case r of Inl x \<Rightarrow> (umask, threw x)
              | Inr s \<Rightarrow>
                  (if saved_umask \<noteq> -1 then saved_umask else umask,
                   bindO (finish_init oc st zmq_add conn_check_interval msgs s) (\<lambda>s. finished (calls, s)))))"

definition omq_start :: "oxenc \<Rightarrow> startup \<Rightarrow> (string \<Rightarrow> bool) \<Rightarrow> (int \<Rightarrow> int) \<Rightarrow> int \<Rightarrow> string list list \<Rightarrow> int \<Rightarrow> 'a net_scheme \<Rightarrow>
    int \<times> ((nat \<times> bool) list \<times> 'a net_scheme) outcome" where
  "omq_start oc st zmq_bind zmq_add conn_check_interval msgs umask s =
     (if started s then (umask, threw (logic_error ''Cannot call start() multiple times!''))
      else proxy_loop_init oc st zmq_bind zmq_add conn_check_interval msgs umask ((size_pool s)\<lparr>started := True\<rparr>))"

lemma await_tagged_done:
  "(\<And>r. r \<in> set waiting \<Longrightarrow> [r, ''STARTING''] \<in> set msgs) \<Longrightarrow> await_tagged waiting msgs \<noteq> None"
proof (induction waiting msgs rule: await_tagged.induct)
  case (3 w ws parts msgs)
  have later: "[r, ''STARTING''] \<in> set msgs" if "r \<in> set (w # ws)" "parts \<noteq> [r, ''STARTING'']" for r
    using "3.prems" [OF that(1)] that(2) by auto
  show ?case
  proof (cases "length parts \<noteq> 2 \<or> parts ! 1 \<noteq> ''STARTING''")
    case True
    then have "parts \<noteq> [r, ''STARTING'']" for r by auto
    then have "await_tagged (w # ws) msgs \<noteq> None" using "3.IH"(1) [OF True] later by blast
    with True show ?thesis by simp
  next
    case False
    have "parts \<noteq> [r, ''STARTING'']" if "r \<in> set (removeAll (parts ! 0) (w # ws))" for r
      using that by (metis DiffD2 nth_Cons_0 set_removeAll singletonI)
    then have "await_tagged (removeAll (parts ! 0) (w # ws)) msgs \<noteq> None" using "3.IH"(2) [OF False] later by (metis Diff_iff set_removeAll)
    then show ?thesis by (simp only: await_tagged.simps False if_False not_False_eq_True)
  qed
qed auto

lemma net_unchanged:
  "s = s\<lparr>next_conn_id := next_conn_id s, connections := connections s @ [], connections_updated := connections_updated s\<rparr>"
  by simp

lemma bind_all_Nil:
  "bind_all zmq_bind i [] s
    = ([], [], Inr (s\<lparr>next_conn_id := next_conn_id s, connections := connections s @ [], connections_updated := connections_updated s\<rparr>))"
  by (simp only: bind_all.simps flip: net_unchanged)

lemma bind_all_good:
  "list_all (\<lambda>b. zmq_bind (bd_address b)) bs \<Longrightarrow>
    \<exists>bs' calls n cs u. bind_all zmq_bind i bs s = (bs', calls, Inr (s\<lparr>next_conn_id := n, connections := connections s @ cs, connections_updated := u\<rparr>))
      \<and> length cs = length bs \<and> map bd_address bs' = map bd_address bs"
proof (induction bs arbitrary: i s)
  case Nil
  show ?case by (rule exI, rule exI, rule exI, rule exI, rule exI, rule conjI, rule bind_all_Nil) simp
next
  case (Cons b bs)
  let ?b = "b\<lparr>bd_on_bind := None, bd_conn_id := next_conn_id s\<rparr>" and ?call = "map_option (\<lambda>f. (f, True)) (bd_on_bind b)"
  let ?c = "(next_conn_id s, setup_incoming_socket (bd_curve b) i)"
  let ?s = "s\<lparr>next_conn_id := next_conn_id s + 1, connections := connections s @ [?c], connections_updated := True\<rparr>"
  have b: "proxy_bind zmq_bind i b s = (True, ?b, ?call, ?s)" using Cons.prems by (simp add: proxy_bind_def Let_def)
  obtain bs' calls n' cs u where r: "bind_all zmq_bind (Suc i) bs ?s
      = (bs', calls, Inr (?s\<lparr>next_conn_id := n', connections := connections ?s @ cs, connections_updated := u\<rparr>))"
    and l: "length cs = length bs" "map bd_address bs' = map bd_address bs"
    using Cons.IH [of "Suc i" ?s] Cons.prems unfolding list.pred_inject by blast
  have "bind_all zmq_bind i (b # bs) s = (?b # bs', (case ?call of Some c \<Rightarrow> [c] | None \<Rightarrow> []) @ calls,
      Inr (s\<lparr>next_conn_id := n', connections := connections s @ (?c # cs), connections_updated := u\<rparr>))"
    by (simp add: b r)
  moreover have "length (?c # cs) = length (b # bs) \<and> map bd_address (?b # bs') = map bd_address (b # bs)" using l by simp
  ultimately show ?case by blast
qed

lemma init_connections_good:
  assumes "list_all (\<lambda>b. zmq_bind (bd_address b)) (binds s)"
  obtains calls i n cs bs where "init_connections zmq_bind s
      = (calls, Inr (s\<lparr>inproc_listener_connid := i, next_conn_id := n, connections := connections s @ cs, binds := bs, connections_updated := True\<rparr>))"
    "length cs = 1 + length (binds s)" "map bd_address bs = map bd_address (binds s)"
proof -
  let ?l = "(next_conn_id s, router_sock None False)"
  let ?s = "s\<lparr>inproc_listener_connid := next_conn_id s, next_conn_id := next_conn_id s + 1, connections := connections s @ [?l]\<rparr>"
  obtain bs calls n cs u where "bind_all zmq_bind 0 (binds s) ?s
      = (bs, calls, Inr (?s\<lparr>next_conn_id := n, connections := connections ?s @ cs, connections_updated := u\<rparr>))" "length cs = length (binds s)"
      "map bd_address bs = map bd_address (binds s)"
    using bind_all_good [OF assms, of 0 ?s] by blast
  then have "init_connections zmq_bind s = (calls, Inr (s\<lparr>inproc_listener_connid := next_conn_id s, next_conn_id := n,
      connections := connections s @ (?l # cs), binds := bs, connections_updated := True\<rparr>))" "length (?l # cs) = 1 + length (binds s)"
      "map bd_address bs = map bd_address (binds s)"
    by (simp_all add: init_connections_def)
  then show ?thesis by (rule that)
qed

lemma chown_sockets_cong: "map bd_address bs = map bd_address cs \<Longrightarrow> chown_sockets oc st bs = chown_sockets oc st cs"
proof (induction bs arbitrary: cs)
  case (Cons b bs)
  then obtain c cs' where "cs = c # cs'" "bd_address b = bd_address c" "map bd_address bs = map bd_address cs'" by (cases cs) auto
  with Cons.IH [of cs'] show ?case by (simp cong: option.case_cong)
qed simp

lemma finish_init_good:
  assumes "SOCKET_GID st = -1 \<and> SOCKET_UID st = -1 \<or> chown_sockets oc st (binds s) = finished ()" "zmq_add interval \<noteq> -1"
    and "list_all (\<lambda>t. [worker_routing_id (tw_run t), ''STARTING''] \<in> set msgs) (tagged_workers s)"
  shows "finish_init oc st zmq_add interval msgs s = finished (if tagged_workers s = [] then s else start_tagged_workers s)"
proof -
  obtain rest where "await_tagged (map (\<lambda>t. worker_routing_id (tw_run t)) (tagged_workers s)) msgs = Some rest"
    using await_tagged_done [of "map (\<lambda>t. worker_routing_id (tw_run t)) (tagged_workers s)" msgs] assms(3) by (auto simp: list_all_iff)
  then show ?thesis using assms(1,2) by (auto simp: finish_init_def)
qed

text \<open>Two failures that the settings bring: a listener that cannot be bound leaves the mask changed, and a string that libzmq binds but \<^verbatim>\<open>address\<close> does
  not accept makes \<^verbatim>\<open>start\<close> throw when an owner is set.\<close>

lemma bind_failure_keeps_umask:
  assumes "0 \<le> STARTUP_UMASK st" "init_workers s = Inr t" "snd (init_connections zmq_bind t) = Inl x"
  shows "proxy_loop_init oc st zmq_bind zmq_add interval msgs umask s = (STARTUP_UMASK st mod 512, threw x)"
  using assms by (cases "init_connections zmq_bind t") (simp add: proxy_loop_init_def)

lemma owner_refuses_wildcard_port:
  "bd_address b = ''tcp://127.0.0.1:*'' \<Longrightarrow>
    chown_sockets oc st (b # bs) = threw (invalid_argument ''Could not find numeric port in address string'')"
  by (simp add: parse_address_def parse_proto_def addr_tcp_def addr_curve_def parse_tcp_def parse_host_def parse_port_def find_first_not_of_def digits_def)

lemma pool_inv_connections:
  "pool_inv (s\<lparr>inproc_listener_connid := i, next_conn_id := n, connections := cs, binds := bs, connections_updated := u\<rparr>) = pool_inv s" (is "pool_inv ?t = _")
proof -
  have k: "reserved ?t k = reserved s k" "active ?t k = active s k" for k by (cases k; simp add: get_category_def)+
  have "core_inv ?t = core_inv s" by (rule core_cong) (simp_all add: k)
  moreover have "queue_inv ?t = queue_inv s" by (rule queue_cong) (simp_all add: get_category_def)
  ultimately show ?thesis by (simp add: pool_inv_def)
qed

lemma pool_inv_start_tagged [simp]: "pool_inv (start_tagged_workers s) = pool_inv s" (is "pool_inv ?t = _")
proof -
  have k: "reserved ?t k = reserved s k" "active ?t k = active s k" for k by (cases k; simp add: get_category_def start_tagged_workers_def)+
  have "core_inv ?t = core_inv s" by (rule core_cong) (simp_all add: k, simp_all add: start_tagged_workers_def)
  moreover have "queue_inv ?t = queue_inv s" by (rule queue_cong) (simp_all add: get_category_def start_tagged_workers_def)
  ultimately show ?thesis by (simp add: pool_inv_def)
qed

lemma net_inv_tagged [simp]: "net_inv (start_tagged_workers s) = net_inv s"
  and tagged_inv_tagged [simp]: "tagged_inv (start_tagged_workers s) = tagged_inv s"
  by (simp_all add: start_tagged_workers_def net_inv_def conn_inv_def out_ids_def tagged_inv_def)

lemma start_pool_good:
  assumes "configured s" "\<not> started s" "worker_sockets s = 0" "net_start s"
  obtains t where "start_pool s = Inr t" "net_start t" "binds t = binds s" "tagged_workers t = tagged_workers s" "to_workers t = to_workers s"
    "max_workers t = max_workers (size_pool s)" "started t"
proof -
  let ?u = "(size_pool s)\<lparr>started := True\<rparr>"
  let ?t = "?u\<lparr>idle_workers := take (nat (max_workers ?u)) (idle_workers ?u) @ replicate (nat (max_workers ?u) - length (idle_workers ?u)) 0,
     worker_sockets := nat (max_workers ?u)\<rparr>"
  have keep: "worker_sockets (size_pool s) = worker_sockets s" "to_workers (size_pool s) = to_workers s" "net_start (size_pool s) = net_start s"
      "binds (size_pool s) = binds s"
    by (simp_all add: size_pool_def Let_def net_start_def)
  have "workers s = []" using assms(1) by (simp add: configured_def)
  then have "start_pool s = Inr ?t" using assms(2,3) by (simp add: start_pool_def init_workers_def Let_def keep)
  moreover have "net_start ?t" using assms(4) keep(3) by (simp add: net_start_def)
  ultimately show ?thesis by (rule that) (simp_all add: keep)
qed

text \<open>C14: On an object configured before \<^verbatim>\<open>start\<close>, if every listening address can be bound, the sockets can be given to the configured owner, the
  timer can be added and every tagged thread reports, \<^verbatim>\<open>start\<close> succeeds and leaves the file mask as it was: the invariants of the pool and
  of the connections hold, there is a socket for every address besides the internal one, every tagged thread is told to start, and a
  second call of \<^verbatim>\<open>start\<close> is refused.\<close>

theorem start_ready:
  assumes "configured s" "\<not> started s" "worker_sockets s = 0" "net_start s" "max_workers (size_pool s) < 2 ^ 31" "0 \<le> umask"
    and "list_all (\<lambda>b. zmq_bind (bd_address b)) (binds s)" "zmq_add interval \<noteq> -1"
    and "SOCKET_GID st = -1 \<and> SOCKET_UID st = -1 \<or> chown_sockets oc st (binds s) = finished ()"
    and "list_all (\<lambda>t. [worker_routing_id (tw_run t), ''STARTING''] \<in> set msgs) (tagged_workers s)"
  shows "\<exists>calls t. omq_start oc st zmq_bind zmq_add interval msgs umask s = (umask, finished (calls, t)) \<and> pool_inv t \<and> tagged_inv t \<and> net_inv t
    \<and> length (connections t) = 1 + length (binds s)
    \<and> to_workers t = to_workers s @ map (\<lambda>w. (worker_routing_id (tw_run w), ''START'')) (tagged_workers s)
    \<and> omq_start oc st zmq_bind zmq_add interval msgs umask t = (umask, threw (logic_error ''Cannot call start() multiple times!''))"
proof -
  obtain u where u: "start_pool s = Inr u" "net_start u" "binds u = binds s" "tagged_workers u = tagged_workers s" "to_workers u = to_workers s"
      "max_workers u = max_workers (size_pool s)" "started u"
    using start_pool_good [OF assms(1-4)] by blast
  obtain calls i n cs bs where c: "init_connections zmq_bind u
      = (calls, Inr (u\<lparr>inproc_listener_connid := i, next_conn_id := n, connections := connections u @ cs, binds := bs, connections_updated := True\<rparr>))"
    and l: "length cs = 1 + length (binds u)" and bs: "map bd_address bs = map bd_address (binds u)"
    using init_connections_good [of zmq_bind u] assms(7) u(3) by metis
  define v where "v = u\<lparr>inproc_listener_connid := i, next_conn_id := n, connections := connections u @ cs, binds := bs, connections_updated := True\<rparr>"
  have "max_workers u < 2 ^ 31" using assms(5) u(6) by simp
  then have "pool_inv v" "tagged_inv v"
    using start_pool_inv [OF assms(1) u(1)] unfolding v_def by (simp_all add: pool_inv_connections tagged_inv_def)
  moreover have "net_inv v" by (rule net_inv_init [OF net_start_inv [OF u(2)], of zmq_bind]) (simp add: c v_def)
  moreover have "length (connections v) = 1 + length (binds s)" using l u(2,3) by (simp add: v_def net_start_def)
  moreover have v: "tagged_workers v = tagged_workers s" "to_workers v = to_workers s" "started v" using u by (simp_all add: v_def)
  moreover define w where "w = (if tagged_workers s = [] then v else start_tagged_workers v)"
  have st: "omq_start oc st zmq_bind zmq_add interval msgs umask s = (umask, finished (calls, w))"
  proof -
    have i: "init_workers ((size_pool s)\<lparr>started := True\<rparr>) = Inr u" using u(1) assms(2) by (simp add: start_pool_def)
    have "chown_sockets oc st (binds v) = chown_sockets oc st (binds s)" by (rule chown_sockets_cong) (simp add: v_def bs u(3))
    then have "finish_init oc st zmq_add interval msgs v = finished w"
      unfolding w_def v(1) [symmetric] by (intro finish_init_good) (use assms(8-10) v(1) in simp_all)
    then show ?thesis using c assms(2,6) by (simp add: omq_start_def proxy_loop_init_def i flip: v_def)
  qed
  moreover have "started w" "connections w = connections v" using v(3) by (simp_all add: w_def start_tagged_workers_def)
  moreover have "to_workers w = to_workers s @ map (\<lambda>w. (worker_routing_id (tw_run w), ''START'')) (tagged_workers s)"
    using v by (simp add: w_def start_tagged_workers_def)
  moreover have "pool_inv w = pool_inv v" "tagged_inv w = tagged_inv v" "net_inv w = net_inv v" by (simp_all add: w_def)
  ultimately show ?thesis by (intro exI [of _ calls] exI [of _ w] conjI) (simp_all add: omq_start_def [of _ _ _ _ _ _ _ w])
qed

theorem start_ready_witness:
  "\<exists>calls t. omq_start oxenc_ref \<lparr>STARTUP_UMASK = 7, SOCKET_GID = -1, SOCKET_UID = -1, chown = \<lambda>_ _ _. None\<rparr> (\<lambda>_. True) (\<lambda>_. 1) 250 [] 18 (net_init 4 False [])
    = (18, finished (calls, t)) \<and> pool_inv t \<and> net_inv t \<and> length (connections t) = 1"
proof -
  let ?s = "net_init 4 False []" and ?st = "\<lparr>STARTUP_UMASK = 7, SOCKET_GID = -1, SOCKET_UID = -1, chown = \<lambda>_ _ _. None\<rparr>"
  have "configured ?s" by (simp add: net_init_def pool.defs net.defs pool_init_def configured_def tagged_inv_def)
  moreover have "\<not> started ?s" "worker_sockets ?s = 0" "tagged_workers ?s = []" "max_workers (size_pool ?s) < 2 ^ 31"
    by (simp_all add: net_init_def pool.defs net.defs pool_init_def size_pool_def)
  ultimately show ?thesis using start_ready [of ?s 18 "\<lambda>_. True" "\<lambda>_. 1" 250 ?st oxenc_ref "[]"] net_start_init [of 4 False "[]"] by auto
qed

end
