(* ===== verification/Pubsub.thy ===== *)
theory Pubsub
  imports Conn_Id
begin

text \<open>
  Subscriptions: the class \<^verbatim>\<open>Subscription\<close> of \<^verbatim>\<open>oxenmq/pubsub.h\<close>. Every method holds the mutex, except
  \<^verbatim>\<open>publish\<close>, which releases it between its two passes; threads are therefore sequences of steps in which the passes
  of several \<^verbatim>\<open>publish\<close> calls interleave with the other methods. The main result is that what is published is exactly what the
  history of subscriptions says.
\<close>

section \<open>State and methods\<close>

text \<open>
  Times are nanoseconds of the steady clock and \<open>sub_duration\<close> is in milliseconds. \<^verbatim>\<open>Subscription<void>\<close> is the instance
  at the unit type. The operator \<^verbatim>\<open>==\<close> of the user's data is an argument.
\<close>

record 'u sub_data =
  sub_expiry :: int
  sub_user_data :: 'u

record 'u subscription =
  subs :: "(connection_id \<times> 'u sub_data) list"
  sub_duration :: int

definition subscribe :: "('u \<Rightarrow> 'u \<Rightarrow> bool) \<Rightarrow> int \<Rightarrow> connection_id \<Rightarrow> 'u \<Rightarrow> 'u subscription \<Rightarrow> bool \<times> 'u subscription" where
  "subscribe user_eq t conn d p =
     (let expiry = t + 1000000 * sub_duration p in
      case mm_find conn_eq conn (subs p) of
        None \<Rightarrow> (True, p\<lparr>subs := subs p @ [(conn, \<lparr>sub_expiry = expiry, sub_user_data = d\<rparr>)]\<rparr>)
      | Some (k, v) \<Rightarrow>
          (let v' = v\<lparr>sub_expiry := expiry\<rparr>;
               changed = (\<not> user_eq (sub_user_data v') d);
               v' = (if changed then v'\<lparr>sub_user_data := d\<rparr> else v')
           in (changed, p\<lparr>subs := map (\<lambda>(l, w). (l, if conn_eq l conn then v' else w)) (subs p)\<rparr>)))"

definition unsubscribe :: "connection_id \<Rightarrow> 'u subscription \<Rightarrow> 'u option \<times> 'u subscription" where
  "unsubscribe conn p =
     (map_option (\<lambda>kv. sub_user_data (snd kv)) (mm_find conn_eq conn (subs p)), p\<lparr>subs := mm_erase_key conn_eq conn (subs p)\<rparr>)"

definition remove_expired :: "int \<Rightarrow> 'u subscription \<Rightarrow> 'u subscription" where
  "remove_expired t p = p\<lparr>subs := filter (\<lambda>(k, v). \<not> sub_expiry v < t) (subs p)\<rparr>"

text \<open>
  The two passes of \<^verbatim>\<open>publish\<close>: the calls of the user's function with the connections to remove, and the removal.
\<close>

definition publish_calls :: "int \<Rightarrow> 'u subscription \<Rightarrow> (connection_id \<times> 'u) list \<times> connection_id list" where
  "publish_calls t p =
     (map (\<lambda>(k, v). (k, sub_user_data v)) (filter (\<lambda>(k, v). \<not> sub_expiry v < t) (subs p)),
      map fst (filter (\<lambda>(k, v). sub_expiry v < t) (subs p)))"

definition publish_remove :: "int \<Rightarrow> connection_id list \<Rightarrow> 'u subscription \<Rightarrow> 'u subscription" where
  "publish_remove t to_remove p =
     fold (\<lambda>conn p. case mm_find conn_eq conn (subs p) of
                      None \<Rightarrow> p
                    | Some (k, v) \<Rightarrow> if sub_expiry v < t then p\<lparr>subs := mm_erase_key conn_eq conn (subs p)\<rparr> else p)
       to_remove p"


section \<open>Threads\<close>

text \<open>
  The clock, the object, the \<^verbatim>\<open>publish\<close> calls between their passes, and the subscriptions and
  cancellations so far, the latest first.
\<close>

datatype 'u sub_event = subscribed int connection_id 'u | unsubscribed connection_id

record 'u sub_system =
  ss_now :: int
  ss_sub :: "'u subscription"
  ss_removing :: "connection_id list list"
  ss_history :: "'u sub_event list"

inductive sub_step :: "('u \<Rightarrow> 'u \<Rightarrow> bool) \<Rightarrow> 'u sub_system \<Rightarrow> 'u sub_system \<Rightarrow> bool" for user_eq where
  tick: "ss_now s \<le> t \<Longrightarrow> sub_step user_eq s (s\<lparr>ss_now := t\<rparr>)"
| subscribe: "sub_step user_eq s (s\<lparr>ss_sub := snd (subscribe user_eq (ss_now s) conn d (ss_sub s)),
    ss_history := subscribed (ss_now s) conn d # ss_history s\<rparr>)"
| unsubscribe: "sub_step user_eq s (s\<lparr>ss_sub := snd (unsubscribe conn (ss_sub s)), ss_history := unsubscribed conn # ss_history s\<rparr>)"
| remove_expired: "sub_step user_eq s (s\<lparr>ss_sub := remove_expired (ss_now s) (ss_sub s)\<rparr>)"
| publish_calls: "sub_step user_eq s (s\<lparr>ss_removing := snd (publish_calls (ss_now s) (ss_sub s)) # ss_removing s\<rparr>)"
| publish_remove: "ss_removing s = xs @ r # ys \<Longrightarrow>
    sub_step user_eq s (s\<lparr>ss_sub := publish_remove (ss_now s) r (ss_sub s), ss_removing := xs @ ys\<rparr>)"

definition sub_init :: "int \<Rightarrow> int \<Rightarrow> 'u sub_system" where
  "sub_init t duration = \<lparr>ss_now = t, ss_sub = \<lparr>subs = [], sub_duration = duration\<rparr>, ss_removing = [], ss_history = []\<rparr>"

definition sub_reachable :: "('u \<Rightarrow> 'u \<Rightarrow> bool) \<Rightarrow> int \<Rightarrow> 'u sub_system \<Rightarrow> bool" where
  "sub_reachable user_eq duration s \<longleftrightarrow> (\<exists>t. (sub_step user_eq)\<^sup>*\<^sup>* (sub_init t duration) s)"

text \<open>The specification: the expiry and the data of the latest subscription of a connection, unless it was cancelled.\<close>

fun last_sub :: "int \<Rightarrow> 'u sub_event list \<Rightarrow> connection_id \<Rightarrow> (int \<times> 'u) option" where
  "last_sub duration [] c = None"
| "last_sub duration (subscribed t k d # h) c = (if conn_eq k c then Some (t + 1000000 * duration, d) else last_sub duration h c)"
| "last_sub duration (unsubscribed k # h) c = (if conn_eq k c then None else last_sub duration h c)"


section \<open>Invariant\<close>

text \<open>
  The keys differ, every stored subscription is the latest of its connection, and every latest one that has not expired
  is stored.
\<close>

definition sub_inv :: "int \<Rightarrow> 'u sub_system \<Rightarrow> bool" where
  "sub_inv duration s \<longleftrightarrow>
     sub_duration (ss_sub s) = duration
     \<and> distinct (map fst (subs (ss_sub s)))
     \<and> (\<forall>k v l w. (k, v) \<in> set (subs (ss_sub s)) \<longrightarrow> (l, w) \<in> set (subs (ss_sub s)) \<longrightarrow> conn_eq k l \<longrightarrow> k = l)
     \<and> (\<forall>k v. (k, v) \<in> set (subs (ss_sub s)) \<longrightarrow> last_sub duration (ss_history s) k = Some (sub_expiry v, sub_user_data v))
     \<and> (\<forall>c e d. last_sub duration (ss_history s) c = Some (e, d) \<longrightarrow> ss_now s \<le> e \<longrightarrow> (\<exists>k v. (k, v) \<in> set (subs (ss_sub s)) \<and> conn_eq k c))"

lemma conn_eq_symtrans: "conn_eq a b \<Longrightarrow> conn_eq b a" "conn_eq a b \<Longrightarrow> conn_eq b c \<Longrightarrow> conn_eq a c" "conn_eq a a"
  by (auto simp: conn_eq_def conn_sn_def split: if_splits)

lemma last_sub_cong: "conn_eq c k \<Longrightarrow> last_sub n h c = last_sub n h k"
  by (induction n h c rule: last_sub.induct) (auto intro: conn_eq_symtrans)

lemma mm_find_cases:
  "mm_find conn_eq c m = None \<Longrightarrow> (k, v) \<in> set m \<Longrightarrow> \<not> conn_eq k c"
  "mm_find conn_eq c m = Some (k, v) \<Longrightarrow> (k, v) \<in> set m \<and> conn_eq k c"
  by (auto simp: mm_find_def find_None_iff find_Some_iff) (metis fst_conv nth_mem)+

lemma sub_invD:
  assumes "sub_inv n s"
  shows "sub_duration (ss_sub s) = n" "distinct (map fst (subs (ss_sub s)))"
    and "(k, v) \<in> set (subs (ss_sub s)) \<Longrightarrow> (l, w) \<in> set (subs (ss_sub s)) \<Longrightarrow> conn_eq k l \<Longrightarrow> k = l"
    and "(k, v) \<in> set (subs (ss_sub s)) \<Longrightarrow> last_sub n (ss_history s) k = Some (sub_expiry v, sub_user_data v)"
    and "last_sub n (ss_history s) c = Some (e, d) \<Longrightarrow> ss_now s \<le> e \<Longrightarrow> \<exists>k v. (k, v) \<in> set (subs (ss_sub s)) \<and> conn_eq k c"
  using assms unfolding sub_inv_def by auto

lemma sub_invI:
  assumes "sub_duration (ss_sub s) = n" "distinct (map fst (subs (ss_sub s)))"
    and "\<And>k v l w. (k, v) \<in> set (subs (ss_sub s)) \<Longrightarrow> (l, w) \<in> set (subs (ss_sub s)) \<Longrightarrow> conn_eq k l \<Longrightarrow> k = l"
    and "\<And>k v. (k, v) \<in> set (subs (ss_sub s)) \<Longrightarrow> last_sub n (ss_history s) k = Some (sub_expiry v, sub_user_data v)"
    and "\<And>c e d. last_sub n (ss_history s) c = Some (e, d) \<Longrightarrow> ss_now s \<le> e \<Longrightarrow> \<exists>k v. (k, v) \<in> set (subs (ss_sub s)) \<and> conn_eq k c"
  shows "sub_inv n s"
  using assms unfolding sub_inv_def by blast

text \<open>Dropping subscriptions that have expired keeps the invariant.\<close>

lemma sub_inv_drop:
  assumes inv: "sub_inv n s" and p: "subs p = filter Q (subs (ss_sub s))" "sub_duration p = n"
    and expired: "\<And>k v. (k, v) \<in> set (subs (ss_sub s)) \<Longrightarrow> \<not> Q (k, v) \<Longrightarrow> sub_expiry v < ss_now s"
  shows "sub_inv n (s\<lparr>ss_sub := p\<rparr>)"
proof (rule sub_invI, goal_cases)
  case (3 k v l w)
  then show ?case using sub_invD(3) [OF inv, of k v l w] p(1) by simp
next
  case (4 k v)
  then show ?case using sub_invD(4) [OF inv, of k v] p(1) by simp
next
  case l: (5 c e d)
  then obtain k v where kv: "(k, v) \<in> set (subs (ss_sub s))" "conn_eq k c" using sub_invD(5) [OF inv, of c e d] by auto
  then have "sub_expiry v = e" using sub_invD(4) [OF inv kv(1)] last_sub_cong [OF kv(2), of n "ss_history s"] l(1) by simp
  then have "Q (k, v)" using expired [OF kv(1)] l(2) by force
  then show ?case using kv p(1) by auto
qed (use p sub_invD(2) [OF inv] in \<open>simp_all add: distinct_map_filter\<close>)

text \<open>A subscription that replaces the one of its connection, or is a new one, keeps it.\<close>

lemma sub_inv_insert:
  assumes inv: "sub_inv n s" and p: "sub_duration p = n" "distinct (map fst (subs p))"
    and keys: "fst ` set (subs (ss_sub s)) \<subseteq> fst ` set (subs p)"
    and new: "\<And>k v l w. (k, v) \<in> set (subs p) \<Longrightarrow> (l, w) \<in> set (subs p) \<Longrightarrow> conn_eq k c \<Longrightarrow> conn_eq l c \<Longrightarrow>
       k = l \<and> sub_expiry v = ss_now s + 1000000 * n \<and> sub_user_data v = d"
    and old: "\<And>k v. (k, v) \<in> set (subs p) \<Longrightarrow> \<not> conn_eq k c \<Longrightarrow> (k, v) \<in> set (subs (ss_sub s))"
    and stored: "(k, v) \<in> set (subs p)" "conn_eq k c"
  shows "sub_inv n (s\<lparr>ss_sub := p, ss_history := subscribed (ss_now s) c d # ss_history s\<rparr>)"
proof (rule sub_invI, goal_cases)
  case (3 k v l w)
  then have "conn_eq k c \<longleftrightarrow> conn_eq l c" by (auto intro: conn_eq_symtrans(2) [OF conn_eq_symtrans(1)] conn_eq_symtrans(2))
  then show ?case using 3 new [of k v l w] old [of k v] old [of l w] sub_invD(3) [OF inv, of k v l w] by auto
next
  case (4 k v)
  moreover have "conn_eq k c \<longleftrightarrow> conn_eq c k" by (blast intro: conn_eq_symtrans)
  ultimately show ?case using new [of k v k v] old [of k v] sub_invD(4) [OF inv, of k v] by auto
next
  case (5 e t u)
  show ?case
  proof (cases "conn_eq c e")
    case True
    then show ?thesis using stored(1) conn_eq_symtrans(2) [OF stored(2) True] by auto
  next
    case False
    then obtain l w where "(l, w) \<in> set (subs (ss_sub s))" "conn_eq l e" using 5 sub_invD(5) [OF inv, of e t u] by auto
    then show ?thesis using keys by force
  qed
qed (use p in simp_all)

lemma upd_values:
  "(l, w) \<in> set (map (\<lambda>(l, w). (l, f l w)) xs) \<longleftrightarrow> (\<exists>w'. (l, w') \<in> set xs \<and> w = f l w')"
  "map fst (map (\<lambda>(l, w). (l, f l w)) xs) = map fst xs"
  by (induction xs) auto

lemma subscribe_inv:
  assumes inv: "sub_inv n s" and eq: "\<And>a b. user_eq a b \<longleftrightarrow> a = b"
  shows "sub_inv n (s\<lparr>ss_sub := snd (subscribe user_eq (ss_now s) c d (ss_sub s)), ss_history := subscribed (ss_now s) c d # ss_history s\<rparr>)"
proof (cases "mm_find conn_eq c (subs (ss_sub s))")
  case None
  have "\<not> conn_eq k c" if "(k, v) \<in> set (subs (ss_sub s))" for k v using mm_find_cases(1) [OF None that] .
  moreover from this have "c \<notin> fst ` set (subs (ss_sub s))" using conn_eq_symtrans(3) by fastforce
  ultimately show ?thesis
    by (intro sub_inv_insert [OF inv, where k = c]) (use None sub_invD(1,2) [OF inv] conn_eq_symtrans(3) in \<open>auto simp: subscribe_def Let_def\<close>)
next
  case (Some kv)
  obtain k v where kv: "kv = (k, v)" by force
  have mem: "(k, v) \<in> set (subs (ss_sub s))" "conn_eq k c" using mm_find_cases(2) [OF Some [unfolded kv]] by simp_all
  have same: "l = k" if "(l, w) \<in> set (subs (ss_sub s))" "conn_eq l c" for l w
    using sub_invD(3) [OF inv that(1) mem(1)] conn_eq_symtrans(2) [OF that(2) conn_eq_symtrans(1) [OF mem(2)]] .
  let ?u = "\<lparr>sub_expiry = ss_now s + 1000000 * n, sub_user_data = d\<rparr>"
  let ?upd = "\<lambda>(l, w). (l, if conn_eq l c then ?u else w)"
  have "snd (subscribe user_eq (ss_now s) c d (ss_sub s)) = (ss_sub s)\<lparr>subs := map ?upd (subs (ss_sub s))\<rparr>"
  proof -
    have u: "v\<lparr>sub_expiry := ss_now s + 1000000 * n, sub_user_data := d\<rparr> = ?u"
      "sub_user_data v = d \<Longrightarrow> v\<lparr>sub_expiry := ss_now s + 1000000 * n\<rparr> = ?u" by (cases v; simp)+
    show ?thesis using Some kv sub_invD(1) [OF inv] by (simp add: subscribe_def Let_def eq u cong: if_cong)
  qed
  moreover define p where "p = snd (subscribe user_eq (ss_now s) c d (ss_sub s))"
  ultimately have p: "snd (subscribe user_eq (ss_now s) c d (ss_sub s)) = p" "sub_duration p = n" "subs p = map ?upd (subs (ss_sub s))"
    using sub_invD(1) [OF inv] by simp_all
  have upd: "(l, w) \<in> set (subs p) \<longleftrightarrow> (\<exists>w'. (l, w') \<in> set (subs (ss_sub s)) \<and> w = (if conn_eq l c then ?u else w'))" for l w
    unfolding p(3) by (rule upd_values)
  have keys: "map fst (subs p) = map fst (subs (ss_sub s))" unfolding p(3) by (rule upd_values)
  show ?thesis unfolding p(1)
  proof (rule sub_inv_insert [OF inv p(2), where k = k and v = ?u], goal_cases)
    case 1
    show ?case using keys sub_invD(2) [OF inv] by simp
  next
    case 2
    show ?case using keys by (metis list.set_map subset_refl)
  next
    case (3 l w m x)
    then show ?case unfolding upd by (auto dest!: same)
  qed (use upd mem in auto)
qed

lemma unsubscribe_inv:
  assumes inv: "sub_inv n s"
  shows "sub_inv n (s\<lparr>ss_sub := snd (unsubscribe c (ss_sub s)), ss_history := unsubscribed c # ss_history s\<rparr>)"
proof (rule sub_invI, goal_cases)
  case (3 k v l w)
  then show ?case using sub_invD(3) [OF inv, of k v l w] by (simp add: unsubscribe_def mm_erase_key_def)
next
  case (4 k v)
  moreover have "conn_eq k c \<longleftrightarrow> conn_eq c k" by (blast intro: conn_eq_symtrans)
  ultimately show ?case using sub_invD(4) [OF inv, of k v] by (simp add: unsubscribe_def mm_erase_key_def)
next
  case (5 b e d)
  then have ne: "\<not> conn_eq c b" by auto
  then obtain k v where kv: "(k, v) \<in> set (subs (ss_sub s))" "conn_eq k b" using 5 sub_invD(5) [OF inv, of b e d] by auto
  then have "\<not> conn_eq k c" using ne conn_eq_symtrans(2) [OF conn_eq_symtrans(1)] by blast
  then show ?case using kv by (auto simp: unsubscribe_def mm_erase_key_def)
qed (use sub_invD(1,2) [OF inv] in \<open>simp_all add: unsubscribe_def mm_erase_key_def distinct_map_filter\<close>)

lemma publish_remove_filter:
  assumes "\<And>k v l w. (k, v) \<in> set (subs p) \<Longrightarrow> (l, w) \<in> set (subs p) \<Longrightarrow> conn_eq k l \<Longrightarrow> (k, v) = (l, w)"
  shows "publish_remove t r p = p\<lparr>subs := filter (\<lambda>(k, v). \<not> (list_ex (conn_eq k) r \<and> sub_expiry v < t)) (subs p)\<rparr>"
  using assms
proof (induction r arbitrary: p)
  case (Cons c r)
  let ?Q = "\<lambda>(k, v). \<not> (conn_eq k c \<and> sub_expiry v < t)"
  have "(case mm_find conn_eq c (subs p) of None \<Rightarrow> p
         | Some (k, v) \<Rightarrow> if sub_expiry v < t then p\<lparr>subs := mm_erase_key conn_eq c (subs p)\<rparr> else p) = p\<lparr>subs := filter ?Q (subs p)\<rparr>"
  proof (cases "mm_find conn_eq c (subs p)")
    case None
    then have "filter ?Q (subs p) = subs p" using mm_find_cases(1) [OF None] by (auto simp: filter_id_conv)
    then show ?thesis using None by simp
  next
    case (Some kv)
    obtain k v where kv: "kv = (k, v)" by force
    have mem: "(k, v) \<in> set (subs p)" "conn_eq k c" using mm_find_cases(2) [OF Some [unfolded kv]] by simp_all
    have "w = v" if "(l, w) \<in> set (subs p)" "conn_eq l c" for l w
    proof -
      show ?thesis using conn_eq_symtrans(2) [OF that(2) conn_eq_symtrans(1) [OF mem(2)]] Cons.prems [OF that(1) mem(1)] by simp
    qed
    then have "filter ?Q (subs p) = (if sub_expiry v < t then mm_erase_key conn_eq c (subs p) else subs p)"
      by (auto simp: mm_erase_key_def filter_id_conv intro!: filter_cong)
    then show ?thesis using Some kv by simp
  qed
  moreover have "publish_remove t r (p\<lparr>subs := filter ?Q (subs p)\<rparr>) = p\<lparr>subs := filter (\<lambda>(k, v). \<not> (list_ex (conn_eq k) r \<and> sub_expiry v < t)) (filter ?Q (subs p))\<rparr>"
    by (subst Cons.IH) (use Cons.prems in auto)
  moreover have "filter (\<lambda>(k, v). \<not> (list_ex (conn_eq k) r \<and> sub_expiry v < t)) (filter ?Q (subs p)) =
      filter (\<lambda>(k, v). \<not> (list_ex (conn_eq k) (c # r) \<and> sub_expiry v < t)) (subs p)"
    by (auto intro!: filter_cong simp: filter_filter)
  ultimately show ?case by (simp add: publish_remove_def)
qed (simp add: publish_remove_def)

lemma sub_step_inv:
  assumes "sub_step user_eq s s'" "sub_inv n s" "\<And>a b. user_eq a b \<longleftrightarrow> a = b"
  shows "sub_inv n s'"
  using assms(1)
proof cases
  case (tick t)
  then show ?thesis using assms(2) unfolding sub_inv_def by fastforce
next
  case (publish_remove xs r ys)
  have uniq: "(k, v) = (l, w)" if "(k, v) \<in> set (subs (ss_sub s))" "(l, w) \<in> set (subs (ss_sub s))" "conn_eq k l" for k v l w
    using sub_invD(2) [OF assms(2)] sub_invD(3) [OF assms(2) that] that by (auto dest: eq_key_imp_eq_value)
  have "sub_inv n (s\<lparr>ss_sub := publish_remove (ss_now s) r (ss_sub s)\<rparr>)"
    by (rule sub_inv_drop [OF assms(2)]) (use sub_invD(1) [OF assms(2)] publish_remove_filter [OF uniq] in auto)
  then show ?thesis using publish_remove(1) unfolding sub_inv_def by simp
next
  case remove_expired
  show ?thesis unfolding remove_expired
    by (rule sub_inv_drop [OF assms(2)]) (use sub_invD(1) [OF assms(2)] in \<open>auto simp: remove_expired_def\<close>)
next
  case publish_calls
  then show ?thesis using assms(2) unfolding sub_inv_def by simp
next
  case (subscribe conn d)
  show ?thesis unfolding subscribe by (rule subscribe_inv [OF assms(2,3)])
next
  case (unsubscribe conn)
  show ?thesis unfolding unsubscribe by (rule unsubscribe_inv [OF assms(2)])
qed

lemma sub_reachable_inv:
  assumes "sub_reachable user_eq n s" "\<And>a b. user_eq a b \<longleftrightarrow> a = b"
  shows "sub_inv n s"
proof -
  obtain t where "(sub_step user_eq)\<^sup>*\<^sup>* (sub_init t n) s" using assms(1) unfolding sub_reachable_def by blast
  then show ?thesis
  proof induction
    case base
    show ?case by (simp add: sub_inv_def sub_init_def)
  next
    case (step y z)
    then show ?case using sub_step_inv assms(2) by blast
  qed
qed

section \<open>What is published\<close>

lemma set_publish_calls:
  "(k, d) \<in> set (fst (publish_calls t p)) \<longleftrightarrow> (\<exists>v. (k, v) \<in> set (subs p) \<and> t \<le> sub_expiry v \<and> sub_user_data v = d)"
  by (force simp: publish_calls_def)

lemma length_publish_calls:
  "length (filter (\<lambda>kd. conn_eq (fst kd) c) (fst (publish_calls t p))) \<le> length (filter (\<lambda>kv. conn_eq (fst kv) c) (subs p))"
proof -
  have "length (filter (\<lambda>kd. conn_eq (fst kd) c) (map (\<lambda>(k, v). (k, sub_user_data v)) (filter (\<lambda>(k, v). \<not> sub_expiry v < t) xs)))
      \<le> length (filter (\<lambda>kv. conn_eq (fst kv) c) xs)" for xs :: "(connection_id \<times> 'a sub_data) list"
    by (induction xs) auto
  then show ?thesis by (simp add: publish_calls_def)
qed

text \<open>
  A subscriber that renews between the passes of a \<^verbatim>\<open>publish\<close> call that found it expired.
\<close>

definition renewed_system :: "nat sub_system" where
  "renewed_system =
     (let a = conn_of_id 5;
          s0 = sub_init 0 1;
          s1 = s0\<lparr>ss_sub := snd (subscribe (=) 0 a 1 (ss_sub s0)), ss_history := subscribed 0 a 1 # ss_history s0\<rparr>;
          s2 = s1\<lparr>ss_now := 2000000\<rparr>;
          r = snd (publish_calls 2000000 (ss_sub s2));
          s3 = s2\<lparr>ss_removing := r # ss_removing s2\<rparr>;
          s4 = s3\<lparr>ss_sub := snd (subscribe (=) 2000000 a 2 (ss_sub s3)), ss_history := subscribed 2000000 a 2 # ss_history s3\<rparr>
      in s4\<lparr>ss_sub := publish_remove 2000000 r (ss_sub s4), ss_removing := []\<rparr>)"

lemma renewed_reachable: "sub_reachable (=) 1 renewed_system"
proof -
  let ?a = "conn_of_id 5" and ?s0 = "sub_init 0 1 :: nat sub_system"
  let ?s1 = "?s0\<lparr>ss_sub := snd (subscribe (=) (ss_now ?s0) ?a 1 (ss_sub ?s0)), ss_history := subscribed (ss_now ?s0) ?a 1 # ss_history ?s0\<rparr>"
  let ?s2 = "?s1\<lparr>ss_now := 2000000\<rparr>"
  let ?r = "snd (publish_calls (ss_now ?s2) (ss_sub ?s2))"
  let ?s3 = "?s2\<lparr>ss_removing := ?r # ss_removing ?s2\<rparr>"
  let ?s4 = "?s3\<lparr>ss_sub := snd (subscribe (=) (ss_now ?s3) ?a 2 (ss_sub ?s3)), ss_history := subscribed (ss_now ?s3) ?a 2 # ss_history ?s3\<rparr>"
  let ?s5 = "?s4\<lparr>ss_sub := publish_remove (ss_now ?s4) ?r (ss_sub ?s4), ss_removing := [] @ []\<rparr>"
  have "sub_step (=) ?s0 ?s1" by (rule sub_step.subscribe)
  moreover have "sub_step (=) ?s1 ?s2" by (rule sub_step.tick) (simp add: sub_init_def)
  moreover have "sub_step (=) ?s2 ?s3" by (rule sub_step.publish_calls)
  moreover have "sub_step (=) ?s3 ?s4" by (rule sub_step.subscribe)
  moreover have "sub_step (=) ?s4 ?s5" by (rule sub_step.publish_remove) (simp add: sub_init_def)
  ultimately have "(sub_step (=))\<^sup>*\<^sup>* ?s0 ?s5" by (meson converse_rtranclp_into_rtranclp rtranclp.rtrancl_refl)
  moreover have "?s5 = renewed_system" by (simp add: renewed_system_def Let_def sub_init_def)
  ultimately show ?thesis unfolding sub_reachable_def by metis
qed

text \<open>C17: In every state that threads reach by subscribing, cancelling, purging and publishing in any interleaving of the passes of \<^verbatim>\<open>publish\<close>, a
  call of \<^verbatim>\<open>publish\<close> calls the user's function exactly for the connections whose latest subscription was not cancelled
  and has not expired, with the data of that subscription, and once for each.
\<close>

theorem publish_exact:
  assumes "sub_reachable user_eq duration s" and "\<And>a b. user_eq a b \<longleftrightarrow> a = b"
  shows "((\<exists>k. conn_eq k c \<and> (k, d) \<in> set (fst (publish_calls (ss_now s) (ss_sub s)))) \<longleftrightarrow>
      (\<exists>expiry. last_sub duration (ss_history s) c = Some (expiry, d) \<and> ss_now s \<le> expiry))
    \<and> length (filter (\<lambda>kd. conn_eq (fst kd) c) (fst (publish_calls (ss_now s) (ss_sub s)))) \<le> 1"
proof
  note inv = sub_reachable_inv [OF assms]
  have stored: "last_sub duration (ss_history s) c = Some (sub_expiry v, sub_user_data v)" if "(k, v) \<in> set (subs (ss_sub s))" "conn_eq k c" for k v
    using sub_invD(4) [OF inv that(1)] last_sub_cong [OF that(2), of duration "ss_history s"] by simp
  show "(\<exists>k. conn_eq k c \<and> (k, d) \<in> set (fst (publish_calls (ss_now s) (ss_sub s)))) \<longleftrightarrow>
      (\<exists>expiry. last_sub duration (ss_history s) c = Some (expiry, d) \<and> ss_now s \<le> expiry)"
    unfolding set_publish_calls using stored sub_invD(5) [OF inv, of c _ d] by fastforce
  let ?P = "\<lambda>kv. conn_eq (fst kv) c" and ?ks = "map fst (subs (ss_sub s))"
  have "length (filter ?P (fst (publish_calls (ss_now s) (ss_sub s)))) \<le> length (filter ?P (subs (ss_sub s)))"
    by (rule length_publish_calls)
  also have "\<dots> = card (set (filter (\<lambda>k. conn_eq k c) ?ks))"
    using distinct_card [OF distinct_filter [OF sub_invD(2) [OF inv], of "\<lambda>k. conn_eq k c"]] by (simp add: filter_map o_def)
  also have "\<dots> \<le> 1"
  proof -
    have "k = l" if "(k, v) \<in> set (subs (ss_sub s))" "(l, w) \<in> set (subs (ss_sub s))" "conn_eq k c" "conn_eq l c" for k v l w
      using sub_invD(3) [OF inv that(1,2)] conn_eq_symtrans(2) [OF that(3) conn_eq_symtrans(1) [OF that(4)]] .
    then have "\<forall>k \<in> set (filter (\<lambda>k. conn_eq k c) ?ks). \<forall>l \<in> set (filter (\<lambda>k. conn_eq k c) ?ks). k = l" by fastforce
    then show ?thesis by (metis (no_types, lifting) List.finite_set One_nat_def card_le_Suc0_iff_eq)
  qed
  finally show "length (filter ?P (fst (publish_calls (ss_now s) (ss_sub s)))) \<le> 1" .
qed

theorem publish_exact_witness:
  "sub_reachable (=) 1 renewed_system \<and> fst (publish_calls (ss_now renewed_system) (ss_sub renewed_system)) = [(conn_of_id 5, 2)]
   \<and> last_sub 1 (ss_history renewed_system) (conn_of_id 5) = Some (3000000, 2)
   \<and> length (filter (\<lambda>kd. conn_eq (fst kd) (conn_of_id 5)) (fst (publish_calls (ss_now renewed_system) (ss_sub renewed_system)))) \<le> 1"
proof -
  have "last_sub 1 (ss_history renewed_system) (conn_of_id 5) = Some (3000000, 2)"
    "fst (publish_calls (ss_now renewed_system) (ss_sub renewed_system)) = [(conn_of_id 5, 2)]" by code_simp+
  moreover note renewed_reachable publish_exact [OF renewed_reachable, of "conn_of_id 5" 2]
  ultimately show ?thesis by simp
qed

end
